(* ===== verification/Chaski_Prelude.thy ===== *)
theory Chaski_Prelude
  imports Complex_Main "HOL-Library.AList" "HOL-Library.List_Lexorder" "HOL-Library.Product_Lexorder" "HOL-Library.Char_ord"
begin

text \<open>
  Shared vocabulary of the development: Python values, floats with their three
  non-finite values, dictionaries that keep insertion order, and the generic lemmas
  the component theories use.

  Timestamps and durations are real numbers: the order and the sums the code relies
  on are kept, the rounding of binary floats is not modelled. Where the code asks
  \<open>isfinite\<close> the value is an \<open>fl\<close>. Strings are lists of characters.
\<close>

section \<open>Collections of facts\<close>

named_theorems inv_intros \<open>invariant preservation, one rule per operation\<close>
named_theorems step_simps \<open>what one operation does to each part of the state\<close>

section \<open>Floats and JSON values\<close>

datatype fl = Fin real | PosInf | NegInf | NaN

fun isfinite :: "fl \<Rightarrow> bool" where
  "isfinite (Fin _) = True"
| "isfinite _ = False"

datatype json =
    JNull
  | JBool bool
  | JInt int
  | JFloat fl
  | JStr string
  | JList "json list"
  | JObj "(string \<times> json) list"

fun truthy :: "json \<Rightarrow> bool" where
  "truthy JNull = False"
| "truthy (JBool b) = b"
| "truthy (JInt n) = (n \<noteq> 0)"
| "truthy (JFloat f) = (f \<noteq> Fin 0)"
| "truthy (JStr s) = (s \<noteq> [])"
| "truthy (JList xs) = (xs \<noteq> [])"
| "truthy (JObj kvs) = (kvs \<noteq> [])"

text \<open>\<open>json.dumps(value, allow_nan=False)\<close> raises exactly for a value that holds a
  non-finite float at some depth.\<close>

fun has_non_finite :: "json \<Rightarrow> bool" where
  "has_non_finite (JFloat f) = (\<not> isfinite f)"
| "has_non_finite (JList xs) = (\<exists>x \<in> set xs. has_non_finite x)"
| "has_non_finite (JObj kvs) = (\<exists>kv \<in> set kvs. has_non_finite (snd kv))"
| "has_non_finite _ = False"

section \<open>Dictionaries with insertion order\<close>

type_synonym ('k, 'v) dict = "('k \<times> 'v) list"

abbreviation dict_ok :: "('k, 'v) dict \<Rightarrow> bool" where
  "dict_ok d \<equiv> distinct (map fst d)"

text \<open>\<open>d[k] = v\<close> keeps the position of a key that is there (\<open>AList.update\<close>);
  SQLite's \<open>INSERT OR REPLACE\<close> deletes the row and inserts a new one at the end.\<close>

definition replace_row :: "'k \<Rightarrow> 'v \<Rightarrow> ('k, 'v) dict \<Rightarrow> ('k, 'v) dict" where
  "replace_row k v d = AList.delete k d @ [(k, v)]"

text \<open>\<open>INSERT OR IGNORE\<close> and \<open>dict.setdefault\<close>: only when the key is absent.\<close>

definition insert_row :: "'k \<Rightarrow> 'v \<Rightarrow> ('k, 'v) dict \<Rightarrow> ('k, 'v) dict" where
  "insert_row k v d = (if map_of d k = None then d @ [(k, v)] else d)"

declare map_of_eq_Some_iff [simp del]

lemma map_of_update [simp]: "map_of (AList.update k v d) = (map_of d)(k \<mapsto> v)"
  by (rule update_conv')

lemma map_of_delete [simp]: "map_of (AList.delete k d) = (map_of d)(k := None)"
  by (rule delete_conv')

lemma map_of_replace_row [simp]: "map_of (replace_row k v d) = (map_of d)(k \<mapsto> v)"
  by (auto simp: replace_row_def map_add_def split: option.splits)

lemma map_of_insert_row:
  "map_of (insert_row k v d) = (if map_of d k = None then (map_of d)(k \<mapsto> v) else map_of d)"
  by (auto simp: insert_row_def map_add_def fun_eq_iff split: option.splits)

lemma dict_ok_update [inv_intros]: "dict_ok d \<Longrightarrow> dict_ok (AList.update k v d)"
  by (rule distinct_update)

lemma dict_ok_delete [inv_intros]: "dict_ok d \<Longrightarrow> dict_ok (AList.delete k d)"
  by (rule distinct_delete)

lemma dict_ok_replace_row [inv_intros]: "dict_ok d \<Longrightarrow> dict_ok (replace_row k v d)"
  by (auto simp: replace_row_def AList.delete_eq distinct_map_filter image_iff)

lemma dict_ok_insert_row [inv_intros]: "dict_ok d \<Longrightarrow> dict_ok (insert_row k v d)"
  by (auto simp: insert_row_def map_of_eq_None_iff)

lemma dict_ok_filter [inv_intros]: "dict_ok d \<Longrightarrow> dict_ok (filter P d)"
  by (rule distinct_map_filter)

lemma map_of_filter_key:
  "map_of (filter (\<lambda>kv. P (fst kv)) d) k = (if P k then map_of d k else None)"
  by (induction d) auto

lemma map_of_None_filter: "map_of d k = None \<Longrightarrow> map_of (filter P d) k = None"
  by (auto simp: map_of_eq_None_iff image_iff)

lemma map_of_filter_dict_ok:
  assumes "dict_ok d" "map_of d k = Some v"
  shows "map_of (filter P d) k = (if P (k, v) then Some v else None)"
  using assms
proof (induction d)
  case (Cons kv d)
  show ?case
  proof (cases "fst kv = k")
    case True
    with Cons.prems have "snd kv = v" "map_of d k = None"
      by (auto simp: map_of_eq_None_iff)
    with True show ?thesis by (cases kv) (auto simp: map_of_None_filter)
  next
    case False
    with Cons show ?thesis by (cases kv) auto
  qed
qed simp

lemma length_insert_row [simp]:
  "length (insert_row k v d) = (if map_of d k = None then Suc (length d) else length d)"
  by (simp add: insert_row_def)

section \<open>Results\<close>

text \<open>The exceptions the modelled code raises itself. The text of a message is not
  modelled where no code reads it.\<close>

datatype py_error =
    ValueError | TypeError | KeyError | LookupError | RuntimeError | BufferFull | StreamGap
  | Unavailable | EnvelopeError

type_synonym 'a outcome = "py_error + 'a"

fun bind_outcome :: "'a outcome \<Rightarrow> ('a \<Rightarrow> 'b outcome) \<Rightarrow> 'b outcome" where
  "bind_outcome (Inl e) f = Inl e"
| "bind_outcome (Inr a) f = f a"

lemma bind_outcome_Inr:
  "bind_outcome r f = Inr b \<longleftrightarrow> (\<exists>a. r = Inr a \<and> f a = Inr b)"
  by (cases r) auto

section \<open>Lists\<close>

lemma filter_eq_self_iff: "filter P xs = xs \<longleftrightarrow> (\<forall>x \<in> set xs. P x)"
  by (simp add: filter_id_conv)

lemma sorted_last_Max:
  assumes "sorted xs" "xs \<noteq> []"
  shows "last xs = Max (set xs)"
proof (rule Max_eqI [symmetric])
  show "last xs \<in> set xs" using assms(2) by simp
  fix y assume "y \<in> set xs"
  then obtain i where i: "i < length xs" "y = xs ! i" by (auto simp: in_set_conv_nth)
  then have "xs ! i \<le> xs ! (length xs - 1)" using assms(1) by (intro sorted_nth_mono) auto
  then show "y \<le> last xs" using i(2) assms(2) by (simp add: last_conv_nth)
qed simp

section \<open>Decimal text\<close>

text \<open>\<open>str(n)\<close> of a natural number.\<close>

definition digit :: "nat \<Rightarrow> char" where
  "digit n = char_of (48 + n)"

fun dec :: "nat \<Rightarrow> string" where
  "dec n = (if n < 10 then [digit n] else dec (n div 10) @ [digit (n mod 10)])"

declare dec.simps [simp del]

fun join :: "string \<Rightarrow> string list \<Rightarrow> string" where
  "join sep [] = []"
| "join sep [x] = x"
| "join sep (x # y # xs) = x @ sep @ join sep (y # xs)"

section \<open>Strings\<close>

text \<open>The characters below 256 that \<open>str.strip\<close> removes.\<close>

definition is_space :: "char \<Rightarrow> bool" where
  "is_space c \<longleftrightarrow> (of_char c :: nat) \<in> {9, 10, 11, 12, 13, 28, 29, 30, 31, 32, 133, 160}"

text \<open>\<open>str.split(sep)\<close> of one character.\<close>

fun split_on :: "char \<Rightarrow> string \<Rightarrow> string list" where
  "split_on c [] = [[]]"
| "split_on c (x # xs) =
     (if x = c then [] # split_on c xs
      else case split_on c xs of [] \<Rightarrow> [[x]] | w # ws \<Rightarrow> (x # w) # ws)"

text \<open>\<open>str.strip(c)\<close> of one character.\<close>

definition strip_char :: "char \<Rightarrow> string \<Rightarrow> string" where
  "strip_char c s = rev (dropWhile (\<lambda>x. x = c) (rev (dropWhile (\<lambda>x. x = c) s)))"

lemma split_on_ne [simp]: "split_on c s \<noteq> []"
  by (induction s) (auto split: list.splits)

lemma join_split_on [simp]: "join [c] (split_on c s) = s"
proof (induction s)
  case (Cons x xs)
  then show ?case by (cases "split_on c xs" rule: list.exhaust; cases "tl (split_on c xs)") auto
qed simp

lemma split_on_no_sep: "w \<in> set (split_on c s) \<Longrightarrow> c \<notin> set w"
  by (induction s arbitrary: w) (auto split: list.splits if_splits)

lemma split_on_single: "c \<notin> set s \<Longrightarrow> split_on c s = [s]"
  by (induction s) auto

lemma split_on_append_sep: "split_on c (xs @ c # ys) = split_on c xs @ split_on c ys"
  by (induction xs) (auto split: list.splits)

end
