(* ===== verification/Chaski_Exceptions.thy ===== *)
theory Chaski_Exceptions
  imports Chaski_Prelude
begin

text \<open>
  Which failures are expected and retried: \<open>src/chaski/outage.py\<close>
  (\<open>expected_failure\<close>, \<open>_expected\<close>, \<open>_describe\<close>), \<open>src/chaski/startup.py\<close>
  (\<open>transient_status\<close>, \<open>BrokerRefused\<close>, \<open>colca_unreachable\<close>) and
  \<open>unconfirmed_write\<close> of \<open>src/chaski/executor.py\<close>.

  An exception object has an identity, because both walks along \<open>__cause__\<close> and
  \<open>__context__\<close> keep the identities they have seen: a heap maps identities to
  exceptions, and the links may form a cycle.
\<close>

section \<open>Exceptions\<close>

text \<open>What the value of a \<open>Retry-After\<close> header decodes to: \<open>float(value)\<close>, an HTTP
  date (unix seconds), or neither. An absent header is the empty string, neither.\<close>

datatype header = Seconds fl | HttpDate real | BadHeader

text \<open>One constructor per class the code tests for, in the order of the tests; a class
  that carries a status or reason code keeps it. \<open>EAttr\<close> is a foreign exception with
  \<open>status\<close> and \<open>retry_after\<close> attributes.\<close>

datatype ekind =
    EColcaUnavailable
  | EUrlHttpError nat header
  | EHttpStatus nat header
  | EBrokerRefused nat
  | EPublishTimeout
  | EPublishRejected nat
  | EBufferError
  | EConnection | ETimeout | EGai | EUrl | ETransport
  | EOSError "nat option"
  | EAttr nat fl
  | EReject
  | ENotSent
  | EOther

record exn =
  ekind :: ekind
  ename :: string
  etext :: string
  ecause :: "nat option"
  econtext :: "nat option"

type_synonym exn_heap = "(nat, exn) dict"

section \<open>Expected failures\<close>

definition TRANSIENT_HTTP :: "nat list" where "TRANSIENT_HTTP = [408, 425, 429]"
definition TRANSIENT_CONNACK :: "nat list" where "TRANSIENT_CONNACK = [0x88, 0x89, 0x97, 0x9F]"
definition TRANSIENT_PUBACK :: "nat list" where "TRANSIENT_PUBACK = [0x89, 0x97]"

text \<open>Linux numbers of ENETDOWN, ENETUNREACH, EHOSTDOWN and EHOSTUNREACH.\<close>

definition UNREACHABLE_ERRNOS :: "nat list" where "UNREACHABLE_ERRNOS = [100, 101, 112, 113]"

definition transient_status :: "nat \<Rightarrow> bool" where
  "transient_status status \<longleftrightarrow> status \<in> set TRANSIENT_HTTP \<or> 500 \<le> status"

definition broker_transient :: "nat \<Rightarrow> bool" where
  "broker_transient reason_code \<longleftrightarrow> reason_code \<in> set TRANSIENT_CONNACK"

fun is_expected :: "ekind \<Rightarrow> bool" where
  "is_expected EColcaUnavailable = True"
| "is_expected (EUrlHttpError code _) = transient_status code"
| "is_expected (EHttpStatus code _) = transient_status code"
| "is_expected (EBrokerRefused code) = broker_transient code"
| "is_expected EPublishTimeout = True"
| "is_expected (EPublishRejected code) = (code \<in> set TRANSIENT_PUBACK)"
| "is_expected EBufferError = True"
| "is_expected EConnection = True"
| "is_expected ETimeout = True"
| "is_expected EGai = True"
| "is_expected EUrl = True"
| "is_expected ETransport = True"
| "is_expected (EOSError (Some errno)) = (errno \<in> set UNREACHABLE_ERRNOS)"
| "is_expected _ = False"

definition describe :: "exn \<Rightarrow> string" where
  "describe e = (if etext e = '''' then ename e else take 300 (ename e @ '': '' @ etext e))"

text \<open>\<open>foreign_oserror\<close> says whether a class of the franzmq package (not in the
  repository) derives from \<open>OSError\<close>.\<close>

fun colca_unreachable :: "(ekind \<Rightarrow> bool) \<Rightarrow> ekind \<Rightarrow> bool" where
  "colca_unreachable fo (EUrlHttpError code _) = transient_status code"
| "colca_unreachable fo (EHttpStatus code _) = transient_status code"
| "colca_unreachable fo (EBrokerRefused code) = broker_transient code"
| "colca_unreachable fo EConnection = True"
| "colca_unreachable fo ETimeout = True"
| "colca_unreachable fo EGai = True"
| "colca_unreachable fo EUrl = True"
| "colca_unreachable fo ETransport = True"
| "colca_unreachable fo (EOSError _) = True"
| "colca_unreachable fo EPublishTimeout = fo EPublishTimeout"
| "colca_unreachable fo (EPublishRejected code) = fo (EPublishRejected code)"
| "colca_unreachable fo _ = False"

section \<open>Walking the chain of causes\<close>

text \<open>The loop both walks share: stop at the first exception \<open>test\<close> has a verdict on,
  at the end of the chain, or at an identity already seen.\<close>

function chase :: "(exn \<Rightarrow> nat option) \<Rightarrow> (exn \<Rightarrow> 'a option) \<Rightarrow> exn_heap \<Rightarrow> nat list \<Rightarrow> nat option \<Rightarrow> 'a option" where
  "chase nxt test h seen None = None"
| "chase nxt test h seen (Some i) =
     (if i \<in> set seen then None
      else case map_of h i of
             None \<Rightarrow> None
           | Some e \<Rightarrow> (case test e of
                 Some v \<Rightarrow> Some v
               | None \<Rightarrow> chase nxt test h (i # seen) (nxt e)))"
  by pat_completeness auto
termination
proof (relation "measure (\<lambda>(nxt, test, h, seen, cur). card (set (map fst h) - set seen))")
  fix nxt :: "exn \<Rightarrow> nat option" and test :: "exn \<Rightarrow> 'a option"
    and h :: exn_heap and seen i and e :: exn
  assume "i \<notin> set seen" and "map_of h i = Some e"
  then have "i \<in> set (map fst h) - set seen" by (force dest: map_of_SomeD)
  then have "card (set (map fst h) - set (i # seen)) < card (set (map fst h) - set seen)"
    by (intro psubset_card_mono) auto
  then show "((nxt, test, h, i # seen, nxt e), nxt, test, h, seen, Some i)
      \<in> measure (\<lambda>(nxt, test, h, seen, cur). card (set (map fst h) - set seen))" by simp
qed simp

declare chase.simps(2) [simp del]

definition expected_test :: "exn \<Rightarrow> string option" where
  "expected_test e = (if is_expected (ekind e) then Some (describe e) else None)"

definition expected_failure :: "exn_heap \<Rightarrow> nat \<Rightarrow> string option" where
  "expected_failure h i = chase ecause expected_test h [] (Some i)"

definition unconfirmed_test :: "exn \<Rightarrow> bool option" where
  "unconfirmed_test e =
     (case ekind e of EPublishTimeout \<Rightarrow> Some True | ENotSent \<Rightarrow> Some False | _ \<Rightarrow> None)"

text \<open>\<open>current.__cause__ or current.__context__\<close>.\<close>

definition cause_or_context :: "exn \<Rightarrow> nat option" where
  "cause_or_context e = (case ecause e of Some j \<Rightarrow> Some j | None \<Rightarrow> econtext e)"

definition unconfirmed_write :: "exn_heap \<Rightarrow> nat \<Rightarrow> bool" where
  "unconfirmed_write h i =
     (case chase cause_or_context unconfirmed_test h [] (Some i) of Some b \<Rightarrow> b | None \<Rightarrow> False)"

text \<open>The specification: the verdict on the exception \<open>n\<close> links down the chain.\<close>

fun verdict_at :: "(exn \<Rightarrow> nat option) \<Rightarrow> (exn \<Rightarrow> 'a option) \<Rightarrow> exn_heap \<Rightarrow> nat option \<Rightarrow> nat \<Rightarrow> 'a option" where
  "verdict_at nxt test h None n = None"
| "verdict_at nxt test h (Some i) 0 = Option.bind (map_of h i) test"
| "verdict_at nxt test h (Some i) (Suc n) =
     (case map_of h i of None \<Rightarrow> None | Some e \<Rightarrow> verdict_at nxt test h (nxt e) n)"

lemma chase_sound:
  "chase nxt test h seen cur = Some v \<Longrightarrow>
     \<exists>n. verdict_at nxt test h cur n = Some v \<and> (\<forall>m < n. verdict_at nxt test h cur m = None)"
proof (induction nxt test h seen cur rule: chase.induct)
  case (2 nxt test h seen i)
  from "2.prems" obtain e where e: "i \<notin> set seen" "map_of h i = Some e"
    by (auto simp: chase.simps(2) split: if_splits option.splits)
  show ?case
  proof (cases "test e")
    case (Some w)
    with "2.prems" e have "w = v" by (simp add: chase.simps(2))
    with e Some show ?thesis by (intro exI [of _ 0]) simp
  next
    case None
    with "2.prems" e have "chase nxt test h (i # seen) (nxt e) = Some v"
      by (simp add: chase.simps(2))
    then obtain n where n: "verdict_at nxt test h (nxt e) n = Some v"
        "\<forall>m < n. verdict_at nxt test h (nxt e) m = None"
      using "2.IH" [OF e(1) e(2) None] by blast
    have "verdict_at nxt test h (Some i) m = None" if "m < Suc n" for m
      using that n(2) e(2) None by (cases m) auto
    with n(1) e(2) show ?thesis by (intro exI [of _ "Suc n"]) simp
  qed
qed simp

lemma chase_complete:
  assumes "verdict_at nxt test h (Some i) n = Some v"
    and "\<And>m. m < n \<Longrightarrow> verdict_at nxt test h (Some i) m = None"
    and "\<And>s m. s \<in> set seen \<Longrightarrow> m \<le> n \<Longrightarrow> verdict_at nxt test h (Some s) m = None"
  shows "chase nxt test h seen (Some i) = Some v"
  using assms
proof (induction n arbitrary: i seen)
  case 0
  then have "i \<notin> set seen" by auto
  with "0.prems"(1) show ?case
    by (auto simp: chase.simps(2) bind_eq_Some_conv split: option.splits)
next
  case (Suc n)
  have seen: "i \<notin> set seen"
    using Suc.prems(3) [of i "Suc n"] Suc.prems(1) by (metis le_refl option.distinct(1))
  from Suc.prems(1) obtain e j where e: "map_of h i = Some e" "nxt e = Some j"
    "verdict_at nxt test h (Some j) n = Some v"
    by (cases "map_of h i") (auto elim!: verdict_at.elims)
  have none: "test e = None" using Suc.prems(2) [of 0] e(1) by simp
  have "chase nxt test h (i # seen) (Some j) = Some v"
  proof (rule Suc.IH [OF e(3)])
    show "verdict_at nxt test h (Some j) m = None" if "m < n" for m
      using Suc.prems(2) [of "Suc m"] that e(1,2) by simp
    show "verdict_at nxt test h (Some s) m = None" if "s \<in> set (i # seen)" "m \<le> n" for s m
      using Suc.prems(2) [of m] Suc.prems(3) [of s m] that by auto
  qed
  with seen e none show ?case by (simp add: chase.simps(2))
qed

lemma chase_iff:
  "chase nxt test h [] (Some i) = Some v \<longleftrightarrow>
     (\<exists>n. verdict_at nxt test h (Some i) n = Some v \<and> (\<forall>m < n. verdict_at nxt test h (Some i) m = None))"
  using chase_sound [of nxt test h "[]" "Some i" v] chase_complete [of nxt test h i _ v "[]"] by auto

lemma chase_not_None_iff:
  "chase nxt test h [] (Some i) \<noteq> None \<longleftrightarrow> (\<exists>n. verdict_at nxt test h (Some i) n \<noteq> None)"
proof
  assume "\<exists>n. verdict_at nxt test h (Some i) n \<noteq> None"
  then obtain n where n: "verdict_at nxt test h (Some i) n \<noteq> None"
      "\<And>m. m < n \<Longrightarrow> verdict_at nxt test h (Some i) m = None"
    using exists_least_iff [of "\<lambda>n. verdict_at nxt test h (Some i) n \<noteq> None"] by auto
  then show "chase nxt test h [] (Some i) \<noteq> None"
    using chase_complete [of nxt test h i n _ "[]"] by fastforce
qed (use chase_sound [of nxt test h "[]" "Some i"] in fastforce)

section \<open>Properties\<close>

text \<open>\<open>expected_failure\<close> terminates on every exception graph, cyclic ones included, and
  gives a reason exactly when some exception down the \<open>__cause__\<close> chain is one of the
  expected, retried conditions; the reason describes the first such exception.\<close>

theorem expected_failure_iff:
  "expected_failure h i = Some reason \<longleftrightarrow>
     (\<exists>n. verdict_at ecause expected_test h (Some i) n = Some reason
        \<and> (\<forall>m < n. verdict_at ecause expected_test h (Some i) m = None))"
  unfolding expected_failure_def by (rule chase_iff)

theorem expected_failure_iff_witness:
  "expected_failure
     [(0, \<lparr>ekind = EOther, ename = ''E'', etext = '''', ecause = Some 1, econtext = None\<rparr>),
      (1, \<lparr>ekind = EBufferError, ename = ''BufferError'', etext = ''full'', ecause = Some 0, econtext = None\<rparr>)] 0
     = Some ''BufferError: full''"
  unfolding expected_failure_iff
  by (rule exI [of _ "Suc 0"]) (simp add: expected_test_def describe_def numeral_eq_Suc)

text \<open>A command handler's exception counts as an unconfirmed write (answered 504, not
  500) exactly when a \<open>PublishTimeout\<close> comes before any \<open>NotSent\<close> along
  \<open>__cause__ or __context__\<close>.\<close>

theorem unconfirmed_write_iff:
  "unconfirmed_write h i \<longleftrightarrow>
     (\<exists>n. verdict_at cause_or_context unconfirmed_test h (Some i) n = Some True
        \<and> (\<forall>m < n. verdict_at cause_or_context unconfirmed_test h (Some i) m = None))"
  using chase_iff [of cause_or_context unconfirmed_test h i True]
  by (auto simp: unconfirmed_write_def split: option.splits)

theorem unconfirmed_write_iff_witness:
  "unconfirmed_write
     [(0, \<lparr>ekind = EOther, ename = ''E'', etext = '''', ecause = None, econtext = Some 1\<rparr>),
      (1, \<lparr>ekind = EPublishTimeout, ename = ''T'', etext = '''', ecause = None, econtext = Some 0\<rparr>)] 0"
  unfolding unconfirmed_write_iff
  by (rule exI [of _ "Suc 0"]) (simp add: unconfirmed_test_def cause_or_context_def)

end
