(* ===== verification/Chaski_Retry.thy ===== *)
theory Chaski_Retry
  imports Chaski_Exceptions
begin

text \<open>
  The wait between retries: \<open>src/chaski/retry.py\<close> (\<open>retry_after\<close>, \<open>Backoff\<close>) and the
  backoff of \<open>Ingest._error_backoff_s\<close>. The random draws are arguments in \<open>[0, 1]\<close>:
  \<open>uniform(a, b)\<close> of the code is \<open>a + (b - a) * u\<close>, as CPython computes it.
\<close>

definition RETRY_AFTER_MAX_S :: real where "RETRY_AFTER_MAX_S = 60"
definition RETRY_AFTER_JITTER :: real where "RETRY_AFTER_JITTER = 2 / 10"

definition uniform :: "real \<Rightarrow> real \<Rightarrow> real \<Rightarrow> real" where
  "uniform a b u = a + (b - a) * u"

text \<open>The tail both forms share: a finite, positive number of seconds or nothing.\<close>

definition positive_delay :: "fl \<Rightarrow> real option" where
  "positive_delay d = (case d of Fin r \<Rightarrow> if 0 < r then Some r else None | _ \<Rightarrow> None)"

definition header_delay :: "real \<Rightarrow> header \<Rightarrow> real option" where
  "header_delay now value = (case value of
       Seconds d \<Rightarrow> positive_delay d
     | HttpDate instant \<Rightarrow> positive_delay (Fin (instant - now))
     | BadHeader \<Rightarrow> None)"

fun retry_after :: "real \<Rightarrow> ekind option \<Rightarrow> real option" where
  "retry_after now (Some (EAttr status explicit)) =
     (if status = 429 then positive_delay explicit else None)"
| "retry_after now (Some (EHttpStatus code value)) = (if code = 429 then header_delay now value else None)"
| "retry_after now (Some (EUrlHttpError code value)) = (if code = 429 then header_delay now value else None)"
| "retry_after now _ = None"

record backoff =
  minimum :: real
  maximum :: real
  failures :: nat

definition mk_backoff :: "real \<Rightarrow> real \<Rightarrow> backoff outcome" where
  "mk_backoff mn mx =
     (if \<not> (0 < mn \<and> mn \<le> mx) then Inl ValueError
      else Inr \<lparr>minimum = mn, maximum = mx, failures = 0\<rparr>)"

definition backoff_reset :: "backoff \<Rightarrow> backoff" where
  "backoff_reset b = b\<lparr>failures := 0\<rparr>"

text \<open>The ceiling of the draw after \<open>n\<close> consecutive failures (\<open>n\<close> counted first).\<close>

definition backoff_ceiling :: "backoff \<Rightarrow> nat \<Rightarrow> real" where
  "backoff_ceiling b n = min (maximum b) (minimum b * 2 ^ min (n - 1) 30)"

definition backoff_delay :: "real \<Rightarrow> real \<Rightarrow> real \<Rightarrow> ekind option \<Rightarrow> backoff \<Rightarrow> real \<times> backoff" where
  "backoff_delay now u v err b =
     (let b' = b\<lparr>failures := failures b + 1\<rparr>;
          ceiling = backoff_ceiling b' (failures b');
          delay = uniform (ceiling / 2) ceiling u
      in (case retry_after now err of
            None \<Rightarrow> delay
          | Some asked \<Rightarrow>
              max delay (min asked RETRY_AFTER_MAX_S * uniform 1 (1 + RETRY_AFTER_JITTER) v), b'))"

text \<open>\<open>Ingest._error_backoff_s\<close> with its class constants.\<close>

definition ERROR_BACKOFF_S :: real where "ERROR_BACKOFF_S = 1"
definition ERROR_BACKOFF_MAX_S :: real where "ERROR_BACKOFF_MAX_S = 30"

definition error_backoff_s :: "real \<Rightarrow> nat \<Rightarrow> real" where
  "error_backoff_s u attempt =
     min (ERROR_BACKOFF_S * 2 ^ (attempt - 1)) ERROR_BACKOFF_MAX_S * (1 + uniform 0 (2 / 10) u)"

definition backoff_ok :: "backoff \<Rightarrow> bool" where
  "backoff_ok b \<longleftrightarrow> 0 < minimum b \<and> minimum b \<le> maximum b"

definition unit_draw :: "real \<Rightarrow> bool" where
  "unit_draw u \<longleftrightarrow> 0 \<le> u \<and> u \<le> 1"

section \<open>Lemmas\<close>

lemma mk_backoff_ok: "mk_backoff mn mx = Inr b \<Longrightarrow> backoff_ok b \<and> failures b = 0"
  by (auto simp: mk_backoff_def backoff_ok_def split: if_splits)

lemma backoff_delay_ok [inv_intros]: "backoff_ok b \<Longrightarrow> backoff_ok (snd (backoff_delay now u v err b))"
  by (simp add: backoff_delay_def backoff_ok_def Let_def)

lemma backoff_reset_ok [inv_intros]: "backoff_ok b \<Longrightarrow> backoff_ok (backoff_reset b)"
  by (simp add: backoff_reset_def backoff_ok_def)

lemma backoff_delay_failures [step_simps]:
  "failures (snd (backoff_delay now u v err b)) = Suc (failures b)"
  by (simp add: backoff_delay_def Let_def)

lemma retry_after_pos: "retry_after now err = Some a \<Longrightarrow> 0 < a"
  by (cases "(now, err)" rule: retry_after.cases)
    (auto simp: positive_delay_def header_delay_def split: if_splits fl.splits header.splits)

lemma uniform_ge: "a \<le> b \<Longrightarrow> unit_draw u \<Longrightarrow> a \<le> uniform a b u"
  by (simp add: uniform_def unit_draw_def)

lemma uniform_le: "a \<le> b \<Longrightarrow> unit_draw u \<Longrightarrow> uniform a b u \<le> b"
  using mult_left_le [of u "b - a"] by (simp add: uniform_def unit_draw_def)

lemma backoff_ceiling_pos: "backoff_ok b \<Longrightarrow> 0 < backoff_ceiling b n"
  by (auto simp: backoff_ceiling_def backoff_ok_def)

lemma backoff_ceiling_le: "backoff_ceiling b n \<le> maximum b"
  by (simp add: backoff_ceiling_def)

lemma backoff_ceiling_ge: "backoff_ok b \<Longrightarrow> minimum b \<le> backoff_ceiling b n"
  by (auto simp: backoff_ceiling_def backoff_ok_def)

lemma backoff_ceiling_mono:
  assumes "backoff_ok b" "m \<le> n"
  shows "backoff_ceiling b m \<le> backoff_ceiling b n"
proof -
  have "(2::real) ^ min (m - 1) 30 \<le> 2 ^ min (n - 1) 30"
    using assms(2) by (intro power_increasing) auto
  then have "minimum b * 2 ^ min (m - 1) 30 \<le> minimum b * 2 ^ min (n - 1) 30"
    using assms(1) by (intro mult_left_mono) (auto simp: backoff_ok_def)
  then show ?thesis by (simp add: backoff_ceiling_def)
qed

lemma asked_floor_bounds:
  assumes "0 < a" "unit_draw v"
  shows "min a RETRY_AFTER_MAX_S \<le> min a RETRY_AFTER_MAX_S * uniform 1 (1 + RETRY_AFTER_JITTER) v"
    and "min a RETRY_AFTER_MAX_S * uniform 1 (1 + RETRY_AFTER_JITTER) v \<le> 72"
proof -
  let ?f = "uniform 1 (1 + RETRY_AFTER_JITTER) v"
  have f: "1 \<le> ?f" "?f \<le> 1 + RETRY_AFTER_JITTER"
    using assms(2) uniform_ge [of 1 "1 + RETRY_AFTER_JITTER" v] uniform_le [of 1 "1 + RETRY_AFTER_JITTER" v]
    by (auto simp: RETRY_AFTER_JITTER_def)
  have m: "0 < min a RETRY_AFTER_MAX_S" "min a RETRY_AFTER_MAX_S \<le> 60"
    using assms(1) by (auto simp: RETRY_AFTER_MAX_S_def)
  show "min a RETRY_AFTER_MAX_S \<le> min a RETRY_AFTER_MAX_S * ?f"
    using mult_left_mono [OF f(1), of "min a RETRY_AFTER_MAX_S"] m(1) by simp
  have "min a RETRY_AFTER_MAX_S * ?f \<le> 60 * (1 + RETRY_AFTER_JITTER)"
    using m f by (intro mult_mono) auto
  then show "min a RETRY_AFTER_MAX_S * ?f \<le> 72" by (simp add: RETRY_AFTER_JITTER_def)
qed

section \<open>Properties\<close>

text \<open>C4: What \<open>Backoff.delay\<close> returns, for every error and every draw: at least half of the
  ceiling reached (so never zero), at most the maximum or 72 seconds (60 plus 20 percent),
  at least what a 429 asked for up to 60 seconds, and no more than the ceiling when nothing
  was asked for.\<close>

theorem backoff_delay_bounds:
  assumes "backoff_ok b" "unit_draw u" "unit_draw v"
  shows "let d = fst (backoff_delay now u v err b); c = backoff_ceiling b (Suc (failures b)) in
     c / 2 \<le> d \<and> minimum b / 2 \<le> d \<and> 0 < d \<and> d \<le> max (maximum b) 72
     \<and> (retry_after now err = None \<longrightarrow> d \<le> c)
     \<and> (\<forall>a. retry_after now err = Some a \<longrightarrow> min a RETRY_AFTER_MAX_S \<le> d)"
proof -
  let ?c = "backoff_ceiling b (Suc (failures b))"
  let ?w = "uniform (?c / 2) ?c u"
  have c: "0 < ?c" "?c \<le> maximum b" "minimum b \<le> ?c"
    using assms(1) by (auto intro: backoff_ceiling_pos backoff_ceiling_le backoff_ceiling_ge)
  have w: "?c / 2 \<le> ?w" "?w \<le> ?c"
    using c(1) assms(2) uniform_ge [of "?c / 2" ?c u] uniform_le [of "?c / 2" ?c u] by auto
  have ceiling: "backoff_ceiling (b\<lparr>failures := n\<rparr>) m = backoff_ceiling b m" for n m
    by (simp add: backoff_ceiling_def)
  show ?thesis
  proof (cases "retry_after now err")
    case None
    with c w show ?thesis by (simp add: backoff_delay_def Let_def ceiling)
  next
    case (Some a)
    note f = asked_floor_bounds [OF retry_after_pos [OF Some] assms(3)]
    from c w f Some show ?thesis
      by (auto simp: backoff_delay_def Let_def ceiling le_max_iff_disj)
  qed
qed

theorem backoff_delay_bounds_witness:
  "let b = \<lparr>minimum = 1, maximum = 30, failures = 4\<rparr>;
       d = fst (backoff_delay 0 (1/2) (1/2) (Some (EHttpStatus 429 (Seconds (Fin 45)))) b) in
     8 \<le> d \<and> 45 \<le> d \<and> d \<le> 72"
  using backoff_delay_bounds [of "\<lparr>minimum = 1, maximum = 30, failures = 4\<rparr>" "1/2" "1/2" 0
      "Some (EHttpStatus 429 (Seconds (Fin 45)))"]
  by (simp add: backoff_ok_def unit_draw_def backoff_ceiling_def Let_def header_delay_def
      positive_delay_def RETRY_AFTER_MAX_S_def)

end
