(* ===== verification/Chaski_Doorbell.thy ===== *)
theory Chaski_Doorbell
  imports Chaski_Prelude
begin

text \<open>
  The generation counter consumers wait on: \<open>src/chaski/doorbell.py\<close> and its alias
  \<open>src/chaski/_wakeup.py\<close>. A blocked wait is a function of what happens meanwhile, in
  order: a ring, \<open>stop\<close> being set, another notification, or the timeout.
\<close>

text \<open>\<open>waiters\<close> are the futures registered by \<open>after\<close>, named by numbers.\<close>

record doorbell =
  generation :: nat
  waiters :: "nat list"

definition mk_doorbell :: doorbell where
  "mk_doorbell = \<lparr>generation = 0, waiters = []\<rparr>"

text \<open>\<open>ring\<close> hands back the futures it resolves.\<close>

definition ring :: "doorbell \<Rightarrow> nat list \<times> doorbell" where
  "ring b = (waiters b, b\<lparr>generation := generation b + 1, waiters := []\<rparr>)"

abbreviation rung :: "doorbell \<Rightarrow> doorbell" where
  "rung b \<equiv> snd (ring b)"

text \<open>What a waiting thread observes: \<open>Notified\<close> is a wake-up without a ring
  (\<open>_wake_waiters\<close>, a spurious notification).\<close>

datatype happening = Rings | StopSet | Notified | TimeoutPassed

text \<open>\<open>Some (r, b)\<close>: the wait returned \<open>r\<close> with the bell at \<open>b\<close>; \<open>None\<close>: still blocked
  after everything that happened. \<open>has_stop\<close>: a \<open>stop\<close> event was given.\<close>

fun wait_after :: "bool \<Rightarrow> bool \<Rightarrow> nat \<Rightarrow> doorbell \<Rightarrow> happening list \<Rightarrow> (bool \<times> doorbell) option" where
  "wait_after has_stop stopped since b hs =
     (if generation b \<noteq> since \<or> (has_stop \<and> stopped) then Some (generation b \<noteq> since, b)
      else case hs of
             [] \<Rightarrow> None
           | Rings # hs' \<Rightarrow> wait_after has_stop stopped since (rung b) hs'
           | StopSet # hs' \<Rightarrow> wait_after has_stop True since b hs'
           | Notified # hs' \<Rightarrow> wait_after has_stop stopped since b hs'
           | TimeoutPassed # hs' \<Rightarrow> Some (generation b \<noteq> since, b))"

declare wait_after.simps [simp del]

text \<open>\<open>after\<close>: return at once when the bell rang, else register a future.\<close>

definition after_start :: "nat \<Rightarrow> nat \<Rightarrow> doorbell \<Rightarrow> bool \<times> doorbell" where
  "after_start future since b =
     (if generation b \<noteq> since then (True, b) else (False, b\<lparr>waiters := waiters b @ [future]\<rparr>))"

definition after_cancel :: "nat \<Rightarrow> doorbell \<Rightarrow> doorbell" where
  "after_cancel future b = b\<lparr>waiters := remove1 future (waiters b)\<rparr>"

lemma generation_ring [simp]: "generation (rung b) = Suc (generation b)"
  by (simp add: ring_def)

lemma waiters_ring [simp]: "waiters (rung b) = []" "fst (ring b) = waiters b"
  by (simp_all add: ring_def)

lemma generation_rings: "generation ((rung ^^ n) b) = generation b + n"
  by (induction n) auto

lemma wait_after_rang:
  "generation b \<noteq> since \<Longrightarrow> wait_after has_stop stopped since b hs = Some (True, b)"
  by (subst wait_after.simps) simp

lemma wait_after_step:
  "generation b = since \<Longrightarrow> \<not> (has_stop \<and> stopped) \<Longrightarrow>
     wait_after has_stop stopped since b (h # hs) =
       (case h of Rings \<Rightarrow> wait_after has_stop stopped since (rung b) hs
        | StopSet \<Rightarrow> wait_after has_stop True since b hs
        | Notified \<Rightarrow> wait_after has_stop stopped since b hs
        | TimeoutPassed \<Rightarrow> Some (False, b))"
  by (subst wait_after.simps) (auto split: happening.splits)

text \<open>A wait that returned True saw a newer generation, False only when none came.\<close>

lemma wait_after_result:
  "wait_after has_stop stopped since b hs = Some (r, b') \<Longrightarrow>
     generation b \<le> generation b' \<and> (r \<longleftrightarrow> generation b' \<noteq> since)"
proof (induction hs arbitrary: b stopped)
  case Nil
  then show ?case by (subst (asm) wait_after.simps) (auto split: if_splits)
next
  case (Cons h hs)
  show ?case
  proof (cases "generation b \<noteq> since \<or> (has_stop \<and> stopped)")
    case True
    with Cons.prems show ?thesis by (subst (asm) wait_after.simps) auto
  next
    case False
    with Cons.prems have "(case h of Rings \<Rightarrow> wait_after has_stop stopped since (rung b) hs
        | StopSet \<Rightarrow> wait_after has_stop True since b hs
        | Notified \<Rightarrow> wait_after has_stop stopped since b hs
        | TimeoutPassed \<Rightarrow> Some (False, b)) = Some (r, b')"
      by (subst (asm) wait_after_step) auto
    with False Cons.IH show ?thesis by (cases h) fastforce+
  qed
qed

text \<open>The wait does not outlive a ring, a timeout, or \<open>stop\<close> when one was given.\<close>

lemma wait_after_returns:
  assumes "Rings \<in> set hs \<or> TimeoutPassed \<in> set hs \<or> (has_stop \<and> StopSet \<in> set hs)"
    and "since \<le> generation b"
  shows "\<exists>r b'. wait_after has_stop stopped since b hs = Some (r, b')"
  using assms
proof (induction hs arbitrary: b stopped)
  case (Cons h hs)
  show ?case
  proof (cases "generation b \<noteq> since \<or> (has_stop \<and> stopped)")
    case True
    then show ?thesis by (subst wait_after.simps) auto
  next
    case False
    show ?thesis
    proof (cases h)
      case Rings
      with Cons.prems(2) have "generation (rung b) \<noteq> since" by simp
      with False Rings show ?thesis by (subst wait_after.simps) (auto simp: wait_after_rang)
    next
      case StopSet
      show ?thesis
      proof (cases has_stop)
        case True
        have "wait_after has_stop True since b hs = Some (generation b \<noteq> since, b)"
          using True by (subst wait_after.simps) auto
        with False StopSet show ?thesis by (subst wait_after_step) auto
      next
        case no: False
        from Cons.prems StopSet no have "\<exists>r b'. wait_after has_stop True since b hs = Some (r, b')"
          by (intro Cons.IH) auto
        with False StopSet show ?thesis by (subst wait_after.simps) auto
      qed
    next
      case Notified
      with Cons have "\<exists>r b'. wait_after has_stop stopped since b hs = Some (r, b')" by auto
      with False Notified show ?thesis by (subst wait_after.simps) auto
    next
      case TimeoutPassed
      with False show ?thesis by (subst wait_after.simps) auto
    qed
  qed
qed simp

text \<open>A coroutine's future waits among the bell's until it is cancelled itself.\<close>

lemma after_start_waits:
  "let (rang, b') = after_start future since b in
     \<not> rang \<longrightarrow> future \<in> set (fst (ring b')) \<and> (\<forall>other. other \<noteq> future \<longrightarrow> future \<in> set (fst (ring (after_cancel other b'))))"
  by (simp add: after_start_def after_cancel_def)

section \<open>Properties\<close>

text \<open>C3: No wake-up is lost. A consumer that takes the generation before it drains and
  waits after it returns True at once if the bell rang at least once meanwhile, whatever
  \<open>stop\<close> says and whatever happens later; if the bell did not ring, the wait blocks until a
  ring, a timeout or a given \<open>stop\<close>, and reports True exactly if a ring came. The same holds for a coroutine:
  \<open>after\<close> returns at once when the bell rang, and the future it registers otherwise is resolved by the next ring,
  also when another wait was cancelled in between.\<close>

theorem no_lost_wakeup:
  "(0 < n \<longrightarrow>
      wait_after has_stop stopped (generation b) ((rung ^^ n) b) hs = Some (True, (rung ^^ n) b))
   \<and> ((Rings \<in> set hs \<or> TimeoutPassed \<in> set hs \<or> (has_stop \<and> StopSet \<in> set hs)) \<longrightarrow>
      (\<exists>r b'. wait_after has_stop stopped (generation b) b hs = Some (r, b')
          \<and> (r \<longleftrightarrow> generation b' \<noteq> generation b)))
   \<and> (0 < n \<longrightarrow> fst (after_start future (generation b) ((rung ^^ n) b)))
   \<and> (let (rang, b') = after_start future since b in
        \<not> rang \<longrightarrow> future \<in> set (fst (ring b')) \<and> (\<forall>other. other \<noteq> future \<longrightarrow> future \<in> set (fst (ring (after_cancel other b')))))"
  using after_start_waits [of future since b] wait_after_returns [of hs has_stop "generation b" b stopped] wait_after_result
  by (fastforce intro: wait_after_rang simp: generation_rings after_start_def)

theorem no_lost_wakeup_witness:
  "wait_after True False 0 (rung mk_doorbell) [] = Some (True, rung mk_doorbell)
   \<and> (\<exists>r b'. wait_after True False 0 mk_doorbell [Notified, StopSet, Rings] = Some (r, b')
          \<and> (r \<longleftrightarrow> generation b' \<noteq> 0))"
  using no_lost_wakeup [of 1 True False mk_doorbell "[]"]
    no_lost_wakeup [of 0 True False mk_doorbell "[Notified, StopSet, Rings]"]
  by (simp add: mk_doorbell_def)

end
