(* ===== verification/Chaski_Failures.thy ===== *)
theory Chaski_Failures
  imports Chaski_Exceptions
begin

text \<open>
  What a failing handler does to the service's health: \<open>src/chaski/failures.py\<close>
  (\<open>HandlerHealth\<close>, \<open>rejection_finding\<close>, \<open>record_subject\<close>). The reports are what the
  \<open>on_change\<close> callback receives, in order.
\<close>

section \<open>Handler health\<close>

definition UNHEALTHY_AFTER :: nat where "UNHEALTHY_AFTER = 5"
definition REJECTED_FINDING :: string where "REJECTED_FINDING = ''rejected_input''"

datatype status = OK | DEGRADED | UNHEALTHY

record failing =
  fail_count :: nat
  fail_error :: string
  fail_since :: real

record health =
  unhealthy_after :: nat
  h_failing :: "(string, failing) dict"

definition mk_health :: "int \<Rightarrow> health outcome" where
  "mk_health n = (if n < 1 then Inl ValueError else Inr \<lparr>unhealthy_after = nat n, h_failing = []\<rparr>)"

definition health_status :: "health \<Rightarrow> status" where
  "health_status h =
     (if h_failing h = [] then OK
      else if unhealthy_after h \<le> Max (set (map (fail_count \<circ> snd) (h_failing h))) then UNHEALTHY
      else DEGRADED)"

definition health_summary :: "health \<Rightarrow> string" where
  "health_summary h =
     join ''; '' (map (\<lambda>(name, f). name @ '' failed '' @ dec (fail_count f) @ ''x: '' @ fail_error f)
       (sort_key fst (h_failing h)))"

type_synonym report = "status \<times> string"

definition changed :: "health \<Rightarrow> report list" where
  "changed h = [(health_status h, health_summary h)]"

text \<open>\<open>failed\<close> returns the count, \<open>succeeded\<close> nothing; both give what they report.\<close>

definition health_failed :: "real \<Rightarrow> string \<Rightarrow> exn \<Rightarrow> health \<Rightarrow> nat \<times> report list \<times> health" where
  "health_failed now consumer error h =
     (let text = take 200 (ename error @ '': '' @ etext error);
          before = health_status h;
          previous = map_of (h_failing h) consumer;
          n = (case previous of Some f \<Rightarrow> fail_count f + 1 | None \<Rightarrow> 1);
          f' = \<lparr>fail_count = n, fail_error = text,
                fail_since = (case previous of Some f \<Rightarrow> fail_since f | None \<Rightarrow> now)\<rparr>;
          h' = h\<lparr>h_failing := AList.update consumer f' (h_failing h)\<rparr>
      in (n, if previous = None \<or> before \<noteq> health_status h' then changed h' else [], h'))"

definition health_succeeded :: "string \<Rightarrow> health \<Rightarrow> report list \<times> health" where
  "health_succeeded consumer h =
     (case map_of (h_failing h) consumer of
        None \<Rightarrow> ([], h)
      | Some _ \<Rightarrow> let h' = h\<lparr>h_failing := AList.delete consumer (h_failing h)\<rparr> in (changed h', h'))"

section \<open>Rejections\<close>

definition rejection_finding :: "real \<Rightarrow> string \<Rightarrow> (string, json) dict \<Rightarrow> string \<Rightarrow>
    (string, json) dict \<Rightarrow> nat \<Rightarrow> (string, json) dict" where
  "rejection_finding now consumer subject reason reject_detail rejected =
     (let detail = foldl (\<lambda>d (k, v). AList.update k v d)
                     [(''consumer'', JStr consumer), (''rejected'', JInt (int rejected))] subject;
          detail = (if reject_detail \<noteq> [] then AList.update ''reject'' (JObj reject_detail) detail else detail)
      in [(''reason'', JStr REJECTED_FINDING),
          (''summary'', JStr (take 300 (consumer @ '' set an input aside: '' @ reason))),
          (''observed_at'', JFloat (Fin now)),
          (''suggested_severity'', JStr ''warning''),
          (''detail'', JObj detail),
          (''remedy'', JStr (''Correct the input at its source; '' @
             ''the rejected record stays in the stream until retention.''))])"

section \<open>Runs\<close>

datatype happened = HFailed real string exn | HSucceeded string

fun health_step :: "happened \<Rightarrow> report list \<times> health \<Rightarrow> report list \<times> health" where
  "health_step (HFailed now c e) (rs, h) = (case health_failed now c e h of (_, r, h') \<Rightarrow> (rs @ r, h'))"
| "health_step (HSucceeded c) (rs, h) = (case health_succeeded c h of (r, h') \<Rightarrow> (rs @ r, h'))"

definition health_run :: "happened list \<Rightarrow> report list \<times> health \<Rightarrow> report list \<times> health" where
  "health_run es s = fold health_step es s"

text \<open>The specification: how many failures a consumer had since its last success.\<close>

fun streak :: "string \<Rightarrow> happened list \<Rightarrow> nat" where
  "streak c es = foldl (\<lambda>n e. case e of
       HFailed _ c' _ \<Rightarrow> if c' = c then n + 1 else n
     | HSucceeded c' \<Rightarrow> if c' = c then 0 else n) 0 es"

text \<open>The failure count \<open>h\<close> keeps for a consumer, 0 for one that is not failing.\<close>

definition failures_of :: "health \<Rightarrow> string \<Rightarrow> nat" where
  "failures_of h c = (case map_of (h_failing h) c of None \<Rightarrow> 0 | Some f \<Rightarrow> fail_count f)"

definition health_inv :: "happened list \<Rightarrow> report list \<times> health \<Rightarrow> bool" where
  "health_inv es s \<longleftrightarrow>
     dict_ok (h_failing (snd s))
     \<and> (\<forall>c f. map_of (h_failing (snd s)) c = Some f \<longrightarrow> 0 < fail_count f)
     \<and> (\<forall>c. failures_of (snd s) c = streak c es)
     \<and> health_status (snd s) = (if fst s = [] then OK else fst (last (fst s)))"

lemma streak_snoc [simp]:
  "streak c (es @ [HFailed t c' e]) = (if c' = c then Suc (streak c es) else streak c es)"
  "streak c (es @ [HSucceeded c']) = (if c' = c then 0 else streak c es)"
  by simp_all

lemma streak_Nil [simp]: "streak c [] = 0"
  by simp

declare streak.simps [simp del]

lemma failures_of_failed:
  "failures_of (snd (snd (health_failed t c e h))) = (failures_of h)(c := Suc (failures_of h c))"
  by (auto simp: failures_of_def health_failed_def Let_def fun_eq_iff split: option.splits)

lemma failures_of_succeeded:
  "failures_of (snd (health_succeeded c h)) = (failures_of h)(c := 0)"
  by (auto simp: failures_of_def health_succeeded_def Let_def fun_eq_iff split: option.splits)

lemma health_failed_inv:
  assumes "health_inv es (rs, h)"
  shows "health_inv (es @ [HFailed t c e]) (health_step (HFailed t c e) (rs, h))"
proof -
  obtain n r h' where f: "health_failed t c e h = (n, r, h')" by (metis surj_pair)
  have "\<forall>d. failures_of h' d = streak d (es @ [HFailed t c e])"
    using assms failures_of_failed [of t c e h] f by (simp add: health_inv_def)
  moreover have "dict_ok (h_failing h')"
      "\<forall>c f. map_of (h_failing h') c = Some f \<longrightarrow> 0 < fail_count f"
      "health_status h' = (if rs @ r = [] then OK else fst (last (rs @ r)))"
    using assms f by (auto simp: health_inv_def health_failed_def Let_def changed_def dict_ok_update
        split: option.splits if_splits)
  ultimately show ?thesis using f by (simp add: health_inv_def)
qed

lemma health_succeeded_inv:
  assumes "health_inv es (rs, h)"
  shows "health_inv (es @ [HSucceeded c]) (health_step (HSucceeded c) (rs, h))"
proof -
  obtain r h' where f: "health_succeeded c h = (r, h')" by fastforce
  have "\<forall>d. failures_of h' d = streak d (es @ [HSucceeded c])"
    using assms failures_of_succeeded [of c h] f by (simp add: health_inv_def)
  moreover have "dict_ok (h_failing h')"
      "\<forall>c f. map_of (h_failing h') c = Some f \<longrightarrow> 0 < fail_count f"
      "health_status h' = (if rs @ r = [] then OK else fst (last (rs @ r)))"
    using assms f by (auto simp: health_inv_def health_succeeded_def Let_def changed_def dict_ok_delete
        split: option.splits if_splits)
  ultimately show ?thesis using f by (simp add: health_inv_def)
qed

lemma health_run_snoc: "health_run (es @ [e]) s = health_step e (health_run es s)"
  by (simp add: health_run_def)

lemma health_run_inv: "health_inv es (health_run es ([], \<lparr>unhealthy_after = n, h_failing = []\<rparr>))"
proof (induction es rule: rev_induct)
  case Nil
  show ?case by (simp add: health_inv_def health_run_def health_status_def failures_of_def)
next
  case (snoc e es)
  then show ?case
    by (cases e; cases "health_run es ([], \<lparr>unhealthy_after = n, h_failing = []\<rparr>)")
      (simp_all only: health_run_snoc health_failed_inv health_succeeded_inv)
qed

lemma unhealthy_after_step [simp]: "unhealthy_after (snd (health_step e s)) = unhealthy_after (snd s)"
  by (cases e; cases s) (auto simp: health_failed_def health_succeeded_def Let_def split: option.splits)

lemma unhealthy_after_run [simp]: "unhealthy_after (snd (health_run es s)) = unhealthy_after (snd s)"
  by (induction es rule: rev_induct) (simp_all add: health_run_def)

text \<open>The status in terms of the counts alone.\<close>

lemma counts_image:
  assumes "dict_ok (h_failing h)" "\<And>c f. map_of (h_failing h) c = Some f \<Longrightarrow> 0 < fail_count f"
  shows "k \<in> set (map (fail_count \<circ> snd) (h_failing h)) \<longleftrightarrow> (\<exists>c. failures_of h c = k \<and> 0 < k)"
proof
  assume "k \<in> set (map (fail_count \<circ> snd) (h_failing h))"
  then obtain c f where "(c, f) \<in> set (h_failing h)" "fail_count f = k" by auto
  then have "map_of (h_failing h) c = Some f" "fail_count f = k" using assms(1) by simp_all
  with assms(2) show "\<exists>c. failures_of h c = k \<and> 0 < k" by (intro exI [of _ c]) (auto simp: failures_of_def)
next
  assume "\<exists>c. failures_of h c = k \<and> 0 < k"
  then obtain c f where "map_of (h_failing h) c = Some f" "fail_count f = k"
    by (auto simp: failures_of_def split: option.splits)
  then show "k \<in> set (map (fail_count \<circ> snd) (h_failing h))" by (force dest: map_of_SomeD)
qed

lemma health_status_counts:
  assumes "dict_ok (h_failing h)" "\<And>c f. map_of (h_failing h) c = Some f \<Longrightarrow> 0 < fail_count f"
    and "1 \<le> unhealthy_after h"
  shows "health_status h =
    (if \<exists>c. unhealthy_after h \<le> failures_of h c then UNHEALTHY
     else if \<exists>c. 0 < failures_of h c then DEGRADED else OK)"
proof (cases "h_failing h = []")
  case True
  with assms(3) show ?thesis by (simp add: health_status_def failures_of_def)
next
  case False
  let ?S = "set (map (fail_count \<circ> snd) (h_failing h))"
  have mem: "k \<in> ?S \<longleftrightarrow> (\<exists>c. failures_of h c = k \<and> 0 < k)" for k
    by (rule counts_image) (use assms in auto)
  obtain k where "k \<in> ?S" using False by (cases "h_failing h") auto
  then obtain c where "failures_of h c = k" "0 < k" using mem [of k] by blast
  then have ex: "\<exists>c. 0 < failures_of h c" by auto
  have "unhealthy_after h \<le> Max ?S \<longleftrightarrow> (\<exists>k \<in> ?S. unhealthy_after h \<le> k)"
    using False by (intro Max_ge_iff) auto
  also have "\<dots> \<longleftrightarrow> (\<exists>c. unhealthy_after h \<le> failures_of h c)"
  proof
    assume "\<exists>c. unhealthy_after h \<le> failures_of h c"
    then obtain c where c: "unhealthy_after h \<le> failures_of h c" by blast
    then have "failures_of h c \<in> ?S" using assms(3) mem [of "failures_of h c"] by auto
    with c show "\<exists>k \<in> ?S. unhealthy_after h \<le> k" by blast
  next
    assume "\<exists>k \<in> ?S. unhealthy_after h \<le> k"
    then obtain k where k: "k \<in> ?S" "unhealthy_after h \<le> k" by blast
    then obtain c where "failures_of h c = k" using mem [of k] by blast
    with k show "\<exists>c. unhealthy_after h \<le> failures_of h c" by blast
  qed
  finally show ?thesis using False ex by (simp add: health_status_def)
qed

section \<open>Properties\<close>

text \<open>C5: The health a service reports is exact. After any history of failures and
  successes, the status is unhealthy exactly when some consumer failed at least
  \<open>unhealthy_after\<close> times since its last success, degraded when some consumer failed since its
  last success, else ok; the failing consumers are those with such a failure, each with its
  count; and the last status reported to \<open>on_change\<close> is the current one (ok before any).\<close>

theorem handler_health_exact:
  assumes "mk_health k = Inr h0"
  shows "let (rs, h) = health_run es ([], h0) in
     health_status h = (if \<exists>c. nat k \<le> streak c es then UNHEALTHY
                        else if \<exists>c. 0 < streak c es then DEGRADED else OK)
     \<and> (\<forall>c. failures_of h c = streak c es \<and> (c \<in> fst ` set (h_failing h) \<longleftrightarrow> 0 < streak c es))
     \<and> health_status h = (if rs = [] then OK else fst (last rs))"
proof -
  from assms have h0: "h0 = \<lparr>unhealthy_after = nat k, h_failing = []\<rparr>" "1 \<le> nat k"
    by (auto simp: mk_health_def split: if_splits)
  obtain rs h where r: "health_run es ([], h0) = (rs, h)" by fastforce
  have inv: "health_inv es (rs, h)" using health_run_inv [of es "nat k"] r h0(1) by simp
  have "unhealthy_after h = nat k"
    using arg_cong [OF r, of "\<lambda>s. unhealthy_after (snd s)"] h0(1) by simp
  with inv h0(2) have st: "health_status h =
      (if \<exists>c. nat k \<le> failures_of h c then UNHEALTHY else if \<exists>c. 0 < failures_of h c then DEGRADED else OK)"
    using health_status_counts [of h] by (simp add: health_inv_def)
  have cnt: "failures_of h c = streak c es" for c using inv by (simp add: health_inv_def)
  have keys: "c \<in> fst ` set (h_failing h) \<longleftrightarrow> 0 < failures_of h c" for c
  proof (cases "map_of (h_failing h) c")
    case None
    moreover from None have "c \<notin> fst ` set (h_failing h)" by (simp add: map_of_eq_None_iff)
    ultimately show ?thesis by (simp add: failures_of_def)
  next
    case (Some f)
    moreover from Some have "c \<in> fst ` set (h_failing h)" by (force dest: map_of_SomeD)
    ultimately show ?thesis using inv by (simp add: failures_of_def health_inv_def)
  qed
  have "health_status h = (if rs = [] then OK else fst (last rs))" using inv by (simp add: health_inv_def)
  with st keys cnt show ?thesis unfolding r by (simp only: Let_def prod.case) simp
qed

theorem handler_health_exact_witness:
  "let e = \<lparr>ekind = EOther, ename = ''E'', etext = ''boom'', ecause = None, econtext = None\<rparr>;
       h0 = \<lparr>unhealthy_after = 2, h_failing = []\<rparr> in
     health_status (snd (health_run [HFailed 1 ''a'' e, HFailed 2 ''b'' e, HFailed 3 ''a'' e] ([], h0))) = UNHEALTHY
     \<and> health_status (snd (health_run [HFailed 1 ''a'' e, HSucceeded ''a''] ([], h0))) = OK"
proof -
  let ?e = "\<lparr>ekind = EOther, ename = ''E'', etext = ''boom'', ecause = None, econtext = None\<rparr>"
  let ?h0 = "\<lparr>unhealthy_after = 2, h_failing = []\<rparr>"
  have mk: "mk_health 2 = Inr ?h0" by (simp add: mk_health_def)
  have a: "\<exists>c. nat 2 \<le> streak c [HFailed 1 ''a'' ?e, HFailed 2 ''b'' ?e, HFailed 3 ''a'' ?e]"
    by (intro exI [of _ "''a''"]) (simp add: streak.simps)
  have b: "\<not> (\<exists>c. 0 < streak c [HFailed 1 ''a'' ?e, HSucceeded ''a''])"
    by (simp add: streak.simps)
  show ?thesis
    using handler_health_exact [OF mk, of "[HFailed 1 ''a'' ?e, HFailed 2 ''b'' ?e, HFailed 3 ''a'' ?e]"] a
      handler_health_exact [OF mk, of "[HFailed 1 ''a'' ?e, HSucceeded ''a'']"] b
    by (auto simp: Let_def split: prod.splits)
qed

end
