(* ===== verification/Chaski_Outage.thy ===== *)
theory Chaski_Outage
  imports Chaski_Exceptions
begin

text \<open>
  An outage logged as a state: \<open>Outage\<close> of \<open>src/chaski/outage.py\<close>. The clock readings
  are arguments; a log line is its level and its text. The formatted durations
  (\<open>:.0f\<close>, \<open>:.1f\<close>) are the parameter \<open>fmt\<close>.
\<close>

datatype level = Debug | Info | Warning

record outage =
  o_what :: string
  recovered_as :: string
  remind_every :: real
  since :: "real option"
  attempts :: nat
  reminded_at :: real

definition REMIND_EVERY_S :: real where "REMIND_EVERY_S = 60"

definition mk_outage :: "string \<Rightarrow> real \<Rightarrow> string \<Rightarrow> outage" where
  "mk_outage what every reached =
     \<lparr>o_what = what, recovered_as = reached, remind_every = every,
      since = None, attempts = 0, reminded_at = 0\<rparr>"

definition outage_active :: "outage \<Rightarrow> bool" where
  "outage_active out = (since out \<noteq> None)"

type_synonym log_line = "level \<times> string"

definition outage_note :: "(real \<Rightarrow> string) \<Rightarrow> real \<Rightarrow> string \<Rightarrow> real option \<Rightarrow> outage \<Rightarrow> log_line \<times> outage" where
  "outage_note fmt now reason delay out =
     (let out = out\<lparr>attempts := attempts out + 1\<rparr> in
      case since out of
        None \<Rightarrow> ((Warning, o_what out @ '': '' @ reason @ ''; retrying until it answers''),
                 out\<lparr>since := Some now, reminded_at := now\<rparr>)
      | Some began \<Rightarrow>
          (if remind_every out \<le> now - reminded_at out then
             ((Info, o_what out @ '': still waiting ('' @ dec (attempts out) @ '' attempts, '' @
                 fmt (now - began) @ '' s): '' @ reason),
              out\<lparr>reminded_at := now\<rparr>)
           else
             ((Debug, o_what out @ '': attempt '' @ dec (attempts out) @ '' failed: '' @ reason @
                 (case delay of None \<Rightarrow> '''' | Some d \<Rightarrow> ''; next in '' @ fmt d @ ''s'')), out)))"

text \<open>\<open>reason or found\<close>: an empty reason does not replace the exception's text.\<close>

definition outage_failed :: "(real \<Rightarrow> string) \<Rightarrow> real \<Rightarrow> exn_heap \<Rightarrow> nat \<Rightarrow> real option \<Rightarrow> string option
    \<Rightarrow> outage \<Rightarrow> bool \<times> log_line list \<times> outage" where
  "outage_failed fmt now h exc delay reason out =
     (case expected_failure h exc of
        None \<Rightarrow> (False, [], out)
      | Some found \<Rightarrow>
          let (line, out) = outage_note fmt now
                (case reason of Some r \<Rightarrow> if r = [] then found else r | None \<Rightarrow> found) delay out
          in (True, [line], out))"

definition recovered :: "(real \<Rightarrow> string) \<Rightarrow> real \<Rightarrow> outage \<Rightarrow> log_line list \<times> outage" where
  "recovered fmt now out =
     (case since out of
        None \<Rightarrow> ([], out)
      | Some began \<Rightarrow>
          ([(Info, o_what out @ '': '' @ recovered_as out @ '' after '' @ dec (attempts out) @
               '' failed attempts / '' @ fmt (now - began) @ '' s'')],
           out\<lparr>since := None, attempts := 0\<rparr>))"

text \<open>\<open>warn_failure\<close>: one line with the reason, or the traceback (True).\<close>

definition warn_failure :: "exn_heap \<Rightarrow> nat \<Rightarrow> string \<Rightarrow> string \<times> bool" where
  "warn_failure h exc message =
     (case expected_failure h exc of
        None \<Rightarrow> (message, True)
      | Some reason \<Rightarrow> (message @ '': '' @ reason, False))"

text \<open>A run of failed attempts, each with the clock reading of its \<open>note\<close>.\<close>

fun note_all :: "(real \<Rightarrow> string) \<Rightarrow> (real \<times> string \<times> real option) list \<Rightarrow> outage \<Rightarrow> log_line list \<times> outage" where
  "note_all fmt [] out = ([], out)"
| "note_all fmt ((now, reason, delay) # ats) out =
     (let (line, out) = outage_note fmt now reason delay out; (lines, out) = note_all fmt ats out
      in (line # lines, out))"

section \<open>Lemmas\<close>

abbreviation infos :: "log_line list \<Rightarrow> nat" where
  "infos ls \<equiv> length (filter (\<lambda>l. fst l = Info) ls)"

lemma remind_every_note [simp]: "remind_every (snd (outage_note f now r d out)) = remind_every out"
  by (auto simp: outage_note_def Let_def split: option.splits)

lemma note_first [step_simps]:
  "since out = None \<Longrightarrow> fst (fst (outage_note f now r d out)) = Warning
     \<and> since (snd (outage_note f now r d out)) = Some now \<and> reminded_at (snd (outage_note f now r d out)) = now"
  by (simp add: outage_note_def)

lemma note_later [step_simps]:
  "since out = Some t \<Longrightarrow>
     fst (fst (outage_note f now r d out)) = (if remind_every out \<le> now - reminded_at out then Info else Debug)
     \<and> since (snd (outage_note f now r d out)) = Some t
     \<and> reminded_at (snd (outage_note f now r d out)) =
         (if remind_every out \<le> now - reminded_at out then now else reminded_at out)"
  by (simp add: outage_note_def)

lemma attempts_note [simp]: "attempts (snd (outage_note f now r d out)) = Suc (attempts out)"
  by (auto simp: outage_note_def Let_def split: option.splits)

lemma note_all_attempts: "attempts (snd (note_all f ats out)) = attempts out + length ats"
proof (induction f ats out rule: note_all.induct)
  case (2 f now r d ats out)
  then show ?case using attempts_note [of f now r d out]
    by (cases "outage_note f now r d out"; cases "note_all f ats (snd (outage_note f now r d out))") simp
qed simp

text \<open>While the outage lasts: no WARNING, and the INFO lines are spaced.\<close>

lemma note_all_active:
  assumes "since out = Some t" "0 \<le> remind_every out"
    and "sorted (reminded_at out # map fst ats)"
  shows "since (snd (note_all f ats out)) = Some t"
    and "Warning \<notin> fst ` set (fst (note_all f ats out))"
    and "real (infos (fst (note_all f ats out))) * remind_every out \<le> last (reminded_at out # map fst ats) - reminded_at out"
proof -
  have "since (snd (note_all f ats out)) = Some t \<and> Warning \<notin> fst ` set (fst (note_all f ats out))
    \<and> real (infos (fst (note_all f ats out))) * remind_every out
        \<le> last (reminded_at out # map fst ats) - reminded_at out"
    using assms
  proof (induction f ats out rule: note_all.induct)
    case (2 f now r d ats out)
    obtain line out' where n: "outage_note f now r d out = (line, out')" by fastforce
    obtain lines out'' where m: "note_all f ats out' = (lines, out'')" by fastforce
    note later = note_later [OF "2.prems"(1), of f now r d, unfolded n fst_conv snd_conv]
    have every: "remind_every out' = remind_every out" using remind_every_note [of f now r d out] n by simp
    have "sorted (reminded_at out' # map fst ats)" using "2.prems"(3) later by auto
    then have IH: "since out'' = Some t" "Warning \<notin> fst ` set lines"
        "real (infos lines) * remind_every out \<le> last (reminded_at out' # map fst ats) - reminded_at out'"
      using "2.IH" [OF refl n [symmetric]] n m later "2.prems"(2) every by auto
    show ?case
    proof (cases "remind_every out \<le> now - reminded_at out")
      case True
      then have "real (Suc (infos lines)) * remind_every out \<le> last (now # map fst ats) - reminded_at out"
        using IH(3) later by (simp add: algebra_simps)
      with True IH later n m show ?thesis by simp
    next
      case False
      then have "reminded_at out' = reminded_at out" "fst line = Debug" using later by auto
      moreover have "reminded_at out \<le> now" using "2.prems"(3) by simp
      ultimately show ?thesis using IH n m by (cases "ats = []") (auto simp: last_map)
    qed
  qed simp
  then show "since (snd (note_all f ats out)) = Some t" "Warning \<notin> fst ` set (fst (note_all f ats out))"
    "real (infos (fst (note_all f ats out))) * remind_every out \<le> last (reminded_at out # map fst ats) - reminded_at out"
    by auto
qed

section \<open>Properties\<close>

text \<open>An outage is logged as a state. Of any run of failed attempts with a clock that does
  not go back, starting with no outage, the first is the one WARNING; at most one INFO line per
  \<open>remind_every\<close> seconds of the outage follows, the rest are DEBUG; and recovery then logs
  exactly one INFO line and ends the outage, after which nothing more is logged.\<close>

theorem outage_logged_as_state:
  assumes "since out = None" "0 < remind_every out"
    and "sorted (now # map fst ats)"
  shows "let (lines, out') = note_all fmt ((now, reason, delay) # ats) out in
     fst (lines ! 0) = Warning
     \<and> Warning \<notin> fst ` set (tl lines)
     \<and> real (infos lines) * remind_every out \<le> last (now # map fst ats) - now
     \<and> map fst (fst (recovered fmt t out')) = [Info]
     \<and> \<not> outage_active (snd (recovered fmt t out'))
     \<and> fst (recovered fmt t' (snd (recovered fmt t out'))) = []"
proof -
  obtain line out1 where n: "outage_note fmt now reason delay out = (line, out1)" by fastforce
  obtain lines out2 where m: "note_all fmt ats out1 = (lines, out2)" by fastforce
  have first: "fst line = Warning" "since out1 = Some now" "reminded_at out1 = now"
    using note_first [OF assms(1), of fmt now reason delay] n by auto
  have every: "remind_every out1 = remind_every out"
    using remind_every_note [of fmt now reason delay out] n by simp
  have "sorted (reminded_at out1 # map fst ats)" using assms(3) first(3) by simp
  from note_all_active [OF first(2) _ this, of fmt] assms(2) every m first(3)
  have "since out2 = Some now" "Warning \<notin> fst ` set lines"
    "real (infos lines) * remind_every out \<le> last (now # map fst ats) - now" by auto
  with n m first show ?thesis by (auto simp: recovered_def outage_active_def)
qed

theorem outage_logged_as_state_witness:
  "let lines = fst (note_all (\<lambda>_. []) [(0, ''gone'', None), (61, ''gone'', None), (130, ''gone'', None)]
      (mk_outage ''link'' 60 ''reached Colca'')) in
     fst (lines ! 0) = Warning \<and> real (infos lines) * 60 \<le> 130"
proof -
  have s: "sorted ((0::real) # map fst [(61, ''gone'', None :: real option), (130, ''gone'', None)])" by simp
  have "since (mk_outage ''link'' 60 ''reached Colca'') = None"
    "0 < remind_every (mk_outage ''link'' 60 ''reached Colca'')"
    "remind_every (mk_outage ''link'' 60 ''reached Colca'') = 60" by (simp_all add: mk_outage_def)
  with outage_logged_as_state [OF this(1,2) s, of "\<lambda>_. []" "''gone''" None 0 0] show ?thesis
    by (simp add: Let_def case_prod_beta del: note_all.simps)
qed

end
