(* ===== verification/Chaski_SourceClock.thy ===== *)
theory Chaski_SourceClock
  imports Chaski_Prelude
begin

text \<open>
  The estimate of a source clock's offset: \<open>src/chaski/source_clock.py\<close>
  (\<open>_Bucket\<close>, \<open>SourceClock\<close>, \<open>SourceClockStatus\<close>). Buckets are keyed by the number of
  the minute, \<open>floor(received_at / bucket)\<close>.
\<close>

definition EARLIEST_PLAUSIBLE :: real where "EARLIEST_PLAUSIBLE = 946684800"

record bucket =
  b_max_skew :: "real option"
  b_measured :: nat
  b_stamped :: nat
  b_unstamped :: nat
  b_invalid :: nat

definition new_bucket :: bucket where
  "new_bucket = \<lparr>b_max_skew = None, b_measured = 0, b_stamped = 0, b_unstamped = 0, b_invalid = 0\<rparr>"

record source_clock =
  sc_live :: bool
  window :: real
  bucket_s :: real
  min_minutes :: nat
  plausible :: real
  buckets :: "(int, bucket) dict"
  last_stamp :: "(string, real) dict"

definition mk_source_clock :: "bool \<Rightarrow> real \<Rightarrow> real \<Rightarrow> int \<Rightarrow> real \<Rightarrow> source_clock outcome" where
  "mk_source_clock lv w b minutes pl =
     (if w \<le> 0 \<or> b \<le> 0 \<or> w < b then Inl ValueError
      else if minutes < 3 then Inl ValueError
      else Inr \<lparr>sc_live = lv, window = w, bucket_s = b, min_minutes = nat minutes, plausible = pl,
                buckets = [], last_stamp = []\<rparr>)"

definition sc_expire :: "real \<Rightarrow> source_clock \<Rightarrow> source_clock" where
  "sc_expire now c =
     (let oldest = \<lfloor>(now - window c) / bucket_s c\<rfloor>
      in c\<lparr>buckets := filter (\<lambda>kb. \<not> fst kb \<le> oldest) (buckets c)\<rparr>)"

definition bucket_key :: "real \<Rightarrow> source_clock \<Rightarrow> int" where
  "bucket_key received_at c = \<lfloor>received_at / bucket_s c\<rfloor>"

text \<open>\<open>_bucket_at\<close> hands back a reference into the dictionary; here it makes sure the
  bucket is there and hands back its value, which \<open>put_bucket\<close> writes back. \<open>_expire\<close> runs
  after the new bucket was entered; a window of at least one bucket never drops that one.\<close>

definition bucket_at :: "real \<Rightarrow> source_clock \<Rightarrow> bucket \<times> source_clock" where
  "bucket_at received_at c =
     (let key = bucket_key received_at c in
      case map_of (buckets c) key of
        Some b \<Rightarrow> (b, c)
      | None \<Rightarrow> (new_bucket, sc_expire received_at (c\<lparr>buckets := AList.update key new_bucket (buckets c)\<rparr>)))"

definition put_bucket :: "real \<Rightarrow> bucket \<Rightarrow> source_clock \<Rightarrow> source_clock" where
  "put_bucket received_at b c = c\<lparr>buckets := AList.update (bucket_key received_at c) b (buckets c)\<rparr>"

fun finite_part :: "fl \<Rightarrow> real option" where
  "finite_part (Fin r) = Some r"
| "finite_part _ = None"

definition observe :: "string \<Rightarrow> fl option \<Rightarrow> real \<Rightarrow> source_clock \<Rightarrow> source_clock" where
  "observe topic source_ts received_at c =
     (let (b, c) = bucket_at received_at c in
      case source_ts of
        None \<Rightarrow> put_bucket received_at (b\<lparr>b_unstamped := b_unstamped b + 1\<rparr>) c
      | Some ts \<Rightarrow>
          let b = b\<lparr>b_stamped := b_stamped b + 1\<rparr>;
              previous = map_of (last_stamp c) topic;
              invalid = b\<lparr>b_invalid := b_invalid b + 1\<rparr>
          in case finite_part ts of
               None \<Rightarrow> put_bucket received_at invalid c
             | Some s \<Rightarrow>
                 if s < EARLIEST_PLAUSIBLE then put_bucket received_at invalid c
                 else
                   let skew = s - received_at;
                       c = c\<lparr>last_stamp := AList.update topic s (last_stamp c)\<rparr>
                   in if plausible c < skew then put_bucket received_at invalid c
                      else if previous = None \<or> previous = Some s then put_bucket received_at b c
                      else if skew < - plausible c then put_bucket received_at invalid c
                      else if \<not> sc_live c then put_bucket received_at b c
                      else
                        let b = b\<lparr>b_measured := b_measured b + 1\<rparr> in
                        put_bucket received_at
                          (case b_max_skew b of
                             None \<Rightarrow> b\<lparr>b_max_skew := Some skew\<rparr>
                           | Some m \<Rightarrow> if m < skew then b\<lparr>b_max_skew := Some skew\<rparr> else b) c)"

definition forget :: "string set \<Rightarrow> source_clock \<Rightarrow> source_clock" where
  "forget keep c = c\<lparr>last_stamp := filter (\<lambda>ts. fst ts \<in> keep) (last_stamp c)\<rparr>"

record source_clock_status =
  skew_s :: "real option"
  jitter_s :: "real option"
  st_stamped :: nat
  st_unstamped :: nat
  st_invalid :: nat
  st_measured :: nat
  st_minutes :: nat
  st_live :: bool
  window_s :: real

definition estimates :: "source_clock \<Rightarrow> real list" where
  "estimates c = sort (List.map_filter (b_max_skew \<circ> snd) (buckets c))"

definition sc_status :: "real \<Rightarrow> source_clock \<Rightarrow> source_clock_status \<times> source_clock" where
  "sc_status now c =
     (let c = sc_expire now c;
          bs = map snd (buckets c);
          es = estimates c;
          kept = butlast (tl es);
          enough = min_minutes c \<le> length es
      in (\<lparr>skew_s = (if enough then Some (last kept) else None),
           jitter_s = (if enough then Some (last kept - kept ! 0) else None),
           st_stamped = sum_list (map b_stamped bs),
           st_unstamped = sum_list (map b_unstamped bs),
           st_invalid = sum_list (map b_invalid bs),
           st_measured = sum_list (map b_measured bs),
           st_minutes = length es,
           st_live = sc_live c,
           window_s = window c\<rparr>, c))"

section \<open>Lemmas\<close>

text \<open>What an observation leaves of the parameters, and the shape of its effect: the
  bucket of its minute is rewritten, others stay or expire.\<close>

lemma observe_frame [simp]:
  "sc_live (observe t s r c) = sc_live c" "window (observe t s r c) = window c"
  "bucket_s (observe t s r c) = bucket_s c" "min_minutes (observe t s r c) = min_minutes c"
  "plausible (observe t s r c) = plausible c"
  by (auto simp: observe_def bucket_at_def put_bucket_def sc_expire_def Let_def
      split: option.splits prod.splits)

text \<open>The largest skew of a bucket is one that was observed in that minute.\<close>

definition skews_from :: "(int \<times> real) set \<Rightarrow> source_clock \<Rightarrow> bool" where
  "skews_from S c \<longleftrightarrow>
     (\<forall>k b m. map_of (buckets c) k = Some b \<longrightarrow> b_max_skew b = Some m \<longrightarrow> (k, m) \<in> S)"

lemma skews_from_put:
  assumes "skews_from S c" "\<And>m. b_max_skew b = Some m \<Longrightarrow> (bucket_key r c, m) \<in> S"
  shows "skews_from S (put_bucket r b c)"
  using assms by (auto simp: skews_from_def put_bucket_def)

lemma skews_from_filter:
  assumes "skews_from S c" shows "skews_from S (c\<lparr>buckets := filter (\<lambda>kb. P (fst kb)) (buckets c)\<rparr>)"
  using assms by (auto simp: skews_from_def map_of_filter_key split: if_splits)

lemma skews_from_expire: "skews_from S c \<Longrightarrow> skews_from S (sc_expire now c)"
  using skews_from_filter [of S c "\<lambda>k. \<not> k \<le> \<lfloor>(now - window c) / bucket_s c\<rfloor>"]
  by (simp add: sc_expire_def Let_def)

lemma skews_from_bucket_at:
  assumes "skews_from S c" "bucket_at r c = (b, c')"
  shows "skews_from S c' \<and> (\<forall>m. b_max_skew b = Some m \<longrightarrow> (bucket_key r c', m) \<in> S)
     \<and> bucket_s c' = bucket_s c \<and> last_stamp c' = last_stamp c \<and> plausible c' = plausible c \<and> sc_live c' = sc_live c"
proof (cases "map_of (buckets c) (bucket_key r c)")
  case None
  have "skews_from S (c\<lparr>buckets := AList.update (bucket_key r c) new_bucket (buckets c)\<rparr>)"
    using skews_from_put [of S c new_bucket r] assms(1) by (simp add: put_bucket_def new_bucket_def)
  from skews_from_expire [OF this, of r] None assms(2) show ?thesis
    by (auto simp: bucket_at_def new_bucket_def sc_expire_def bucket_key_def Let_def)
next
  case (Some b')
  with assms show ?thesis by (auto simp: bucket_at_def Let_def skews_from_def)
qed

lemma skews_from_observe:
  assumes "skews_from S c"
    and "\<And>x. s = Some (Fin x) \<Longrightarrow> sc_live c \<Longrightarrow> (bucket_key r c, x - r) \<in> S"
  shows "skews_from S (observe t s r c)"
proof -
  obtain b c' where b: "bucket_at r c = (b, c')" by fastforce
  from skews_from_bucket_at [OF assms(1) b]
  have c': "skews_from S c'" "bucket_s c' = bucket_s c" "sc_live c' = sc_live c"
    and m: "\<And>m. b_max_skew b = Some m \<Longrightarrow> (bucket_key r c', m) \<in> S" by auto
  have key: "bucket_key r c' = bucket_key r c" using c'(2) by (simp add: bucket_key_def)
  have put: "skews_from S (put_bucket r b' d)"
    if "skews_from S d" "bucket_key r d = bucket_key r c"
      "\<And>m. b_max_skew b' = Some m \<Longrightarrow> (bucket_key r c, m) \<in> S" for b' d
    using that by (intro skews_from_put) simp_all
  have stamp: "skews_from S (c'\<lparr>last_stamp := l\<rparr>)" for l using c'(1) by (simp add: skews_from_def)
  show ?thesis
  proof (cases s)
    case None
    with b c' m key show ?thesis by (auto simp: observe_def intro!: put)
  next
    case (Some ts)
    show ?thesis
    proof (cases ts)
      case (Fin x)
      with b c' m key Some stamp assms(2) [of x] show ?thesis
        by (auto simp: observe_def Let_def bucket_key_def intro!: put split: option.splits)
    qed (use b c' m key Some in \<open>auto simp: observe_def Let_def intro!: put\<close>)
  qed
qed

text \<open>All but the highest estimate are at most \<open>off\<close> when only one bucket is above.\<close>

lemma map_filter_snd_one_above:
  assumes "distinct (map fst d)"
    and "\<And>k b m. (k, b) \<in> set d \<Longrightarrow> f b = Some m \<Longrightarrow> off < m \<Longrightarrow> k = bad"
  shows "length (filter (\<lambda>m. off < m) (List.map_filter (f \<circ> snd) d)) \<le> 1"
  using assms
proof (induction d)
  case (Cons kb d)
  obtain k b where kb: "kb = (k, b)" by fastforce
  show ?case
  proof (cases "\<exists>m. f b = Some m \<and> off < m")
    case True
    then have "k = bad" using Cons.prems(2) kb by auto
    then have no: "\<not> off < m" if "(k', b') \<in> set d" "f b' = Some m" for k' b' m
      using Cons.prems(1) Cons.prems(2) [of k' b' m] that kb by (force simp: image_iff)
    then have "filter (\<lambda>m. off < m) (List.map_filter (f \<circ> snd) d) = []"
      using no by (auto simp: filter_empty_conv List.map_filter_def)
    with True kb show ?thesis by (auto simp: List.map_filter_simps comp_def)
  next
    case False
    with Cons kb show ?thesis by (auto simp: List.map_filter_simps split: option.splits)
  qed
qed (simp add: List.map_filter_simps)

lemma sorted_second_largest:
  fixes xs :: "real list"
  assumes "length (filter (\<lambda>m. off < m) xs) \<le> 1" "3 \<le> length xs" "sorted xs"
  shows "last (butlast (tl xs)) \<le> off"
proof (rule ccontr)
  assume "\<not> last (butlast (tl xs)) \<le> off"
  moreover have eq: "last (butlast (tl xs)) = xs ! (length xs - 2)"
  proof -
    have "butlast (tl xs) \<noteq> []" using assms(2) by (cases xs; cases "tl xs"; cases "tl (tl xs)") auto
    then have "last (butlast (tl xs)) = butlast (tl xs) ! (length xs - 3)"
      by (simp add: last_conv_nth numeral_eq_Suc)
    also have "\<dots> = tl xs ! (length xs - 3)" using assms(2) by (simp add: nth_butlast)
    also have "\<dots> = xs ! Suc (length xs - 3)" using assms(2) by (simp add: nth_tl)
    also have "Suc (length xs - 3) = length xs - 2" using assms(2) by simp
    finally show ?thesis .
  qed
  ultimately have a: "off < xs ! (length xs - 2)" by simp
  also have "xs ! (length xs - 2) \<le> xs ! (length xs - 1)"
    using assms by (intro sorted_nth_mono) auto
  finally have b: "off < xs ! (length xs - 1)" .
  have "{length xs - 2, length xs - 1} \<subseteq> {i. i < length xs \<and> off < xs ! i}"
    using a b assms(2) by auto
  then have "card {length xs - 2, length xs - 1} \<le> card {i. i < length xs \<and> off < xs ! i}"
    by (intro card_mono) auto
  moreover have "card {length xs - 2, length xs - 1} = 2" using assms(2) by simp
  ultimately show False using assms(1) by (simp add: length_filter_conv_card)
qed

text \<open>Bucket keys are distinct and lie in the window that ended at an earlier reading.\<close>

definition clock_inv :: "real \<Rightarrow> source_clock \<Rightarrow> bool" where
  "clock_inv t c \<longleftrightarrow> dict_ok (buckets c) \<and> 0 < bucket_s c \<and> bucket_s c \<le> window c \<and> 3 \<le> min_minutes c
     \<and> (buckets c \<noteq> [] \<longrightarrow> (\<exists>r \<le> t. fst ` set (buckets c) \<subseteq>
           {\<lfloor>(r - window c) / bucket_s c\<rfloor> <.. \<lfloor>r / bucket_s c\<rfloor>}))"

lemma clock_inv_window:
  assumes "clock_inv t c" shows "length (buckets c) \<le> nat \<lceil>window c / bucket_s c\<rceil>"
proof (cases "buckets c = []")
  case False
  with assms obtain r where r: "fst ` set (buckets c) \<subseteq> {\<lfloor>(r - window c) / bucket_s c\<rfloor> <.. \<lfloor>r / bucket_s c\<rfloor>}"
    by (auto simp: clock_inv_def)
  have "length (buckets c) = card (fst ` set (buckets c))"
    using assms distinct_card [of "map fst (buckets c)"] by (simp add: clock_inv_def)
  also have "\<dots> \<le> card {\<lfloor>(r - window c) / bucket_s c\<rfloor> <.. \<lfloor>r / bucket_s c\<rfloor>}"
    using r by (intro card_mono) auto
  also have "\<dots> = nat (\<lfloor>r / bucket_s c\<rfloor> - \<lfloor>(r - window c) / bucket_s c\<rfloor>)" by simp
  also have "\<dots> \<le> nat \<lceil>window c / bucket_s c\<rceil>"
  proof (intro nat_mono)
    let ?x = "r / bucket_s c" and ?w = "window c / bucket_s c"
    have "(r - window c) / bucket_s c = ?x - ?w" by (simp add: diff_divide_distrib)
    moreover have "\<lfloor>?x\<rfloor> - \<lfloor>?x - ?w\<rfloor> \<le> \<lceil>?w\<rceil>" by linarith
    ultimately show "\<lfloor>?x\<rfloor> - \<lfloor>(r - window c) / bucket_s c\<rfloor> \<le> \<lceil>?w\<rceil>" by simp
  qed
  finally show ?thesis .
qed simp

lemma clock_inv_filter:
  assumes "clock_inv t c" "t \<le> t'"
  shows "clock_inv t' (c\<lparr>buckets := filter (\<lambda>kb. P (fst kb)) (buckets c)\<rparr>)"
proof -
  have "fst ` set (filter (\<lambda>kb. P (fst kb)) (buckets c)) \<subseteq> fst ` set (buckets c)" by auto
  moreover have "buckets c \<noteq> []" if "filter (\<lambda>kb. P (fst kb)) (buckets c) \<noteq> []" using that by auto
  ultimately show ?thesis using assms unfolding clock_inv_def
    by (auto simp: distinct_map_filter) (meson order_trans subset_trans)
qed

lemma clock_inv_expire: "clock_inv t c \<Longrightarrow> t \<le> t' \<Longrightarrow> clock_inv t' (sc_expire now c)"
  using clock_inv_filter [of t c t' "\<lambda>k. \<not> k \<le> \<lfloor>(now - window c) / bucket_s c\<rfloor>"]
  by (simp add: sc_expire_def Let_def)

lemma clock_inv_cong:
  "clock_inv t c \<Longrightarrow> buckets c' = buckets c \<Longrightarrow> bucket_s c' = bucket_s c \<Longrightarrow> window c' = window c \<Longrightarrow>
     min_minutes c' = min_minutes c \<Longrightarrow> clock_inv t c'"
  by (simp add: clock_inv_def)

lemma bucket_at_inv:
  assumes "clock_inv t c" "t \<le> r" "bucket_at r c = (b, c')"
  shows "clock_inv r c' \<and> bucket_s c' = bucket_s c \<and> window c' = window c
     \<and> bucket_key r c \<in> fst ` set (buckets c')"
proof (cases "map_of (buckets c) (bucket_key r c)")
  case (Some b')
  then have "bucket_key r c \<in> fst ` set (buckets c)" by (force dest: map_of_SomeD)
  moreover have "clock_inv r c" using assms(1,2) unfolding clock_inv_def by (meson order_trans)
  ultimately show ?thesis using Some assms(3) by (auto simp: bucket_at_def Let_def)
next
  case None
  let ?k = "bucket_key r c" and ?o = "\<lfloor>(r - window c) / bucket_s c\<rfloor>"
  have pos: "0 < bucket_s c" "bucket_s c \<le> window c" using assms(1) by (auto simp: clock_inv_def)
  have "(r - window c) / bucket_s c \<le> r / bucket_s c - 1"
    using pos by (simp add: diff_divide_distrib)
  then have o: "?o < ?k" by (simp add: bucket_key_def) linarith
  have mono: "\<lfloor>q / bucket_s c\<rfloor> \<le> ?k" if "q \<le> t" for q
    using that assms(2) pos(1) by (auto simp: bucket_key_def intro!: floor_mono divide_right_mono)
  have bs: "buckets c' = filter (\<lambda>kb. \<not> fst kb \<le> ?o) (AList.update ?k new_bucket (buckets c))"
    "bucket_s c' = bucket_s c" "window c' = window c" "min_minutes c' = min_minutes c"
    using None assms(3) by (auto simp: bucket_at_def sc_expire_def Let_def)
  have keys: "fst ` set (AList.update ?k new_bucket (buckets c)) = insert ?k (fst ` set (buckets c))"
    using dom_update [of ?k new_bucket "buckets c"] by simp
  have "k \<le> ?k" if "k \<in> fst ` set (AList.update ?k new_bucket (buckets c))" for k
  proof (cases "k = ?k")
    case False
    then have k: "k \<in> fst ` set (buckets c)" using that keys by simp
    then have "buckets c \<noteq> []" by auto
    with assms(1) obtain q where "q \<le> t" "fst ` set (buckets c) \<subseteq> {\<lfloor>(q - window c) / bucket_s c\<rfloor> <.. \<lfloor>q / bucket_s c\<rfloor>}"
      unfolding clock_inv_def by blast
    with k mono [of q] show ?thesis by auto
  qed simp
  then have sub: "fst ` set (buckets c') \<subseteq> {?o <.. ?k}" by (force simp: bs(1))
  have "?k \<in> fst ` set (buckets c')"
  proof -
    have "?k \<in> fst ` set (AList.update ?k new_bucket (buckets c))" using keys by simp
    with o show ?thesis by (force simp: bs(1))
  qed
  moreover have "dict_ok (buckets c')"
    using assms(1) by (auto simp: bs(1) clock_inv_def intro!: dict_ok_filter dict_ok_update)
  moreover have "\<exists>q \<le> r. fst ` set (buckets c') \<subseteq> {\<lfloor>(q - window c) / bucket_s c\<rfloor> <.. \<lfloor>q / bucket_s c\<rfloor>}"
    using sub by (intro exI [of _ r]) (simp add: bucket_key_def)
  ultimately show ?thesis using assms(1) bs(2-4) by (simp add: clock_inv_def)
qed

lemma clock_inv_put:
  assumes "clock_inv t c" "bucket_key r c \<in> fst ` set (buckets c)"
  shows "clock_inv t (put_bucket r b c)"
proof -
  have "fst ` set (AList.update (bucket_key r c) b (buckets c)) = fst ` set (buckets c)"
    using dom_update [of "bucket_key r c" b "buckets c"] assms(2) by auto
  moreover have "buckets c \<noteq> []" using assms(2) by auto
  ultimately show ?thesis using assms(1) by (auto simp: clock_inv_def put_bucket_def dict_ok_update)
qed

lemma clock_inv_observe:
  assumes "clock_inv t c" "t \<le> r" shows "clock_inv r (observe tp s r c)"
proof -
  obtain b c' where b: "bucket_at r c = (b, c')" by fastforce
  from bucket_at_inv [OF assms b] have c': "clock_inv r c'" "bucket_key r c' \<in> fst ` set (buckets c')"
    by (auto simp: bucket_key_def)
  have put: "clock_inv r (put_bucket r b' c')" for b' using c' by (rule clock_inv_put)
  have put_stamp: "clock_inv r (put_bucket r b' (c'\<lparr>last_stamp := l\<rparr>))" for b' l
  proof (rule clock_inv_put)
    show "clock_inv r (c'\<lparr>last_stamp := l\<rparr>)" by (rule clock_inv_cong [OF c'(1)]) simp_all
  qed (use c'(2) in \<open>simp add: bucket_key_def\<close>)
  show ?thesis unfolding observe_def b
    by (simp add: Let_def put put_stamp split: option.split)
qed

lemma dict_ok_put: "dict_ok (buckets c) \<Longrightarrow> dict_ok (buckets (put_bucket r b c))"
  by (simp add: put_bucket_def dict_ok_update)

lemma dict_ok_bucket_at: "dict_ok (buckets c) \<Longrightarrow> dict_ok (buckets (snd (bucket_at r c)))"
  by (simp add: bucket_at_def sc_expire_def Let_def dict_ok_filter dict_ok_update split: option.split)

lemma dict_ok_observe:
  assumes "dict_ok (buckets c)" shows "dict_ok (buckets (observe t s r c))"
proof -
  obtain b c' where b: "bucket_at r c = (b, c')" by fastforce
  have "dict_ok (buckets c')" using dict_ok_bucket_at [OF assms, of r] b by simp
  then have "dict_ok (buckets (put_bucket r b' c'))"
    "dict_ok (buckets (put_bucket r b' (c'\<lparr>last_stamp := l\<rparr>)))" for b' l
    using dict_ok_put [of "c'\<lparr>last_stamp := l\<rparr>" r b'] by (simp_all add: dict_ok_put)
  then show ?thesis unfolding observe_def b by (simp add: Let_def split: option.split)
qed

abbreviation observing :: "(string \<times> fl option \<times> real) list \<Rightarrow> source_clock \<Rightarrow> source_clock" where
  "observing obs c \<equiv> fold (\<lambda>(t, s, r). observe t s r) obs c"

lemma observing_frame [simp]:
  "sc_live (observing obs c) = sc_live c" "window (observing obs c) = window c"
  "bucket_s (observing obs c) = bucket_s c" "min_minutes (observing obs c) = min_minutes c"
  by (induction obs arbitrary: c) auto

lemma dict_ok_observing: "dict_ok (buckets c) \<Longrightarrow> dict_ok (buckets (observing obs c))"
  by (induction obs arbitrary: c) (auto simp: dict_ok_observe)

text \<open>Every skew kept is one that a live observation of its minute showed.\<close>

lemma skews_from_observing:
  assumes "skews_from S c"
    and "\<And>t x r. (t, Some (Fin x), r) \<in> set obs \<Longrightarrow> sc_live c \<Longrightarrow> (\<lfloor>r / bucket_s c\<rfloor>, x - r) \<in> S"
  shows "skews_from S (observing obs c)"
  using assms
proof (induction obs arbitrary: c)
  case (Cons o' obs)
  obtain t s r where o': "o' = (t, s, r)" by (cases o') auto
  have "skews_from S (observe t s r c)"
    using Cons.prems o' by (intro skews_from_observe) (auto simp: bucket_key_def)
  moreover have "(\<lfloor>r' / bucket_s (observe t s r c)\<rfloor>, x - r') \<in> S"
    if "(t', Some (Fin x), r') \<in> set obs" "sc_live (observe t s r c)" for t' x r'
    using Cons.prems(2) [of t' x r'] that by simp
  ultimately have "skews_from S (observing obs (observe t s r c))" by (rule Cons.IH)
  with o' show ?case by simp
qed simp

lemma clock_inv_observing:
  "clock_inv t c \<Longrightarrow> sorted (t # map (\<lambda>(t, s, r). r) obs) \<Longrightarrow>
     clock_inv (last (t # map (\<lambda>(t, s, r). r) obs)) (observing obs c)"
proof (induction obs arbitrary: c t)
  case (Cons o' obs)
  obtain tp s r where o': "o' = (tp, s, r)" by (cases o') auto
  with Cons have "clock_inv r (observe tp s r c)" by (auto intro: clock_inv_observe)
  with Cons o' show ?case by (cases "obs = []") (auto simp: last_map)
qed simp

lemma mk_source_clock_Inr:
  "mk_source_clock lv w b minutes pl = Inr c \<longleftrightarrow>
     0 < b \<and> b \<le> w \<and> 3 \<le> minutes \<and>
     c = \<lparr>sc_live = lv, window = w, bucket_s = b, min_minutes = nat minutes, plausible = pl,
          buckets = [], last_stamp = []\<rparr>"
  by (auto simp: mk_source_clock_def)

lemma estimates_set: "m \<in> set (estimates c) \<longleftrightarrow> (\<exists>k b. (k, b) \<in> set (buckets c) \<and> b_max_skew b = Some m)"
  by (force simp: estimates_def List.map_filter_def image_iff)

section \<open>Properties\<close>

text \<open>C6: The estimate is never too high, and one bad minute does not move it. Let \<open>off\<close> be the
  source's true offset; if every timestamp is at most \<open>off\<close> ahead of its receive time (the delay
  is not negative) except those received in one minute \<open>bad\<close>, then the skew reported after any run
  is at most \<open>off\<close>, the jitter is not negative, and an estimate needs at least three measured
  minutes and a live driver.\<close>

theorem source_clock_never_too_high:
  assumes "mk_source_clock lv w b minutes pl = Inr c0"
    and "\<forall>(t, s, r) \<in> set obs. \<forall>x. s = Some (Fin x) \<longrightarrow> off < x - r \<longrightarrow> \<lfloor>r / b\<rfloor> = bad"
  shows "let st = fst (sc_status now (observing obs c0)) in
     (\<forall>k. skew_s st = Some k \<longrightarrow> k \<le> off \<and> lv \<and> 3 \<le> st_minutes st)
     \<and> (\<forall>j. jitter_s st = Some j \<longrightarrow> 0 \<le> j)
     \<and> (skew_s st = None \<longleftrightarrow> jitter_s st = None)"
proof -
  from assms(1) have c0: "buckets c0 = []" "bucket_s c0 = b" "3 \<le> min_minutes c0" "sc_live c0 = lv"
    by (auto simp: mk_source_clock_Inr)
  let ?S = "{(k, m). (off < m \<longrightarrow> k = bad) \<and> lv}"
  let ?c = "sc_expire now (observing obs c0)"
  have "skews_from ?S (observing obs c0)"
  proof (rule skews_from_observing)
    show "skews_from ?S c0" using c0(1) by (simp add: skews_from_def)
    show "(\<lfloor>r / bucket_s c0\<rfloor>, x - r) \<in> ?S" if "(t, Some (Fin x), r) \<in> set obs" "sc_live c0" for t x r
      using bspec [OF assms(2) that(1)] that(2) c0 by simp
  qed
  then have from': "skews_from ?S ?c" by (rule skews_from_expire)
  have ok: "dict_ok (buckets ?c)"
    using dict_ok_observing [of c0 obs] c0(1) by (simp add: sc_expire_def Let_def dict_ok_filter)
  have S: "(k, m) \<in> ?S" if "(k, bk) \<in> set (buckets ?c)" "b_max_skew bk = Some m" for k bk m
    using from' that ok unfolding skews_from_def by (metis map_of_is_SomeI)
  let ?es = "estimates ?c"
  have "length (filter (\<lambda>m. off < m) ?es) \<le> 1"
    using map_filter_snd_one_above [OF ok, of b_max_skew off bad] S
    by (simp add: estimates_def filter_sort)
  moreover have srt: "sorted ?es" by (simp add: estimates_def)
  ultimately have skew: "last (butlast (tl ?es)) \<le> off" if "3 \<le> length ?es"
    using that by (intro sorted_second_largest)
  have live: lv if "3 \<le> length ?es"
  proof -
    from that obtain m where "m \<in> set ?es" by (cases ?es) auto
    with S show lv by (auto simp: estimates_set)
  qed
  have "butlast (tl ?es) ! 0 \<le> last (butlast (tl ?es))" if "3 \<le> length ?es"
  proof -
    have len: "length (butlast (tl ?es)) = length ?es - 2" by simp
    then have "0 < length (butlast (tl ?es))" using that by linarith
    then have ne: "butlast (tl ?es) \<noteq> []" by (rule length_greater_0_conv [THEN iffD1])
    have "sorted (butlast (tl ?es))"
      using srt by (simp only: butlast_conv_take sorted_tl sorted_wrt_take)
    then have "butlast (tl ?es) ! 0 \<le> butlast (tl ?es) ! (length (butlast (tl ?es)) - 1)"
      by (rule sorted_nth_mono) (use that len in linarith)+
    then show ?thesis by (simp only: last_conv_nth [OF ne])
  qed
  moreover have "min_minutes ?c = min_minutes c0" by (simp add: sc_expire_def Let_def)
  ultimately show ?thesis using skew live c0(3) by (auto simp: sc_status_def Let_def)
qed

definition example_clock :: source_clock where
  "example_clock = \<lparr>sc_live = True, window = 900, bucket_s = 60, min_minutes = 3, plausible = 86400, buckets = [], last_stamp = []\<rparr>"

text \<open>A source whose clock is right: its stamps arrive 1 s and 2 s late, and one of them is 5 s ahead. The first is not measured.\<close>

definition example_stamps :: "(string \<times> fl option \<times> real) list" where
  "example_stamps = [(''t'', Some (Fin 999999999), 1000000000), (''t'', Some (Fin 1000000019), 1000000020),
     (''t'', Some (Fin 1000000078), 1000000080), (''t'', Some (Fin 1000000145), 1000000140)]"

lemma example_minutes:
  "map (\<lambda>(k, b). (k, b_max_skew b)) (buckets (observing example_stamps example_clock))
     = [(16666666, None), (16666667, Some (- 1)), (16666668, Some (- 2)), (16666669, Some 5)]"
proof -
  have k: "\<lfloor>1000000000 / 60 :: real\<rfloor> = 16666666" "\<lfloor>1000000020 / 60 :: real\<rfloor> = 16666667" "\<lfloor>1000000080 / 60 :: real\<rfloor> = 16666668"
    "\<lfloor>1000000140 / 60 :: real\<rfloor> = 16666669" by simp_all
  show ?thesis
    by (simp add: example_stamps_def example_clock_def observe_def bucket_at_def put_bucket_def bucket_key_def
        sc_expire_def new_bucket_def EARLIEST_PLAUSIBLE_def Let_def k)
qed

theorem source_clock_never_too_high_witness:
  "let st = fst (sc_status 1000000200 (observing example_stamps example_clock)) in
     skew_s st = Some (- 1) \<and> - 1 \<le> (0 :: real) \<and> 3 \<le> st_minutes st \<and> jitter_s st \<noteq> None"
proof -
  have ok: "mk_source_clock True 900 60 3 86400 = Inr example_clock"
    by (simp add: mk_source_clock_def example_clock_def)
  have delay: "\<forall>(t, s, r) \<in> set example_stamps. \<forall>x. s = Some (Fin x) \<longrightarrow> (0::real) < x - r \<longrightarrow> \<lfloor>r / 60\<rfloor> = 16666669"
    by (simp add: example_stamps_def)
  note high = source_clock_never_too_high [OF ok delay, of 1000000200]
  have "skew_s (fst (sc_status 1000000200 (observing example_stamps example_clock))) = Some (- 1)"
  proof -
    let ?c = "observing example_stamps example_clock"
    let ?bs = "buckets ?c"
    have old: "\<lfloor>(1000000200 - 900) / 60 :: real\<rfloor> = 16666655" by simp
    have keys: "map fst ?bs = map fst (map (\<lambda>(k, b). (k, b_max_skew b)) ?bs)" "map (b_max_skew \<circ> snd) ?bs = map snd (map (\<lambda>(k, b). (k, b_max_skew b)) ?bs)"
      by auto
    have minutes: "set (map fst ?bs) = {16666666, 16666667, 16666668, 16666669}" unfolding keys(1) example_minutes by simp
    have "\<forall>kb \<in> set ?bs. \<not> fst kb \<le> 16666655"
    proof
      fix kb assume "kb \<in> set ?bs"
      then have "fst kb \<in> set (map fst ?bs)" by simp
      then show "\<not> fst kb \<le> 16666655" unfolding minutes by auto
    qed
    then have kept: "buckets (sc_expire 1000000200 ?c) = ?bs"
      by (simp add: sc_expire_def Let_def old example_clock_def)
    have options: "List.map_filter f xs = List.map_filter id (map f xs)" for f :: "int \<times> bucket \<Rightarrow> real option" and xs
      by (induction xs) (simp_all add: List.map_filter_simps split: option.split)
    have "List.map_filter (b_max_skew \<circ> snd) ?bs = [- 1, - 2, 5]"
      unfolding options [of "b_max_skew \<circ> snd"] keys(2) example_minutes by (simp add: List.map_filter_simps)
    then have "estimates (sc_expire 1000000200 ?c) = [- 2, - 1, 5]" by (simp add: estimates_def kept)
    then show ?thesis by (simp add: sc_status_def Let_def sc_expire_def example_clock_def)
  qed
  then show ?thesis using high by (auto simp: Let_def)
qed

text \<open>Memory is bounded whatever the reading rate: with receive times that do not go back, a
  source clock never holds more buckets than \<open>window / bucket\<close> rounded up (15 with the defaults),
  and there is at most one per minute.\<close>

theorem source_clock_bounded:
  assumes "mk_source_clock lv w b minutes pl = Inr c0"
    and "sorted (map (\<lambda>(t, s, r). r) obs)"
  shows "length (buckets (observing obs c0)) \<le> nat \<lceil>w / b\<rceil> \<and> dict_ok (buckets (observing obs c0))"
proof (cases obs)
  case Nil
  with assms(1) show ?thesis by (simp add: mk_source_clock_Inr)
next
  case (Cons o' obs')
  let ?t = "(\<lambda>(t, s, r). r) o'"
  have "clock_inv ?t c0" using assms(1) by (auto simp: clock_inv_def mk_source_clock_Inr)
  moreover have "sorted (?t # map (\<lambda>(t, s, r). r) obs)" using assms(2) Cons by auto
  ultimately have "clock_inv (last (?t # map (\<lambda>(t, s, r). r) obs)) (observing obs c0)"
    by (rule clock_inv_observing)
  from clock_inv_window [OF this] this assms(1) show ?thesis
    by (auto simp: mk_source_clock_Inr clock_inv_def)
qed

theorem source_clock_bounded_witness:
  "length (buckets (observing [(''t'', None, 0), (''t'', None, 70)]
     \<lparr>sc_live = True, window = 900, bucket_s = 60, min_minutes = 3, plausible = 86400,
      buckets = [], last_stamp = []\<rparr>)) \<le> 15"
proof -
  have ok: "mk_source_clock True 900 60 3 86400 = Inr \<lparr>sc_live = True, window = 900, bucket_s = 60,
      min_minutes = 3, plausible = 86400, buckets = [], last_stamp = []\<rparr>"
    by (simp add: mk_source_clock_def)
  have "sorted (map (\<lambda>(t, s, r). r) [(''t'', None :: fl option, 0 :: real), (''t'', None, 70)])" by simp
  from source_clock_bounded [OF ok this] show ?thesis by simp
qed

end
