(* ===== verification/Chaski_Buffer.thy ===== *)
theory Chaski_Buffer
  imports Chaski_Prelude
begin

text \<open>
  The SQLite buffer of a DataOps service: \<open>src/chaski/dataops/buffer.py\<close>. A \<open>db\<close> holds
  the tables by primary key, rows in insertion order; \<open>work\<close> is what the connection reads
  (uncommitted changes included), \<open>disk\<close> what a crash leaves, \<open>deferred\<close> the nesting of
  \<open>one_commit\<close>. \<open>json.loads (json.dumps v)\<close> is \<open>v\<close> for the JSON values the tables keep, so
  columns hold \<open>json\<close>; \<open>allow_nan=False\<close> is the \<open>ValueError\<close> branch.
\<close>

section \<open>Tables\<close>

record checkpoint =
  cp_code_hash :: string
  cp_version :: int
  cp_state :: json
  cp_positions :: json

record backfill_job =
  j_start :: real
  j_end :: "real option"
  j_position :: real
  j_windows :: nat
  j_code_hash :: string
  j_done :: bool
  j_created_at :: real
  j_window :: "real option"

record db =
  db_checkpoints :: "(string, checkpoint) dict"
  db_pending :: "(string \<times> real, json) dict"
  db_points :: "(string \<times> real, json) dict"
  db_watermarks :: "(string, real \<times> string) dict"
  db_ledger :: "(string, real \<times> json option) dict"
  db_jobs :: "(string \<times> string, backfill_job) dict"
  db_generation :: "string option"
  db_gap :: "int option"
  db_annotations :: "(string \<times> string, real) dict"

record buffer =
  work :: db
  disk :: db
  deferred :: nat

definition empty_db :: db where
  "empty_db = \<lparr>db_checkpoints = [], db_pending = [], db_points = [], db_watermarks = [], db_ledger = [],
     db_jobs = [], db_generation = None, db_gap = None, db_annotations = []\<rparr>"

definition edit :: "(db \<Rightarrow> db) \<Rightarrow> buffer \<Rightarrow> buffer" where
  "edit f b = b\<lparr>work := f (work b)\<rparr>"

definition commit :: "buffer \<Rightarrow> buffer" where
  "commit b = b\<lparr>disk := work b\<rparr>"

text \<open>\<open>if not self._deferred: self._conn.commit()\<close>.\<close>

definition settle :: "buffer \<Rightarrow> buffer" where
  "settle b = (if deferred b = 0 then commit b else b)"

text \<open>\<open>with self._conn\<close> rolls the open transaction back when its body raises.\<close>

definition rollback :: "buffer \<Rightarrow> buffer" where
  "rollback b = b\<lparr>work := disk b\<rparr>"

text \<open>The process dies and the file is opened again.\<close>

definition crash :: "buffer \<Rightarrow> buffer" where
  "crash b = b\<lparr>work := disk b, deferred := 0\<rparr>"

section \<open>Opening\<close>

text \<open>\<open>_upgrade\<close> drops the clock watermarks of old releases (the dropped tables are not
  modelled); \<open>fresh\<close> is the ULID minted when the file has no generation.\<close>

definition upgrade :: "db \<Rightarrow> db" where
  "upgrade d = d\<lparr>db_watermarks := filter (\<lambda>w. take 10 (fst w) \<noteq> ''__clock__:'') (db_watermarks d)\<rparr>"

definition load_or_mint_generation :: "string \<Rightarrow> buffer \<Rightarrow> string \<times> buffer" where
  "load_or_mint_generation fresh b =
     (case db_generation (work b) of
        Some g \<Rightarrow> (g, b)
      | None \<Rightarrow> (fresh, commit (edit (\<lambda>d. d\<lparr>db_generation := Some fresh\<rparr>) b)))"

definition open_buffer :: "string \<Rightarrow> db \<Rightarrow> string \<times> buffer" where
  "open_buffer fresh file =
     load_or_mint_generation fresh (commit (edit upgrade \<lparr>work = file, disk = file, deferred = 0\<rparr>))"

section \<open>Checkpoints and the outbox of unbound samples\<close>

definition checkpoint_of :: "string \<Rightarrow> buffer \<Rightarrow> checkpoint option" where
  "checkpoint_of producer b = map_of (db_checkpoints (work b)) producer"

definition save_checkpoint :: "string \<Rightarrow> string \<Rightarrow> int \<Rightarrow> json \<Rightarrow> json \<Rightarrow> buffer \<Rightarrow> buffer outcome" where
  "save_checkpoint producer code_hash version state positions b =
     (if has_non_finite state \<or> has_non_finite positions then Inl ValueError
      else Inr (settle (edit (\<lambda>d. d\<lparr>db_checkpoints := replace_row producer
        \<lparr>cp_code_hash = code_hash, cp_version = version, cp_state = state, cp_positions = positions\<rparr>
        (db_checkpoints d)\<rparr>) b)))"

definition rows_of :: "'s \<Rightarrow> (('s \<times> 'k) \<times> 'v) list \<Rightarrow> (('s \<times> 'k) \<times> 'v) list" where
  "rows_of source = filter (\<lambda>r. fst (fst r) = source)"

text \<open>A raised \<open>BufferError\<close> leaves the \<open>with self._conn\<close> block through its rollback, so the
  state after the error is part of the result.\<close>

definition queue_output :: "nat \<Rightarrow> string \<Rightarrow> real \<Rightarrow> json \<Rightarrow> buffer \<Rightarrow> unit outcome \<times> buffer" where
  "queue_output limit source ts v b =
     (if has_non_finite v then (Inl ValueError, b)
      else if map_of (db_pending (work b)) (source, ts) = None
           \<and> limit \<le> length (rows_of source (db_pending (work b))) then (Inl BufferFull, rollback b)
      else (Inr (), commit (edit (\<lambda>d. d\<lparr>db_pending := AList.update (source, ts) v (db_pending d)\<rparr>) b)))"

definition pending_outputs :: "nat \<Rightarrow> string \<Rightarrow> buffer \<Rightarrow> (real \<times> json) list" where
  "pending_outputs limit source b =
     take limit (sort_key fst (map (\<lambda>((s, ts), v). (ts, v)) (rows_of source (db_pending (work b)))))"

definition outputs_sent :: "string \<Rightarrow> real list \<Rightarrow> buffer \<Rightarrow> buffer" where
  "outputs_sent source tss b =
     commit (edit (\<lambda>d. d\<lparr>db_pending := fold (\<lambda>ts. AList.delete (source, ts)) tss (db_pending d)\<rparr>) b)"

section \<open>Accepted gaps\<close>

definition accepted_gap :: "buffer \<Rightarrow> int" where
  "accepted_gap b = (case db_gap (work b) of Some n \<Rightarrow> n | None \<Rightarrow> 0)"

definition accept_gap :: "int \<Rightarrow> buffer \<Rightarrow> buffer" where
  "accept_gap through b =
     commit (edit (\<lambda>d. d\<lparr>db_gap := Some (max through (accepted_gap b))\<rparr>) b)"

section \<open>Points\<close>

definition append :: "string \<Rightarrow> real \<Rightarrow> json \<Rightarrow> buffer \<Rightarrow> buffer" where
  "append sid ts v b = settle (edit (\<lambda>d. d\<lparr>db_points := replace_row (sid, ts) v (db_points d)\<rparr>) b)"

definition append_many :: "(string \<times> real \<times> json) list \<Rightarrow> buffer \<Rightarrow> buffer" where
  "append_many ps b =
     (if ps = [] then b
      else settle (edit (\<lambda>d. d\<lparr>db_points := fold (\<lambda>(sid, ts, v). replace_row (sid, ts) v) ps (db_points d)\<rparr>) b))"

definition signal_points :: "string \<Rightarrow> buffer \<Rightarrow> (real \<times> json) list" where
  "signal_points sid b =
     sort_key fst (map (\<lambda>((s, ts), v). (ts, v)) (rows_of sid (db_points (work b))))"

definition points :: "string \<Rightarrow> real \<Rightarrow> real \<Rightarrow> buffer \<Rightarrow> (real \<times> json) list" where
  "points sid start until b = filter (\<lambda>p. start \<le> fst p \<and> fst p < until) (signal_points sid b)"

definition latest_before :: "string \<Rightarrow> real \<Rightarrow> buffer \<Rightarrow> (real \<times> json) option" where
  "latest_before sid before b =
     (let rows = filter (\<lambda>p. fst p \<le> before) (signal_points sid b)
      in if rows = [] then None else Some (last rows))"

definition earliest :: "string \<Rightarrow> buffer \<Rightarrow> real option" where
  "earliest sid b = map_option fst (List.find (\<lambda>_. True) (signal_points sid b))"

definition next_point :: "string \<Rightarrow> real \<Rightarrow> buffer \<Rightarrow> real option" where
  "next_point sid since b = map_option fst (List.find (\<lambda>p. since \<le> fst p) (signal_points sid b))"

definition latest :: "string \<Rightarrow> buffer \<Rightarrow> real option" where
  "latest sid b = (if signal_points sid b = [] then None else Some (fst (last (signal_points sid b))))"

section \<open>Trim\<close>

definition TRIM_CHUNK :: nat where "TRIM_CHUNK = 5000"

definition trim_doomed :: "nat \<Rightarrow> string \<Rightarrow> real \<Rightarrow> db \<Rightarrow> (string \<times> real) list" where
  "trim_doomed chunk sid anchor d =
     take chunk (map fst (filter (\<lambda>r. snd (fst r) < anchor) (rows_of sid (db_points d))))"

text \<open>One \<open>DELETE ... LIMIT\<close> statement; gives the number of rows deleted.\<close>

definition trim_statement :: "nat \<Rightarrow> string \<Rightarrow> real \<Rightarrow> buffer \<Rightarrow> nat \<times> buffer" where
  "trim_statement chunk sid anchor b =
     (let doomed = trim_doomed chunk sid anchor (work b)
      in (length doomed,
          settle (edit (\<lambda>d. d\<lparr>db_points := filter (\<lambda>r. fst r \<notin> set doomed) (db_points d)\<rparr>) b)))"

text \<open>The \<open>while True\<close> loop; \<open>None\<close> is not returning (which a chunk of 0 does).\<close>

partial_function (option) trim_loop :: "nat \<Rightarrow> string \<Rightarrow> real \<Rightarrow> buffer \<Rightarrow> (nat \<times> buffer) option" where
  "trim_loop chunk sid anchor b =
     (let s = trim_statement chunk sid anchor b in
      if fst s < chunk then Some s
      else Option.bind (trim_loop chunk sid anchor (snd s)) (\<lambda>r. Some (fst s + fst r, snd r)))"

definition trim_anchor :: "string \<Rightarrow> real \<Rightarrow> buffer \<Rightarrow> real option" where
  "trim_anchor sid cutoff b =
     (let rows = filter (\<lambda>p. fst p < cutoff) (signal_points sid b)
      in if rows = [] then None else Some (fst (last rows)))"

fun trim :: "real \<Rightarrow> nat \<Rightarrow> (string \<times> real) list \<Rightarrow> buffer \<Rightarrow> (nat \<times> buffer) option" where
  "trim now chunk [] b = Some (0, b)"
| "trim now chunk ((sid, horizon) # hs) b =
     (case trim_anchor sid (now - horizon) b of
        None \<Rightarrow> trim now chunk hs b
      | Some anchor \<Rightarrow>
          Option.bind (trim_loop chunk sid anchor b) (\<lambda>(n, b').
          Option.bind (trim now chunk hs b') (\<lambda>(m, b''). Some (n + m, b''))))"

section \<open>Command ledger\<close>

definition command_entry :: "string \<Rightarrow> buffer \<Rightarrow> bool \<times> json option" where
  "command_entry cid b =
     (case map_of (db_ledger (work b)) cid of None \<Rightarrow> (False, None) | Some (_, answer) \<Rightarrow> (True, answer))"

definition command_started :: "real \<Rightarrow> real \<Rightarrow> string \<Rightarrow> buffer \<Rightarrow> buffer" where
  "command_started now keep_s cid b =
     commit (edit (\<lambda>d. d\<lparr>db_ledger :=
        insert_row cid (now, None) (filter (\<lambda>r. \<not> fst (snd r) < now - keep_s) (db_ledger d))\<rparr>) b)"

definition command_answered :: "real \<Rightarrow> string \<Rightarrow> json \<Rightarrow> buffer \<Rightarrow> buffer" where
  "command_answered now cid answer b =
     commit (edit (\<lambda>d. d\<lparr>db_ledger :=
        (case map_of (db_ledger d) cid of
           None \<Rightarrow> db_ledger d @ [(cid, (now, Some answer))]
         | Some (started, _) \<Rightarrow> AList.update cid (started, Some answer) (db_ledger d))\<rparr>) b)"

section \<open>One commit for a block\<close>

definition enter_one_commit :: "buffer \<Rightarrow> buffer" where
  "enter_one_commit b = b\<lparr>deferred := deferred b + 1\<rparr>"

definition leave_one_commit :: "buffer \<Rightarrow> buffer" where
  "leave_one_commit b = settle (b\<lparr>deferred := deferred b - 1\<rparr>)"

section \<open>Watermarks and annotations\<close>

definition watermark :: "string \<Rightarrow> buffer \<Rightarrow> real option" where
  "watermark producer b = map_option fst (map_of (db_watermarks (work b)) producer)"

definition buf_code_hash :: "string \<Rightarrow> buffer \<Rightarrow> string option" where
  "buf_code_hash producer b = map_option snd (map_of (db_watermarks (work b)) producer)"

definition set_watermark :: "string \<Rightarrow> real \<Rightarrow> string \<Rightarrow> buffer \<Rightarrow> buffer" where
  "set_watermark producer position code b =
     commit (edit (\<lambda>d. d\<lparr>db_watermarks := AList.update producer (position, code) (db_watermarks d)\<rparr>) b)"

definition record_emitted_annotation :: "string \<Rightarrow> string \<Rightarrow> real \<Rightarrow> buffer \<Rightarrow> buffer" where
  "record_emitted_annotation source aid time_start b =
     settle (edit (\<lambda>d. d\<lparr>db_annotations := replace_row (source, aid) time_start (db_annotations d)\<rparr>) b)"

definition emitted_annotations_in_window :: "string \<Rightarrow> real \<Rightarrow> real \<Rightarrow> buffer \<Rightarrow> (string \<times> real) list" where
  "emitted_annotations_in_window source start until b =
     sort_key snd (filter (\<lambda>a. start \<le> snd a \<and> snd a < until)
       (map (\<lambda>((s, aid), t). (aid, t)) (rows_of source (db_annotations (work b)))))"

section \<open>Backfill jobs\<close>

definition backfill_jobs :: "bool \<Rightarrow> buffer \<Rightarrow> ((string \<times> string) \<times> backfill_job) list" where
  "backfill_jobs pending_only b =
     sort_key (j_created_at \<circ> snd) (sort_key fst
       (filter (\<lambda>j. \<not> j_done (snd j) \<or> \<not> pending_only) (db_jobs (work b))))"

definition backfill_job_of :: "string \<Rightarrow> string \<Rightarrow> buffer \<Rightarrow> backfill_job option" where
  "backfill_job_of producer job b =
     map_option snd (List.find (\<lambda>j. fst j = (producer, job)) (backfill_jobs False b))"

definition add_backfill_job :: "string \<Rightarrow> string \<Rightarrow> real \<Rightarrow> real option \<Rightarrow> string \<Rightarrow> real \<Rightarrow> real option
    \<Rightarrow> buffer \<Rightarrow> bool \<times> buffer" where
  "add_backfill_job producer job start until code created_at window b =
     (map_of (db_jobs (work b)) (producer, job) = None,
      commit (edit (\<lambda>d. d\<lparr>db_jobs := insert_row (producer, job)
        \<lparr>j_start = start, j_end = until, j_position = start, j_windows = 0, j_code_hash = code,
         j_done = False, j_created_at = created_at, j_window = window\<rparr> (db_jobs d)\<rparr>) b))"

definition restart_backfill :: "string \<Rightarrow> string \<Rightarrow> real \<Rightarrow> string \<Rightarrow> real \<Rightarrow> buffer \<Rightarrow> buffer" where
  "restart_backfill producer job start code created_at b =
     commit (edit (\<lambda>d. d\<lparr>db_jobs := replace_row (producer, job)
        \<lparr>j_start = start, j_end = None, j_position = start, j_windows = 0, j_code_hash = code,
         j_done = False, j_created_at = created_at, j_window = None\<rparr> (db_jobs d)\<rparr>) b)"

text \<open>\<open>UPDATE ... WHERE producer = ? AND job = ?\<close>: no row, no change.\<close>

definition update_job :: "string \<Rightarrow> string \<Rightarrow> (backfill_job \<Rightarrow> backfill_job) \<Rightarrow> buffer \<Rightarrow> buffer" where
  "update_job producer job f =
     edit (\<lambda>d. d\<lparr>db_jobs := map (\<lambda>(k, j). (k, if k = (producer, job) then f j else j)) (db_jobs d)\<rparr>)"

definition set_backfill_end :: "string \<Rightarrow> string \<Rightarrow> real \<Rightarrow> buffer \<Rightarrow> buffer" where
  "set_backfill_end producer job until b =
     commit (update_job producer job (\<lambda>j. if j_end j = None then j\<lparr>j_end := Some until\<rparr> else j) b)"

definition backfill_progress :: "string \<Rightarrow> string \<Rightarrow> real \<Rightarrow> nat \<Rightarrow> string \<Rightarrow> buffer \<Rightarrow> buffer" where
  "backfill_progress producer job position windows code b =
     settle (update_job producer job
       (\<lambda>j. j\<lparr>j_position := position, j_windows := windows, j_code_hash := code\<rparr>) b)"

definition finish_backfill :: "string \<Rightarrow> string \<Rightarrow> buffer \<Rightarrow> buffer" where
  "finish_backfill producer job b = settle (update_job producer job (\<lambda>j. j\<lparr>j_done := True\<rparr>) b)"

section \<open>Lemmas on commit and crash\<close>

lemma commit_simps [simp]:
  "work (commit b) = work b" "disk (commit b) = work b" "deferred (commit b) = deferred b"
  by (simp_all add: commit_def)

lemma edit_simps [simp]:
  "work (edit f b) = f (work b)" "disk (edit f b) = disk b" "deferred (edit f b) = deferred b"
  by (simp_all add: edit_def)

lemma settle_simps [simp]:
  "work (settle b) = work b" "disk (settle b) = (if deferred b = 0 then work b else disk b)"
  "deferred (settle b) = deferred b"
  by (simp_all add: settle_def)

lemma crash_simps [simp]: "work (crash b) = disk b" "disk (crash b) = disk b" "deferred (crash b) = 0"
  by (simp_all add: crash_def)

lemma update_job_simps [simp]:
  "disk (update_job p j f b) = disk b" "deferred (update_job p j f b) = deferred b"
  by (simp_all add: update_job_def)

lemma map_of_update_job:
  "map_of (db_jobs (work (update_job p j f b))) k =
     (if k = (p, j) then map_option f (map_of (db_jobs (work b)) k) else map_of (db_jobs (work b)) k)"
proof -
  have "map_of (map (\<lambda>(k, x). (k, if k = (p, j) then f x else x)) d) k =
      (if k = (p, j) then map_option f (map_of d k) else map_of d k)" for d :: "((string \<times> string) \<times> backfill_job) list"
    by (induction d) auto
  then show ?thesis by (simp add: update_job_def)
qed

section \<open>Lemmas on points\<close>

text \<open>The table of points as a map; what the reads return depends on it alone.\<close>

definition points_ok :: "buffer \<Rightarrow> bool" where
  "points_ok b = dict_ok (db_points (work b))"

definition point_at :: "buffer \<Rightarrow> string \<Rightarrow> real \<Rightarrow> json option" where
  "point_at b sid ts = map_of (db_points (work b)) (sid, ts)"

lemma rows_of_ts_distinct:
  assumes "dict_ok d" shows "distinct (map fst (map (\<lambda>((s, ts), v). (ts, v)) (rows_of sid d)))"
  using assms by (induction d) (force simp: rows_of_def)+

lemma set_signal_points:
  assumes "points_ok b" shows "(ts, v) \<in> set (signal_points sid b) \<longleftrightarrow> point_at b sid ts = Some v"
proof -
  have "(ts, v) \<in> set (signal_points sid b) \<longleftrightarrow> ((sid, ts), v) \<in> set (db_points (work b))"
    by (auto simp: signal_points_def rows_of_def image_iff)
  then show ?thesis using assms by (simp add: point_at_def points_ok_def map_of_eq_Some_iff)
qed

lemma signal_points_sorted:
  assumes "points_ok b"
  shows "sorted (map fst (signal_points sid b))" "distinct (map fst (signal_points sid b))"
proof -
  show "sorted (map fst (signal_points sid b))" by (simp add: signal_points_def)
  have "distinct (map fst (map (\<lambda>((s, ts), v). (ts, v)) (rows_of sid (db_points (work b)))))"
    using assms by (intro rows_of_ts_distinct) (simp add: points_ok_def)
  then have "distinct (map fst (sort_key fst (map (\<lambda>((s, ts), v). (ts, v)) (rows_of sid (db_points (work b))))))"
    by (simp only: distinct_map set_sort distinct_sort) 
  then show "distinct (map fst (signal_points sid b))" by (simp add: signal_points_def)
qed

lemma sorted_pairs_unique:
  fixes xs ys :: "('a::linorder \<times> 'b) list"
  assumes "sorted (map fst xs)" "distinct (map fst xs)" "sorted (map fst ys)" "distinct (map fst ys)"
    and "set xs = set ys"
  shows "xs = ys"
proof -
  have k: "map fst xs = map fst ys"
    using assms by (intro sorted_distinct_set_unique) auto
  have "map_of xs = map_of ys" using assms by (simp add: map_of_inject_set)
  then show ?thesis using k assms(2,4) map_eq_imp_length_eq [OF k]
    by (intro nth_equalityI) (metis (no_types, lifting) map_of_eq_Some_iff nth_map nth_mem option.inject prod.collapse)+
qed

lemma signal_points_cong:
  assumes "points_ok b" "points_ok b'" "\<And>ts. point_at b sid ts = point_at b' sid ts"
  shows "signal_points sid b = signal_points sid b'"
proof (rule sorted_pairs_unique)
  have "(ts, v) \<in> set (signal_points sid b) \<longleftrightarrow> (ts, v) \<in> set (signal_points sid b')" for ts v
    using assms by (simp add: set_signal_points)
  then show "set (signal_points sid b) = set (signal_points sid b')" by auto
qed (use assms in \<open>auto simp: signal_points_sorted\<close>)

lemma dict_ok_append_rows:
  "dict_ok d \<Longrightarrow> dict_ok (fold (\<lambda>(sid, ts, v). replace_row (sid, ts) v) ps d)"
  by (induction ps arbitrary: d) (auto intro: dict_ok_replace_row)

lemma map_of_append_rows:
  "map_of (fold (\<lambda>(sid, ts, v). replace_row (sid, ts) v) ps d) k =
     (case map_of (rev (map (\<lambda>(sid, ts, v). ((sid, ts), v)) ps)) k of Some v \<Rightarrow> Some v | None \<Rightarrow> map_of d k)"
  by (induction ps arbitrary: d) (auto simp: map_add_def split: option.splits)

lemma points_ok_append_many [inv_intros]: "points_ok b \<Longrightarrow> points_ok (append_many ps b)"
  by (simp add: points_ok_def append_many_def dict_ok_append_rows)

lemma points_ok_append [inv_intros]: "points_ok b \<Longrightarrow> points_ok (append sid ts v b)"
  by (simp add: points_ok_def append_def dict_ok_replace_row)

lemma append_as_append_many: "append sid ts v b = append_many [(sid, ts, v)] b"
  by (simp add: append_def append_many_def)

text \<open>The last value a page of points gives to \<open>(sid, ts)\<close>.\<close>

definition page_value :: "(string \<times> real \<times> json) list \<Rightarrow> string \<Rightarrow> real \<Rightarrow> json option" where
  "page_value ps sid ts = map_of (rev (map (\<lambda>(s, t, v). ((s, t), v)) ps)) (sid, ts)"

lemma point_at_append_many [step_simps]:
  "point_at (append_many ps b) sid ts =
     (case page_value ps sid ts of Some v \<Rightarrow> Some v | None \<Rightarrow> point_at b sid ts)"
  by (auto simp: point_at_def append_many_def map_of_append_rows page_value_def split: option.splits)

lemma page_value_None: "page_value ps sid ts = None \<longleftrightarrow> (sid, ts) \<notin> (\<lambda>(s, t, v). (s, t)) ` set ps"
  by (auto simp: page_value_def map_of_eq_None_iff image_iff split: prod.splits)

section \<open>Lemmas on trim\<close>

definition below :: "string \<Rightarrow> real \<Rightarrow> (string \<times> real) \<times> json \<Rightarrow> bool" where
  "below sid anchor r \<longleftrightarrow> fst (fst r) = sid \<and> snd (fst r) < anchor"

definition drop_below :: "string \<Rightarrow> real \<Rightarrow> db \<Rightarrow> db" where
  "drop_below sid anchor d = d\<lparr>db_points := filter (\<lambda>r. \<not> below sid anchor r) (db_points d)\<rparr>"

lemma settle_edit_twice: "settle (edit g (settle (edit f b))) = settle (edit (g \<circ> f) b)"
  by (simp add: settle_def edit_def commit_def)

lemma trim_doomed_take:
  "trim_doomed chunk sid anchor d = take chunk (map fst (filter (below sid anchor) (db_points d)))"
  by (simp add: trim_doomed_def rows_of_def below_def [abs_def] conj_commute)

lemma filter_absorb:
  "(\<And>r. Q r \<Longrightarrow> P r) \<Longrightarrow> filter (\<lambda>r. \<not> P r) (filter (\<lambda>r. \<not> Q r) d) = filter (\<lambda>r. \<not> P r) d"
  by (induction d) auto

lemma trim_loop_result:
  assumes "0 < chunk" "points_ok b"
  shows "trim_loop chunk sid anchor b =
    Some (length (filter (below sid anchor) (db_points (work b))), settle (edit (drop_below sid anchor) b))"
  using assms(2)
proof (induction "length (filter (below sid anchor) (db_points (work b)))" arbitrary: b rule: less_induct)
  case less
  let ?D = "filter (below sid anchor) (db_points (work b))"
  let ?doomed = "take chunk (map fst ?D)"
  let ?f = "\<lambda>d. d\<lparr>db_points := filter (\<lambda>r. fst r \<notin> set ?doomed) (db_points d)\<rparr>"
  have st: "trim_statement chunk sid anchor b = (length ?doomed, settle (edit ?f b))"
    by (simp add: trim_statement_def trim_doomed_take Let_def)
  have ok: "dict_ok (db_points (work b))" using less.prems by (simp add: points_ok_def)
  have doomed: "below sid anchor r" if "fst r \<in> set ?doomed" for r
    using set_take_subset [of chunk "map fst ?D"] that by (auto simp: below_def)
  show ?case
  proof (cases "length ?doomed < chunk")
    case True
    then have len: "length ?D < chunk" by simp
    then have all: "?doomed = map fst ?D" by simp
    have "fst r \<in> set ?doomed \<longleftrightarrow> below sid anchor r" if "r \<in> set (db_points (work b))" for r
      using that doomed [of r] unfolding all by auto
    then have "?f (work b) = drop_below sid anchor (work b)"
      by (simp add: drop_below_def cong: filter_cong)
    then have "edit ?f b = edit (drop_below sid anchor) b" by (simp add: edit_def)
    with len st all show ?thesis by (subst trim_loop.simps) (simp add: Let_def)
  next
    case False
    let ?b = "settle (edit ?f b)"
    have len: "length ?doomed = chunk" using False by simp
    have D': "filter (below sid anchor) (db_points (work ?b)) = drop chunk ?D"
    proof -
      have "filter (below sid anchor) (db_points (work ?b)) = filter (\<lambda>r. fst r \<notin> set ?doomed) ?D"
        by (simp add: conj_commute)
      also have "\<dots> = filter (\<lambda>r. fst r \<notin> set ?doomed) (take chunk ?D) @ filter (\<lambda>r. fst r \<notin> set ?doomed) (drop chunk ?D)"
        by (metis append_take_drop_id filter_append)
      also have "filter (\<lambda>r. fst r \<notin> set ?doomed) (take chunk ?D) = []"
        by (auto simp: filter_empty_conv take_map)
      also have "filter (\<lambda>r. fst r \<notin> set ?doomed) (drop chunk ?D) = drop chunk ?D"
      proof -
        have "distinct (map fst ?D)" using ok by (rule distinct_map_filter)
        then have "set (take chunk (map fst ?D)) \<inter> set (drop chunk (map fst ?D)) = {}"
          by (rule set_take_disj_set_drop_if_distinct) simp
        then show ?thesis by (auto simp: filter_id_conv drop_map)
      qed
      finally show ?thesis by simp
    qed
    have short: "length (filter (below sid anchor) (db_points (work ?b))) < length ?D"
      unfolding D' using len assms(1) by simp
    have "points_ok ?b" using ok by (simp add: points_ok_def distinct_map_filter)
    from less.hyps [OF short this]
    have IH: "trim_loop chunk sid anchor ?b = Some (length ?D - chunk, settle (edit (drop_below sid anchor) ?b))"
      unfolding D' by simp
    have "filter (\<lambda>r. \<not> below sid anchor r) (filter (\<lambda>r. fst r \<notin> set ?doomed) d)
        = filter (\<lambda>r. \<not> below sid anchor r) d" for d
      by (rule filter_absorb) (rule doomed)
    then have "drop_below sid anchor (?f (work b)) = drop_below sid anchor (work b)"
      by (simp add: drop_below_def del: filter_filter set_take_subset)
    then have "settle (edit (drop_below sid anchor) ?b) = settle (edit (drop_below sid anchor) b)"
      unfolding settle_edit_twice by (simp only: edit_def comp_apply)
    with IH st False len show ?thesis by (subst trim_loop.simps) (simp add: Let_def)
  qed
qed

definition trim_rows :: "real \<Rightarrow> (real \<times> json) list \<Rightarrow> (real \<times> json) list" where
  "trim_rows cutoff rows =
     (let low = filter (\<lambda>p. fst p < cutoff) rows
      in if low = [] then rows else filter (\<lambda>p. fst (last low) \<le> fst p) rows)"

lemma signal_points_drop_below:
  "signal_points s (settle (edit (drop_below sid anchor) b)) =
     (if s = sid then filter (\<lambda>p. anchor \<le> fst p) (signal_points s b) else signal_points s b)"
proof -
  have "map (\<lambda>((s, ts), v). (ts, v)) (rows_of s (filter (\<lambda>r. \<not> below sid anchor r) d)) =
      (if s = sid then filter (\<lambda>p. anchor \<le> fst p) (map (\<lambda>((s, ts), v). (ts, v)) (rows_of s d))
       else map (\<lambda>((s, ts), v). (ts, v)) (rows_of s d))" for d
    by (induction d) (auto simp: rows_of_def below_def)
  then show ?thesis by (simp add: signal_points_def drop_below_def filter_sort)
qed

lemma points_ok_drop_below: "points_ok b \<Longrightarrow> points_ok (settle (edit (drop_below sid anchor) b))"
  by (simp add: points_ok_def drop_below_def distinct_map_filter)

definition other_tables :: "db \<Rightarrow> db" where
  "other_tables d = d\<lparr>db_points := []\<rparr>"

lemma trim_result:
  assumes "0 < chunk" "points_ok b" "dict_ok hs"
  shows "\<exists>n b'. trim now chunk hs b = Some (n, b')
     \<and> n + length (db_points (work b')) = length (db_points (work b))
     \<and> other_tables (work b') = other_tables (work b) \<and> deferred b' = deferred b \<and> points_ok b'
     \<and> (\<forall>sid. signal_points sid b' =
          (case map_of hs sid of None \<Rightarrow> signal_points sid b
           | Some h \<Rightarrow> trim_rows (now - h) (signal_points sid b)))"
  using assms(2,3)
proof (induction hs arbitrary: b)
  case (Cons sh hs)
  obtain sid h where sh: "sh = (sid, h)" by fastforce
  have fresh: "map_of hs sid = None" using Cons.prems(2) sh by (simp add: map_of_eq_None_iff)
  show ?case
  proof (cases "trim_anchor sid (now - h) b")
    case None
    then have "trim_rows (now - h) (signal_points sid b) = signal_points sid b"
      by (auto simp: trim_anchor_def trim_rows_def Let_def split: if_splits)
    with Cons.IH [OF Cons.prems(1)] Cons.prems(2) None sh fresh show ?thesis by fastforce
  next
    case (Some anchor)
    let ?b = "settle (edit (drop_below sid anchor) b)"
    let ?n = "length (filter (below sid anchor) (db_points (work b)))"
    have rows: "trim_rows (now - h) (signal_points sid b) = filter (\<lambda>p. anchor \<le> fst p) (signal_points sid b)"
      using Some by (auto simp: trim_anchor_def trim_rows_def Let_def split: if_splits)
    have "?n + length (filter (\<lambda>r. \<not> below sid anchor r) (db_points (work b))) = length (db_points (work b))"
      by (rule sum_length_filter_compl)
    then have n: "?n + length (db_points (work ?b)) = length (db_points (work b))"
      by (simp add: drop_below_def)
    from Cons.IH [OF points_ok_drop_below [OF Cons.prems(1)], of sid anchor] Cons.prems(2)
    obtain m b' where m: "trim now chunk hs ?b = Some (m, b')"
      "m + length (db_points (work b')) = length (db_points (work ?b))"
      "other_tables (work b') = other_tables (work ?b)" "deferred b' = deferred ?b" "points_ok b'"
      "\<forall>s. signal_points s b' = (case map_of hs s of None \<Rightarrow> signal_points s ?b
           | Some h \<Rightarrow> trim_rows (now - h) (signal_points s ?b))" by auto
    have "trim now chunk (sh # hs) b = Some (?n + m, b')"
      using m(1) Some sh trim_loop_result [OF assms(1) Cons.prems(1), of sid anchor] by simp
    moreover have "signal_points s b' = (case map_of (sh # hs) s of None \<Rightarrow> signal_points s b
           | Some h \<Rightarrow> trim_rows (now - h) (signal_points s b))" for s
      using m(6) sh fresh rows by (cases "s = sid") (simp_all add: signal_points_drop_below split: option.split)
    moreover have "other_tables (work b') = other_tables (work b)"
      using m(3) by (simp add: other_tables_def drop_below_def)
    ultimately show ?thesis using m n by simp
  qed
qed simp

lemma last_filter: "xs \<noteq> [] \<Longrightarrow> P (last xs) \<Longrightarrow> filter P xs \<noteq> [] \<and> last (filter P xs) = last xs"
  by (induction xs rule: rev_induct) auto

lemma trim_rows_latest:
  assumes "sorted (map fst rows)" "cutoff \<le> t"
  shows "filter (\<lambda>p. fst p \<le> t) (trim_rows cutoff rows) = [] \<longleftrightarrow> filter (\<lambda>p. fst p \<le> t) rows = []"
    and "filter (\<lambda>p. fst p \<le> t) rows \<noteq> [] \<Longrightarrow>
      last (filter (\<lambda>p. fst p \<le> t) (trim_rows cutoff rows)) = last (filter (\<lambda>p. fst p \<le> t) rows)"
proof -
  let ?low = "filter (\<lambda>p. fst p < cutoff) rows" and ?F = "filter (\<lambda>p. fst p \<le> t) rows"
  have "(filter (\<lambda>p. fst p \<le> t) (trim_rows cutoff rows) = [] \<longleftrightarrow> ?F = [])
    \<and> (?F \<noteq> [] \<longrightarrow> last (filter (\<lambda>p. fst p \<le> t) (trim_rows cutoff rows)) = last ?F)"
  proof (cases "?low = []")
    case True
    then show ?thesis by (simp add: trim_rows_def)
  next
    case False
    let ?a = "last ?low"
    have "?a \<in> set ?low" using False by (rule last_in_set)
    then have a: "?a \<in> set ?F" using assms(2) by auto
    then have ne: "?F \<noteq> []" by (metis empty_iff empty_set)
    have "sorted (map fst ?F)" using assms(1) by (rule sorted_filter)
    then have "fst ?a \<le> last (map fst ?F)"
      using a ne by (subst sorted_last_Max) (simp_all add: Max_ge)
    then have "fst ?a \<le> fst (last ?F)" using ne by (simp add: last_map)
    from last_filter [OF ne, of "\<lambda>p. fst ?a \<le> fst p", OF this] ne False show ?thesis
      by (simp add: trim_rows_def Let_def conj_commute)
  qed
  then show "filter (\<lambda>p. fst p \<le> t) (trim_rows cutoff rows) = [] \<longleftrightarrow> ?F = []"
    "?F \<noteq> [] \<Longrightarrow> last (filter (\<lambda>p. fst p \<le> t) (trim_rows cutoff rows)) = last ?F" by auto
qed

lemma trim_rows_window:
  "filter (\<lambda>p. cutoff \<le> fst p \<and> fst p < e) (trim_rows cutoff rows) =
     filter (\<lambda>p. cutoff \<le> fst p \<and> fst p < e) rows"
proof (cases "filter (\<lambda>p. fst p < cutoff) rows = []")
  case False
  from last_in_set [OF False] have "fst (last (filter (\<lambda>p. fst p < cutoff) rows)) < cutoff" by auto
  then have "(fst (last (filter (\<lambda>p. fst p < cutoff) rows)) \<le> fst p \<and> cutoff \<le> fst p \<and> fst p < e)
      \<longleftrightarrow> (cutoff \<le> fst p \<and> fst p < e)" for p :: "real \<times> json" by auto
  then show ?thesis by (simp add: trim_rows_def False Let_def)
qed (simp add: trim_rows_def)

lemma trim_rows_anchor:
  assumes "sorted (map fst rows)" "distinct (map fst rows)"
  shows "length (filter (\<lambda>p. fst p < cutoff) (trim_rows cutoff rows)) \<le> 1"
proof (cases "filter (\<lambda>p. fst p < cutoff) rows = []")
  case False
  let ?low = "filter (\<lambda>p. fst p < cutoff) rows"
  have low: "sorted (map fst ?low)" "distinct (map fst ?low)"
    using assms by (auto simp: sorted_filter distinct_map_filter)
  have "filter (\<lambda>p. fst p < cutoff) (trim_rows cutoff rows) = filter (\<lambda>p. fst (last ?low) \<le> fst p) ?low"
    using False by (simp add: trim_rows_def Let_def conj_commute)
  also have "\<dots> = filter (\<lambda>p. fst p = fst (last ?low)) ?low"
  proof (rule filter_cong)
    fix p assume "p \<in> set ?low"
    then have "fst p \<le> last (map fst ?low)"
      using low(1) False by (subst sorted_last_Max) (simp_all add: Max_ge)
    then show "fst (last ?low) \<le> fst p \<longleftrightarrow> fst p = fst (last ?low)" using last_map [OF False, of fst] by auto
  qed simp
  also have "length \<dots> \<le> 1"
  proof -
    have "length (filter (\<lambda>p. fst p = k) d) \<le> 1" if "distinct (map fst d)" for k and d :: "(real \<times> json) list"
      using that by (induction d) (auto simp: filter_empty_conv image_iff)
    with low(2) show ?thesis by blast
  qed
  finally show ?thesis .
qed (simp add: trim_rows_def)

section \<open>Lemmas on the block of one commit\<close>

text \<open>Every write of the buffer, and the nesting itself. The operations up to \<open>Finish\<close> leave their commit to an enclosing
  \<open>one_commit\<close>; those from \<open>QueueOutput\<close> on commit, or roll back, whatever is open.\<close>

datatype block_op =
    Append string real json
  | AppendMany "(string \<times> real \<times> json) list"
  | TrimChunk nat string real
  | SaveCheckpoint string string int json json
  | RecordAnnotation string string real
  | Progress string string real nat string
  | Finish string string
  | QueueOutput nat string real json
  | OutputsSent string "real list"
  | AcceptGap int
  | CommandStarted real real string
  | CommandAnswered real string json
  | SetWatermark string real string
  | AddJob string string real "real option" string real "real option"
  | RestartJob string string real string real
  | SetJobEnd string string real
  | Enter
  | Leave

fun block_step :: "block_op \<Rightarrow> buffer \<Rightarrow> buffer" where
  "block_step (Append sid ts v) b = append sid ts v b"
| "block_step (AppendMany ps) b = append_many ps b"
| "block_step (TrimChunk chunk sid anchor) b = snd (trim_statement chunk sid anchor b)"
| "block_step (SaveCheckpoint p h n st pos) b =
     (case save_checkpoint p h n st pos b of Inl _ \<Rightarrow> b | Inr b' \<Rightarrow> b')"
| "block_step (RecordAnnotation src aid t) b = record_emitted_annotation src aid t b"
| "block_step (Progress p j pos w h) b = backfill_progress p j pos w h b"
| "block_step (Finish p j) b = finish_backfill p j b"
| "block_step (QueueOutput limit source ts v) b = snd (queue_output limit source ts v b)"
| "block_step (OutputsSent source tss) b = outputs_sent source tss b"
| "block_step (AcceptGap n) b = accept_gap n b"
| "block_step (CommandStarted now keep_s cid) b = command_started now keep_s cid b"
| "block_step (CommandAnswered now cid answer) b = command_answered now cid answer b"
| "block_step (SetWatermark p pos h) b = set_watermark p pos h b"
| "block_step (AddJob p j start until h created w) b = snd (add_backfill_job p j start until h created w b)"
| "block_step (RestartJob p j start h created) b = restart_backfill p j start h created b"
| "block_step (SetJobEnd p j until) b = set_backfill_end p j until b"
| "block_step Enter b = enter_one_commit b"
| "block_step Leave b = leave_one_commit b"

definition block_run :: "block_op list \<Rightarrow> buffer \<Rightarrow> buffer" where
  "block_run ops b = fold block_step ops b"

text \<open>Whether an operation commits what is open wherever it stands, and whether it rolls it back.\<close>

fun own_commit :: "block_op \<Rightarrow> buffer \<Rightarrow> bool" where
  "own_commit (QueueOutput limit source ts v) b = (fst (queue_output limit source ts v b) = Inr ())"
| "own_commit (OutputsSent _ _) b = True"
| "own_commit (AcceptGap _) b = True"
| "own_commit (CommandStarted _ _ _) b = True"
| "own_commit (CommandAnswered _ _ _) b = True"
| "own_commit (SetWatermark _ _ _) b = True"
| "own_commit (AddJob _ _ _ _ _ _ _) b = True"
| "own_commit (RestartJob _ _ _ _ _) b = True"
| "own_commit (SetJobEnd _ _ _) b = True"
| "own_commit _ b = False"

fun rolls_back :: "block_op \<Rightarrow> buffer \<Rightarrow> bool" where
  "rolls_back (QueueOutput limit source ts v) b = (fst (queue_output limit source ts v b) = Inl BufferFull)"
| "rolls_back _ b = False"

text \<open>The nesting depth after \<open>ops\<close>, \<open>None\<close> when it fell to zero on the way.\<close>

fun depth_after :: "nat \<Rightarrow> block_op list \<Rightarrow> nat option" where
  "depth_after n [] = Some n"
| "depth_after n (Enter # ops) = depth_after (n + 1) ops"
| "depth_after n (Leave # ops) = (if n \<le> 1 then None else depth_after (n - 1) ops)"
| "depth_after n (_ # ops) = depth_after n ops"

lemma rollback_simps [simp]:
  "work (rollback b) = disk b" "disk (rollback b) = disk b" "deferred (rollback b) = deferred b"
  by (simp_all add: rollback_def)

lemma block_step_deferred:
  assumes "op \<noteq> Leave" "0 < deferred b"
  shows "disk (block_step op b) = (if own_commit op b then work (block_step op b) else disk b)
     \<and> (rolls_back op b \<longrightarrow> work (block_step op b) = disk b)
     \<and> deferred (block_step op b) = (if op = Enter then deferred b + 1 else deferred b)"
  using assms
  by (cases op) (auto simp: append_def append_many_def trim_statement_def save_checkpoint_def record_emitted_annotation_def
      backfill_progress_def finish_backfill_def enter_one_commit_def queue_output_def outputs_sent_def accept_gap_def
      command_started_def command_answered_def set_watermark_def add_backfill_job_def restart_backfill_def set_backfill_end_def Let_def)

text \<open>What is on disk inside a block: what its last own commit left, \<open>disk b\<close> before the first.\<close>

definition last_commit :: "block_op list \<Rightarrow> buffer \<Rightarrow> db \<Rightarrow> bool" where
  "last_commit ops b d \<longleftrightarrow>
     (\<exists>pre post. ops = pre @ post \<and> (\<forall>i < length post. \<not> own_commit (post ! i) (block_run (pre @ take i post) b))
        \<and> (if pre = [] then d = disk b else d = work (block_run pre b) \<and> own_commit (last pre) (block_run (butlast pre) b)))"

lemma block_run_append: "block_run (xs @ ys) b = block_run ys (block_run xs b)"
  by (simp add: block_run_def)

lemma block_run_snoc: "block_run (xs @ [op]) b = block_step op (block_run xs b)"
  by (simp add: block_run_def)

lemma depth_after_append: "depth_after n (xs @ ys) = Option.bind (depth_after n xs) (\<lambda>m. depth_after m ys)"
  by (induction n xs rule: depth_after.induct) auto

lemma depth_after_pos: "depth_after n ops = Some m \<Longrightarrow> 0 < n \<Longrightarrow> 0 < m"
  by (induction n ops rule: depth_after.induct) (auto split: if_splits)

lemma block_run_deferred:
  assumes "depth_after (deferred b) ops = Some n" "0 < deferred b"
  shows "last_commit ops b (disk (block_run ops b)) \<and> deferred (block_run ops b) = n"
  using assms
proof (induction ops arbitrary: n rule: rev_induct)
  case Nil
  then show ?case by (auto simp: last_commit_def block_run_def)
next
  case (snoc op ops)
  obtain m where m: "depth_after (deferred b) ops = Some m" "depth_after m [op] = Some n"
    using snoc.prems(1) by (auto simp: depth_after_append bind_eq_Some_conv)
  let ?s = "block_run ops b"
  have ih: "last_commit ops b (disk ?s)" "deferred ?s = m" using snoc.IH [OF m(1) snoc.prems(2)] by simp_all
  have pos: "0 < m" by (rule depth_after_pos [OF m(1) snoc.prems(2)])
  have step: "disk (block_step op ?s) = (if own_commit op ?s then work (block_step op ?s) else disk ?s) \<and> deferred (block_step op ?s) = n"
  proof (cases "op = Leave")
    case True
    then show ?thesis using m(2) ih(2) by (auto simp: leave_one_commit_def split: if_splits)
  next
    case False
    have "n = (if op = Enter then m + 1 else m)" using m(2) False by (cases op) auto
    then show ?thesis using block_step_deferred [OF False, of ?s] ih(2) pos by auto
  qed
  have "last_commit (ops @ [op]) b (disk (block_step op ?s))"
  proof (cases "own_commit op ?s")
    case True
    then show ?thesis unfolding last_commit_def using step
      by (intro exI [of _ "ops @ [op]"] exI [of _ "[]"]) (auto simp: block_run_snoc)
  next
    case False
    obtain pre post where p: "ops = pre @ post" "\<forall>i < length post. \<not> own_commit (post ! i) (block_run (pre @ take i post) b)"
      "if pre = [] then disk ?s = disk b else disk ?s = work (block_run pre b) \<and> own_commit (last pre) (block_run (butlast pre) b)"
      using ih(1) unfolding last_commit_def by blast
    have "\<not> own_commit ((post @ [op]) ! i) (block_run (pre @ take i (post @ [op])) b)" if "i < length (post @ [op])" for i
      using that p(1,2) False by (cases "i = length post") (auto simp: nth_append)
    then show ?thesis unfolding last_commit_def using step False p
      by (intro exI [of _ pre] exI [of _ "post @ [op]"]) auto
  qed
  then show ?case using step by (simp add: block_run_snoc)
qed

section \<open>Lemmas on the tables with rows per key\<close>

lemma map_of_filter_insert:
  "map_of (insert_row k v d) k = (case map_of d k of None \<Rightarrow> Some v | Some w \<Rightarrow> Some w)"
  by (auto simp: map_of_insert_row split: option.splits)

lemma command_entry_started_self:
  "fst (command_entry cid (command_started now keep_s cid b))"
  by (auto simp: command_entry_def command_started_def map_of_insert_row split: option.splits)

section \<open>Properties\<close>

text \<open>A page of points applied again changes nothing. After a crash that kept any part of a
  page (\<open>part\<close>, points of the page with any values), applying the page gives the same stored value at
  every \<open>(signal, ts)\<close>, and so the same windows and latest values, as applying it once.\<close>

theorem append_idempotent:
  assumes "points_ok b" "(\<lambda>(s, t, v). (s, t)) ` set part \<subseteq> (\<lambda>(s, t, v). (s, t)) ` set page"
  shows "point_at (append_many page (append_many part b)) sid ts = point_at (append_many page b) sid ts
     \<and> points sid x y (append_many page (append_many part b)) = points sid x y (append_many page b)
     \<and> latest_before sid x (append_many page (append_many part b)) = latest_before sid x (append_many page b)"
proof -
  have eq: "point_at (append_many page (append_many part b)) s t = point_at (append_many page b) s t" for s t
  proof (cases "page_value page s t")
    case None
    then have "page_value part s t = None" using assms(2) unfolding page_value_None by blast
    with None show ?thesis by (simp add: point_at_append_many)
  qed (simp add: point_at_append_many)
  then have "signal_points sid (append_many page (append_many part b)) = signal_points sid (append_many page b)"
    by (intro signal_points_cong points_ok_append_many assms(1))
  with eq show ?thesis by (simp add: points_def latest_before_def)
qed

theorem append_idempotent_witness:
  "let b = snd (open_buffer ''g'' empty_db); page = [(''s'', 1, JInt 1), (''s'', 2, JInt 2)] in
     point_at (append_many page (crash (append ''s'' 1 (JInt 1) b))) ''s'' 1 = Some (JInt 1)
     \<and> points ''s'' 0 9 (append_many page (append_many [(''s'', 1, JInt 1)] b)) = points ''s'' 0 9 (append_many page b)"
proof -
  have "points_ok (snd (open_buffer ''g'' empty_db))"
    by (simp add: open_buffer_def load_or_mint_generation_def empty_db_def upgrade_def points_ok_def)
  from append_idempotent [OF this, of "[(''s'', 1, JInt 1)]" "[(''s'', 1, JInt 1), (''s'', 2, JInt 2)]" "''s''" 1 0 9]
  show ?thesis by (simp add: Let_def point_at_append_many page_value_def)
qed

text \<open>Windows are half-open, so consecutive windows tile: a point is in exactly one of two
  adjacent ones, and \<open>latest_before\<close> is inclusive: it is the last point of the window that ends just
  after the instant.\<close>

theorem windows_tile:
  assumes "points_ok b" "x \<le> y" "y \<le> z"
  shows "points sid x z b = points sid x y b @ points sid y z b
     \<and> (\<forall>p. p \<in> set (points sid x z b) \<longleftrightarrow> x \<le> fst p \<and> fst p < z \<and> point_at b sid (fst p) = Some (snd p))
     \<and> (\<forall>t v. latest_before sid y b = Some (t, v) \<longleftrightarrow>
            t \<le> y \<and> point_at b sid t = Some v \<and> (\<forall>t'. t < t' \<and> t' \<le> y \<longrightarrow> point_at b sid t' = None))"
proof (intro conjI allI)
  let ?R = "signal_points sid b"
  have srt: "sorted (map fst ?R)" "distinct (map fst ?R)" using signal_points_sorted [OF assms(1)] by auto
  have "filter (\<lambda>p. x \<le> fst p \<and> fst p < z) R
      = filter (\<lambda>p. x \<le> fst p \<and> fst p < y) R @ filter (\<lambda>p. y \<le> fst p \<and> fst p < z) R"
    if "sorted (map fst R)" for R :: "(real \<times> json) list"
    using that
  proof (induction R)
    case (Cons p R)
    have "filter (\<lambda>p. x \<le> fst p \<and> fst p < y) R = []" if "y \<le> fst p"
      using Cons.prems that by (fastforce simp: filter_empty_conv)
    with Cons assms(2,3) show ?case by (auto simp: not_le not_less)
  qed simp
  from this [OF srt(1)] show "points sid x z b = points sid x y b @ points sid y z b"
    by (simp add: points_def)
  show "p \<in> set (points sid x z b) \<longleftrightarrow> x \<le> fst p \<and> fst p < z \<and> point_at b sid (fst p) = Some (snd p)" for p
    using set_signal_points [OF assms(1), of "fst p" "snd p" sid] by (auto simp: points_def)
  fix t v
  let ?F = "filter (\<lambda>p. fst p \<le> y) ?R"
  have F: "(t, v) \<in> set ?F \<longleftrightarrow> t \<le> y \<and> point_at b sid t = Some v" for t v
    using set_signal_points [OF assms(1), of t v sid] by auto
  have Fs: "sorted (map fst ?F)" using srt(1) by (rule sorted_filter)
  have last: "fst p \<le> fst (last ?F)" if "p \<in> set ?F" for p
  proof -
    from that have ne: "?F \<noteq> []" by (metis empty_iff empty_set)
    have "fst p \<le> last (map fst ?F)" using that ne Fs by (subst sorted_last_Max) (simp_all add: Max_ge)
    then show ?thesis by (simp only: last_map [OF ne])
  qed
  show "latest_before sid y b = Some (t, v) \<longleftrightarrow>
      t \<le> y \<and> point_at b sid t = Some v \<and> (\<forall>t'. t < t' \<and> t' \<le> y \<longrightarrow> point_at b sid t' = None)"
  proof
    assume "latest_before sid y b = Some (t, v)"
    then have l: "last ?F = (t, v)" "?F \<noteq> []" by (auto simp: latest_before_def Let_def split: if_splits)
    then have "(t, v) \<in> set ?F" by (metis last_in_set)
    moreover have "point_at b sid t' = None" if "t < t'" "t' \<le> y" for t'
    proof (cases "point_at b sid t'")
      case (Some w)
      with that(2) F [of t' w] last [of "(t', w)"] l(1) that(1) show ?thesis by (simp del: set_filter)
    qed
    ultimately show "t \<le> y \<and> point_at b sid t = Some v \<and> (\<forall>t'. t < t' \<and> t' \<le> y \<longrightarrow> point_at b sid t' = None)"
      using F by blast
  next
    assume a: "t \<le> y \<and> point_at b sid t = Some v \<and> (\<forall>t'. t < t' \<and> t' \<le> y \<longrightarrow> point_at b sid t' = None)"
    then have "(t, v) \<in> set ?F" using F by blast
    then have ne: "?F \<noteq> []" and le: "t \<le> fst (last ?F)" using last by (metis empty_iff empty_set, force)
    obtain t' v' where l: "last ?F = (t', v')" by fastforce
    then have "t' \<le> y \<and> point_at b sid t' = Some v'" using F [of t' v'] last_in_set [OF ne] by simp
    with a le l have "t' = t" "v' = v" by (force simp: not_less le_less)+
    with l ne show "latest_before sid y b = Some (t, v)" by (simp add: latest_before_def)
  qed
qed

theorem windows_tile_witness:
  "let b = append ''s'' 2 (JInt 2) (snd (open_buffer ''g'' empty_db)) in
     points ''s'' 1 3 b = points ''s'' 1 2 b @ points ''s'' 2 3 b \<and> latest_before ''s'' 2 b = Some (2, JInt 2)"
proof -
  let ?b = "append ''s'' 2 (JInt 2) (snd (open_buffer ''g'' empty_db))"
  have "points_ok ?b" "point_at ?b ''s'' 2 = Some (JInt 2)"
    by (simp_all add: open_buffer_def load_or_mint_generation_def empty_db_def upgrade_def points_ok_def
        append_def replace_row_def point_at_def)
  with windows_tile [OF this(1), of 1 2 3 "''s''"] show ?thesis by (auto simp: Let_def)
qed

text \<open>C2: Trim keeps the value in force. With a positive chunk it returns, and for every signal with
  a horizon: the window from the cutoff on is unchanged, the latest value at any instant from the
  cutoff on is unchanged, and at most one older point (the anchor) is kept. A signal without a
  horizon keeps every point, no other table is touched, and the count returned is the number of
  rows deleted.\<close>

theorem trim_keeps_value_in_force:
  assumes "points_ok b" "0 < chunk" "dict_ok horizons"
  shows "\<exists>n b'. trim now chunk horizons b = Some (n, b')
     \<and> n + length (db_points (work b')) = length (db_points (work b))
     \<and> other_tables (work b') = other_tables (work b)
     \<and> (\<forall>sid. map_of horizons sid = None \<longrightarrow> signal_points sid b' = signal_points sid b)
     \<and> (\<forall>sid h. map_of horizons sid = Some h \<longrightarrow>
          (\<forall>e. points sid (now - h) e b' = points sid (now - h) e b)
          \<and> (\<forall>t. now - h \<le> t \<longrightarrow> latest_before sid t b' = latest_before sid t b)
          \<and> length (filter (\<lambda>p. fst p < now - h) (signal_points sid b')) \<le> 1)"
proof -
  from trim_result [OF assms(2,1,3), of now] obtain n b' where r: "trim now chunk horizons b = Some (n, b')"
    "n + length (db_points (work b')) = length (db_points (work b))"
    "other_tables (work b') = other_tables (work b)"
    "\<forall>sid. signal_points sid b' = (case map_of horizons sid of None \<Rightarrow> signal_points sid b
           | Some h \<Rightarrow> trim_rows (now - h) (signal_points sid b))" by blast
  note srt = signal_points_sorted [OF assms(1)]
  have "points sid (now - h) e b' = points sid (now - h) e b"
    and "now - h \<le> t \<Longrightarrow> latest_before sid t b' = latest_before sid t b"
    and "length (filter (\<lambda>p. fst p < now - h) (signal_points sid b')) \<le> 1"
    if "map_of horizons sid = Some h" for sid h e t
    using that r(4) trim_rows_window [of "now - h" e] trim_rows_latest [OF srt(1), of "now - h" t sid]
      trim_rows_anchor [OF srt, of "now - h" sid]
    by (simp_all add: points_def latest_before_def Let_def)
  with r show ?thesis by fastforce
qed

theorem trim_keeps_value_in_force_witness:
  "let b = append_many [(''s'', 1, JInt 1), (''s'', 2, JInt 2), (''s'', 9, JInt 3)] (snd (open_buffer ''g'' empty_db)) in
     \<exists>n b'. trim 10 TRIM_CHUNK [(''s'', 5)] b = Some (n, b')
       \<and> latest_before ''s'' 6 b' = latest_before ''s'' 6 b
       \<and> length (filter (\<lambda>p. fst p < 5) (signal_points ''s'' b')) \<le> 1"
proof -
  let ?b = "append_many [(''s'', 1, JInt 1), (''s'', 2, JInt 2), (''s'', 9, JInt 3)] (snd (open_buffer ''g'' empty_db))"
  have "points_ok ?b"
    by (rule points_ok_append_many)
      (simp add: open_buffer_def load_or_mint_generation_def empty_db_def upgrade_def points_ok_def)
  from trim_keeps_value_in_force [OF this, of TRIM_CHUNK "[(''s'', 5)]" 10]
  obtain n b' where r: "trim 10 TRIM_CHUNK [(''s'', 5)] ?b = Some (n, b')"
    and w: "\<forall>sid h. map_of [(''s'', 5)] sid = Some h \<longrightarrow>
        (\<forall>t. 10 - h \<le> t \<longrightarrow> latest_before sid t b' = latest_before sid t ?b)
        \<and> length (filter (\<lambda>p. fst p < 10 - h) (signal_points sid b')) \<le> 1"
    by (auto simp: TRIM_CHUNK_def simp del: trim.simps)
  from w [rule_format, of "''s''" 5] r show ?thesis by (simp add: Let_def del: trim.simps)
qed

text \<open>C1: One commit for a block. From a state with nothing uncommitted and no block open, whatever writes of the buffer run
  inside \<open>one_commit\<close>, nested blocks included: what a crash leaves is what the last write with a commit of its own
  (\<open>own_commit\<close>: a queued output, a sent one, a ledger row, a watermark, an accepted gap, a job) left, and the state from
  before the block when there is none, so without such a write a crash anywhere inside loses all of the block and nothing
  else; a full output queue takes the block back to there at once; and when the outermost block ends, the file holds all that
  the connection then sees.\<close>

theorem one_commit_atomic:
  assumes "deferred b = 0" "disk b = work b"
  shows "(\<forall>n. depth_after 1 ops = Some n \<longrightarrow>
            (\<exists>d. last_commit ops (enter_one_commit b) d \<and> crash (block_run (Enter # ops) b) = \<lparr>work = d, disk = d, deferred = 0\<rparr>)
            \<and> (\<forall>op. rolls_back op (block_run (Enter # ops) b) \<longrightarrow>
                 crash (block_run (Enter # ops @ [op]) b) = crash (block_run (Enter # ops) b)
                 \<and> work (block_run (Enter # ops @ [op]) b) = work (crash (block_run (Enter # ops) b)))
            \<and> ((\<forall>op \<in> set ops. \<forall>s. \<not> own_commit op s) \<longrightarrow> crash (block_run (Enter # ops) b) = b))
     \<and> (depth_after 1 ops = Some 1 \<longrightarrow>
          (let b' = block_run (Enter # ops @ [Leave]) b in
             deferred b' = 0 \<and> disk b' = work b' \<and> work b' = work (block_run (Enter # ops) b) \<and> crash b' = b'))"
proof -
  let ?b = "enter_one_commit b"
  have e: "deferred ?b = 1" "disk ?b = work b" using assms by (simp_all add: enter_one_commit_def)
  have run: "block_run (Enter # ops) b = block_run ops ?b" "block_run (Enter # ops @ [op]) b = block_step op (block_run ops ?b)" for op
    by (simp_all add: block_run_def)
  let ?s = "block_run ops ?b"
  have inside: "(\<exists>d. last_commit ops ?b d \<and> crash ?s = \<lparr>work = d, disk = d, deferred = 0\<rparr>)
      \<and> (\<forall>op. rolls_back op ?s \<longrightarrow> crash (block_step op ?s) = crash ?s \<and> work (block_step op ?s) = work (crash ?s))
      \<and> ((\<forall>op \<in> set ops. \<forall>s. \<not> own_commit op s) \<longrightarrow> crash ?s = b)" if n: "depth_after 1 ops = Some n" for n
  proof -
    have d: "last_commit ops ?b (disk ?s)" "deferred ?s = n" using block_run_deferred [of ?b ops n] n e by simp_all
    have pos: "0 < deferred ?s" using depth_after_pos [OF n] d(2) by simp
    have "crash (block_step op ?s) = crash ?s \<and> work (block_step op ?s) = work (crash ?s)" if r: "rolls_back op ?s" for op
    proof -
      have "op \<noteq> Leave" "\<not> own_commit op ?s" using r by (cases op; simp)+
      then show ?thesis using block_step_deferred [OF _ pos, of op] r by (simp add: crash_def)
    qed
    moreover have "crash ?s = b" if none: "\<forall>op \<in> set ops. \<forall>s. \<not> own_commit op s"
    proof -
      obtain pre post where p: "ops = pre @ post"
        "if pre = [] then disk ?s = disk ?b else disk ?s = work (block_run pre ?b) \<and> own_commit (last pre) (block_run (butlast pre) ?b)"
        using d(1) unfolding last_commit_def by blast
      have "pre = []" using p none by (metis UnI1 last_in_set set_append)
      then show ?thesis using p(2) e(2) assms by (simp add: crash_def)
    qed
    ultimately show ?thesis using d(1) by (auto simp: crash_def)
  qed
  have "let b' = block_run (Enter # ops @ [Leave]) b in
      deferred b' = 0 \<and> disk b' = work b' \<and> work b' = work (block_run (Enter # ops) b) \<and> crash b' = b'"
    if "depth_after 1 ops = Some 1"
  proof -
    have "deferred ?s = 1" using block_run_deferred [of ?b ops 1] that e by simp
    then show ?thesis by (simp add: run Let_def leave_one_commit_def settle_def commit_def crash_def)
  qed
  with inside show ?thesis unfolding run(1) run(2) by blast
qed

text \<open>A point and then a checkpoint are lost together; a queued output in between keeps the point.\<close>

theorem one_commit_atomic_witness:
  "let b = snd (open_buffer ''g'' empty_db) in
     crash (block_run [Enter, Append ''s'' 1 JNull, Enter, Finish ''p'' ''j''] b) = b
     \<and> point_at (crash (block_run [Enter, Append ''s'' 1 JNull, Leave] b)) ''s'' 1 = Some JNull
     \<and> (\<exists>d. crash (block_run [Enter, Append ''s'' 1 JNull, OutputsSent ''o'' [], Append ''s'' 2 JNull] b) = \<lparr>work = d, disk = d, deferred = 0\<rparr>)"
proof -
  let ?b = "snd (open_buffer ''g'' empty_db)"
  have b: "deferred ?b = 0" "disk ?b = work ?b"
    by (simp_all add: open_buffer_def load_or_mint_generation_def empty_db_def upgrade_def)
  note whole = one_commit_atomic [OF b]
  have "crash (block_run [Enter, Append ''s'' 1 JNull, Enter, Finish ''p'' ''j''] ?b) = ?b"
    using whole [of "[Append ''s'' 1 JNull, Enter, Finish ''p'' ''j'']"] by simp
  moreover have "crash (block_run [Enter, Append ''s'' 1 JNull, Leave] ?b) = block_run [Enter, Append ''s'' 1 JNull, Leave] ?b"
    using whole [of "[Append ''s'' 1 JNull]"] by (simp add: Let_def)
  moreover have "point_at (block_run [Enter, Append ''s'' 1 JNull, Leave] ?b) ''s'' 1 = Some JNull"
    by (simp add: block_run_def leave_one_commit_def enter_one_commit_def append_def point_at_def)
  moreover have "\<exists>d. crash (block_run [Enter, Append ''s'' 1 JNull, OutputsSent ''o'' [], Append ''s'' 2 JNull] ?b) = \<lparr>work = d, disk = d, deferred = 0\<rparr>"
    using whole [of "[Append ''s'' 1 JNull, OutputsSent ''o'' [], Append ''s'' 2 JNull]"] by auto
  ultimately show ?thesis by (simp add: Let_def)
qed

text \<open>An accepted gap is durable and never goes back: after any sequence of \<open>accept_gap\<close> calls,
  crashes included, \<open>accepted_gap\<close> is the largest offset accepted (0 when none was).\<close>

theorem accept_gap_is_maximum:
  assumes "disk b = work b" "db_gap (work b) = None"
  shows "accepted_gap (crash (fold accept_gap offsets b))
     = (if offsets = [] then 0 else Max (insert 0 (set offsets)))"
proof -
  have "disk (fold accept_gap os b') = work (fold accept_gap os b')
     \<and> accepted_gap (fold accept_gap os b') = fold max os (accepted_gap b')"
    if "disk b' = work b'" for os b'
    using that by (induction os arbitrary: b') (auto simp: accept_gap_def accepted_gap_def max.commute)
  from this [OF assms(1), of offsets]
  have "accepted_gap (crash (fold accept_gap offsets b)) = fold max offsets (accepted_gap b)"
    by (simp add: accepted_gap_def)
  also have "accepted_gap b = 0" using assms(2) by (simp add: accepted_gap_def)
  also have "fold max offsets 0 = Max (insert 0 (set offsets))"
    using Max.set_eq_fold [of 0 offsets] by simp
  finally show ?thesis by simp
qed

theorem accept_gap_is_maximum_witness:
  "accepted_gap (crash (fold accept_gap [7, 3] (snd (open_buffer ''g'' empty_db)))) = 7"
proof -
  have "disk (snd (open_buffer ''g'' empty_db)) = work (snd (open_buffer ''g'' empty_db))"
    "db_gap (work (snd (open_buffer ''g'' empty_db))) = None"
    by (simp_all add: open_buffer_def load_or_mint_generation_def empty_db_def upgrade_def)
  from accept_gap_is_maximum [OF this, of "[7, 3]"] show ?thesis by simp
qed

end
