(* ===== verification/Chaski_Ledger.thy ===== *)
theory Chaski_Ledger
  imports Chaski_Buffer
begin

text \<open>
  The ledger of started and answered commands, as the interface the command executor relies
  on, and its three providers: \<open>MemoryLedger\<close> and \<open>SqliteLedger\<close> of
  \<open>src/chaski/executor.py\<close> and the command ledger of \<open>Buffer\<close>.
\<close>

section \<open>The interface\<close>

text \<open>\<open>keeps now l\<close>: a \<open>started\<close> at \<open>now\<close> drops no entry of \<open>l\<close> (retention and size limits
  drop old ones).\<close>

locale command_ledger =
  fixes entry :: "string \<Rightarrow> 'l \<Rightarrow> bool \<times> json option"
    and started :: "real \<Rightarrow> string \<Rightarrow> 'l \<Rightarrow> 'l"
    and answered :: "real \<Rightarrow> string \<Rightarrow> json \<Rightarrow> 'l \<Rightarrow> 'l"
    and keeps :: "real \<Rightarrow> 'l \<Rightarrow> bool"
    and sane :: "'l \<Rightarrow> bool"
  assumes unstarted_unanswered: "\<not> fst (entry c l) \<Longrightarrow> snd (entry c l) = None"
    and started_self: "sane l \<Longrightarrow> \<not> fst (entry c l) \<Longrightarrow> entry c (started now c l) = (True, None)"
    and started_kept: "sane l \<Longrightarrow> keeps now l \<Longrightarrow> d \<noteq> c \<or> fst (entry d l) \<Longrightarrow> entry d (started now c l) = entry d l"
    and answered_self: "sane l \<Longrightarrow> entry c (answered now c a l) = (True, Some a)"
    and answered_other: "sane l \<Longrightarrow> d \<noteq> c \<Longrightarrow> entry d (answered now c a l) = entry d l"
    and sane_started: "sane l \<Longrightarrow> sane (started now c l)"
    and sane_answered: "sane l \<Longrightarrow> sane (answered now c a l)"
begin

lemma entry_stays_started:
  assumes "sane l" "fst (entry d l)"
  shows "keeps now l \<Longrightarrow> fst (entry d (started now c l))" "fst (entry d (answered now c a l))"
  using assms started_kept [of l now d c] answered_self [of l c now a] answered_other [of l d c now a]
  by (cases "d = c"; simp)+

lemma started_self_always:
  assumes "sane l" "keeps now l" shows "fst (entry c (started now c l))"
  using assms started_self [of l c now] started_kept [of l now c c] by (cases "fst (entry c l)") auto

end

text \<open>A ledger that survives a restart.\<close>

locale durable_ledger = command_ledger +
  fixes reopen :: "'a \<Rightarrow> 'a"
  assumes reopen_entry: "sane l \<Longrightarrow> entry c (reopen l) = entry c l"
    and sane_reopen: "sane l \<Longrightarrow> sane (reopen l)"

section \<open>MemoryLedger\<close>

definition ANSWERED_LIMIT :: nat where "ANSWERED_LIMIT = 4096"

type_synonym memory_ledger = "(string, json option) dict"

definition mem_entry :: "string \<Rightarrow> memory_ledger \<Rightarrow> bool \<times> json option" where
  "mem_entry cid l = (case map_of l cid of None \<Rightarrow> (False, None) | Some a \<Rightarrow> (True, a))"

text \<open>\<open>popitem(last=False)\<close> while longer than the limit.\<close>

definition mem_started :: "real \<Rightarrow> string \<Rightarrow> memory_ledger \<Rightarrow> memory_ledger" where
  "mem_started now cid l = (let l' = insert_row cid None l in drop (length l' - ANSWERED_LIMIT) l')"

definition mem_answered :: "real \<Rightarrow> string \<Rightarrow> json \<Rightarrow> memory_ledger \<Rightarrow> memory_ledger" where
  "mem_answered now cid a l = AList.update cid (Some a) l"

lemma map_of_append_single:
  "map_of d k = None \<Longrightarrow> map_of (d @ [(k, v)]) k = Some v"
  by (simp add: map_add_def)

lemma map_of_drop_None: "map_of d k = None \<Longrightarrow> map_of (drop n d) k = None"
  by (auto simp: map_of_eq_None_iff dest: in_set_dropD)

lemma mem_started_fresh:
  assumes "map_of l c = None" shows "map_of (mem_started now c l) c = Some None"
proof -
  let ?n = "Suc (length l) - ANSWERED_LIMIT"
  have "?n \<le> length l" by (simp add: ANSWERED_LIMIT_def)
  then have "mem_started now c l = drop ?n l @ [(c, None)]"
    using assms by (simp add: mem_started_def insert_row_def)
  with map_of_append_single [OF map_of_drop_None [OF assms]] show ?thesis by simp
qed

lemma mem_started_kept:
  assumes "length l < ANSWERED_LIMIT" "d \<noteq> c \<or> map_of l d \<noteq> None"
  shows "map_of (mem_started now c l) d = map_of l d"
  using assms by (auto simp: mem_started_def map_of_insert_row Let_def)

interpretation memory: command_ledger mem_entry mem_started mem_answered
    "\<lambda>now l. length l < ANSWERED_LIMIT" "\<lambda>l. True"
proof
  fix l :: memory_ledger and c d :: string and now :: real and a :: json
  show "\<not> fst (mem_entry c l) \<Longrightarrow> snd (mem_entry c l) = None"
    by (simp add: mem_entry_def split: option.splits)
  show "\<not> fst (mem_entry c l) \<Longrightarrow> mem_entry c (mem_started now c l) = (True, None)"
    using mem_started_fresh [of l c now] by (simp add: mem_entry_def split: option.splits)
  show "length l < ANSWERED_LIMIT \<Longrightarrow> d \<noteq> c \<or> fst (mem_entry d l) \<Longrightarrow> mem_entry d (mem_started now c l) = mem_entry d l"
    using mem_started_kept [of l d c now] by (auto simp: mem_entry_def split: option.splits)
  show "mem_entry c (mem_answered now c a l) = (True, Some a)"
    "d \<noteq> c \<Longrightarrow> mem_entry d (mem_answered now c a l) = mem_entry d l"
    by (simp_all add: mem_entry_def mem_answered_def)
qed simp_all

section \<open>SqliteLedger\<close>

text \<open>Autocommit (\<open>isolation_level=None\<close>): every statement is on disk when it returns.\<close>

record sqlite_ledger =
  sq_keep_s :: real
  sq_rows :: "(string, real \<times> json option) dict"

definition SQLITE_KEEP_S :: real where "SQLITE_KEEP_S = 7 * 86400"

definition mk_sqlite_ledger :: "real \<Rightarrow> (string, real \<times> json option) dict \<Rightarrow> sqlite_ledger" where
  "mk_sqlite_ledger keep_s rows = \<lparr>sq_keep_s = keep_s, sq_rows = rows\<rparr>"

text \<open>The three statements, shared with the buffer's table of the same shape.\<close>

definition rows_entry :: "string \<Rightarrow> (string, real \<times> json option) dict \<Rightarrow> bool \<times> json option" where
  "rows_entry cid rows = (case map_of rows cid of None \<Rightarrow> (False, None) | Some (_, answer) \<Rightarrow> (True, answer))"

definition rows_started :: "real \<Rightarrow> real \<Rightarrow> string \<Rightarrow> (string, real \<times> json option) dict
    \<Rightarrow> (string, real \<times> json option) dict" where
  "rows_started now keep_s cid rows =
     insert_row cid (now, None) (filter (\<lambda>r. \<not> fst (snd r) < now - keep_s) rows)"

definition rows_answered :: "real \<Rightarrow> string \<Rightarrow> json \<Rightarrow> (string, real \<times> json option) dict
    \<Rightarrow> (string, real \<times> json option) dict" where
  "rows_answered now cid a rows =
     (case map_of rows cid of
        None \<Rightarrow> rows @ [(cid, (now, Some a))]
      | Some (started, _) \<Rightarrow> AList.update cid (started, Some a) rows)"

definition sq_entry :: "string \<Rightarrow> sqlite_ledger \<Rightarrow> bool \<times> json option" where
  "sq_entry cid l = rows_entry cid (sq_rows l)"

definition sq_started :: "real \<Rightarrow> string \<Rightarrow> sqlite_ledger \<Rightarrow> sqlite_ledger" where
  "sq_started now cid l = l\<lparr>sq_rows := rows_started now (sq_keep_s l) cid (sq_rows l)\<rparr>"

definition sq_answered :: "real \<Rightarrow> string \<Rightarrow> json \<Rightarrow> sqlite_ledger \<Rightarrow> sqlite_ledger" where
  "sq_answered now cid a l = l\<lparr>sq_rows := rows_answered now cid a (sq_rows l)\<rparr>"

text \<open>No row is older than the retention at \<open>now\<close>.\<close>

definition rows_keep :: "real \<Rightarrow> real \<Rightarrow> (string, real \<times> json option) dict \<Rightarrow> bool" where
  "rows_keep now keep_s rows \<longleftrightarrow> (\<forall>r \<in> set rows. now - keep_s \<le> fst (snd r))"

lemma rows_unanswered: "\<not> fst (rows_entry c rows) \<Longrightarrow> snd (rows_entry c rows) = None"
  by (auto simp: rows_entry_def split: option.splits)

lemma rows_started_self: "\<not> fst (rows_entry c rows) \<Longrightarrow> rows_entry c (rows_started now keep c rows) = (True, None)"
  by (auto simp: rows_entry_def rows_started_def map_of_insert_row map_of_None_filter split: option.splits)

lemma rows_started_kept:
  assumes "rows_keep now keep rows" "d \<noteq> c \<or> fst (rows_entry d rows)"
  shows "rows_entry d (rows_started now keep c rows) = rows_entry d rows"
proof -
  have "filter (\<lambda>r. \<not> fst (snd r) < now - keep) rows = rows"
    using assms(1) by (auto simp: rows_keep_def filter_id_conv)
  with assms(2) show ?thesis
    by (auto simp: rows_entry_def rows_started_def map_of_insert_row split: option.splits)
qed

lemma rows_answered_self: "rows_entry c (rows_answered now c a rows) = (True, Some a)"
  by (auto simp: rows_entry_def rows_answered_def map_add_def split: option.splits)

lemma rows_answered_other: "d \<noteq> c \<Longrightarrow> rows_entry d (rows_answered now c a rows) = rows_entry d rows"
  by (auto simp: rows_entry_def rows_answered_def map_add_def split: option.splits)

text \<open>Rows started since \<open>t0\<close> stay so.\<close>

lemma rows_started_since:
  "\<forall>r \<in> set rows. t0 \<le> fst (snd r) \<Longrightarrow> t0 \<le> now \<Longrightarrow> \<forall>r \<in> set (rows_started now keep c rows). t0 \<le> fst (snd r)"
  by (auto simp: rows_started_def insert_row_def)

lemma set_alist_update: "set (AList.update k v d) \<subseteq> insert (k, v) (set d)"
  by (induction d) auto

lemma rows_answered_since:
  assumes "\<forall>r \<in> set rows. t0 \<le> fst (snd r)" "t0 \<le> now"
  shows "\<forall>r \<in> set (rows_answered now c a rows). t0 \<le> fst (snd r)"
proof (cases "map_of rows c")
  case None
  with assms show ?thesis by (auto simp: rows_answered_def)
next
  case (Some r)
  then have "t0 \<le> fst r" using assms(1) map_of_SomeD [OF Some] by force
  with Some assms(1) set_alist_update [of c "(fst r, Some a)" rows] show ?thesis
    by (cases r) (fastforce simp: rows_answered_def)
qed

interpretation sqlite: durable_ledger sq_entry sq_started sq_answered
    "\<lambda>now l. rows_keep now (sq_keep_s l) (sq_rows l)" "\<lambda>l. True" "\<lambda>l. l"
  by unfold_locales
    (auto simp: sq_entry_def sq_started_def sq_answered_def rows_unanswered rows_started_self
      rows_started_kept rows_answered_self rows_answered_other)

section \<open>The buffer's ledger\<close>

definition BUFFER_KEEP_S :: real where "BUFFER_KEEP_S = 3600"

lemma command_entry_rows: "command_entry cid b = rows_entry cid (db_ledger (work b))"
  by (simp add: command_entry_def rows_entry_def)

lemma command_started_rows:
  "db_ledger (work (command_started now keep_s cid b)) = rows_started now keep_s cid (db_ledger (work b))"
  "disk (command_started now keep_s cid b) = work (command_started now keep_s cid b)"
  by (simp_all add: command_started_def rows_started_def)

lemma command_answered_rows:
  "db_ledger (work (command_answered now cid a b)) = rows_answered now cid a (db_ledger (work b))"
  "disk (command_answered now cid a b) = work (command_answered now cid a b)"
  by (simp_all add: command_answered_def rows_answered_def)

interpretation buffered: durable_ledger command_entry "\<lambda>now. command_started now BUFFER_KEEP_S" command_answered
    "\<lambda>now b. rows_keep now BUFFER_KEEP_S (db_ledger (work b))" "\<lambda>b. db_ledger (disk b) = db_ledger (work b)" crash
  by unfold_locales
    (auto simp: command_entry_rows command_started_rows command_answered_rows rows_unanswered rows_started_self
      rows_started_kept rows_answered_self rows_answered_other)

end
