(* ===== verification/Chaski_Command.thy ===== *)
theory Chaski_Command
  imports Chaski_Prelude
begin

text \<open>
  Sending a command and waiting for its outcome: \<open>src/chaski/command.py\<close> (\<open>Actor\<close>,
  \<open>check_operation_id\<close>, \<open>CommandSender\<close>, \<open>SentCommand\<close>). The MQTT client, the ULIDs and the
  clock are arguments; \<open>prefix\<close> is \<open>topic_prefix()\<close> of the data contracts package.
\<close>

section \<open>Envelope fields\<close>

definition OPERATION_ID_MAX :: nat where "OPERATION_ID_MAX = 128"
definition ACTOR_FIELD_MAX :: nat where "ACTOR_FIELD_MAX = 255"
definition ACTOR_KINDS :: "string list" where "ACTOR_KINDS = [''human'', ''service'', ''system'']"

record actor =
  a_id :: string
  a_label :: string
  a_kind :: string

definition actor_envelope :: "actor \<Rightarrow> (string, json) dict" where
  "actor_envelope a = [(''id'', JStr (a_id a)), (''kind'', JStr (a_kind a))] @
     (if a_label a \<noteq> [] then [(''label'', JStr (a_label a))] else [])"

definition has_control :: "string \<Rightarrow> bool" where
  "has_control s = (\<exists>c \<in> set s. (of_char c :: nat) < 0x20 \<or> (of_char c :: nat) = 0x7F)"

datatype actor_arg = AnActor actor | AnId string | AnObject "(string, json) dict" | AnotherValue

fun is_str :: "json \<Rightarrow> bool" where
  "is_str (JStr _) = True"
| "is_str _ = False"

fun str_field :: "json option \<Rightarrow> string \<Rightarrow> string" where
  "str_field (Some (JStr s)) _ = s"
| "str_field _ dflt = dflt"

definition parse_actor :: "actor_arg \<Rightarrow> actor outcome" where
  "parse_actor v = (case v of
       AnActor a \<Rightarrow> Inr a
     | AnId i \<Rightarrow> Inr \<lparr>a_id = i, a_label = '''', a_kind = ''human''\<rparr>
     | AnObject d \<Rightarrow>
         let fields = filter (\<lambda>kv. fst kv \<in> {''id'', ''label'', ''kind''} \<and> snd kv \<noteq> JNull) d in
         if \<not> fst ` set d \<subseteq> {''id'', ''label'', ''kind''} then Inl EnvelopeError
         else if \<not> (\<forall>kv \<in> set fields. is_str (snd kv)) then Inl EnvelopeError
         else if map_of fields ''id'' = None then Inr \<lparr>a_id = '''', a_label = '''', a_kind = ''human''\<rparr>
         else Inr \<lparr>a_id = str_field (map_of fields ''id'') '''',
                   a_label = str_field (map_of fields ''label'') '''',
                   a_kind = str_field (map_of fields ''kind'') ''human''\<rparr>
     | AnotherValue \<Rightarrow> Inl EnvelopeError)"

definition coerce :: "actor_arg \<Rightarrow> actor outcome" where
  "coerce v = bind_outcome (parse_actor v) (\<lambda>a.
     if \<forall>c \<in> set (a_id a). is_space c then Inl EnvelopeError
     else if ACTOR_FIELD_MAX < length (a_id a) \<or> ACTOR_FIELD_MAX < length (a_label a) then Inl EnvelopeError
     else if a_kind a \<notin> set ACTOR_KINDS then Inl EnvelopeError
     else if has_control (a_id a) \<or> has_control (a_label a) then Inl EnvelopeError
     else Inr a)"

definition check_operation_id :: "json \<Rightarrow> string outcome" where
  "check_operation_id v = (case v of
       JStr s \<Rightarrow>
         if s = [] then Inl EnvelopeError
         else if OPERATION_ID_MAX < length s then Inl EnvelopeError
         else if CHR ''/'' \<in> set s \<or> has_control s then Inl EnvelopeError
         else Inr s
     | _ \<Rightarrow> Inl EnvelopeError)"

section \<open>The sender\<close>

definition PROGRESS :: int where "PROGRESS = 202"
definition WAITER_LIMIT :: nat where "WAITER_LIMIT = 4096"

text \<open>\<open>ack.get("result_code") == 202\<close>: an equal float compares equal too.\<close>

definition is_progress :: "(string, json) dict \<Rightarrow> bool" where
  "is_progress ack = (case map_of ack ''result_code'' of
       Some (JInt n) \<Rightarrow> n = PROGRESS
     | Some (JFloat (Fin r)) \<Rightarrow> r = real_of_int PROGRESS
     | _ \<Rightarrow> False)"

record waiter =
  w_done :: bool
  w_ack :: "(string, json) dict"
  w_progress :: "(string, json) dict list"

definition new_waiter :: waiter where
  "new_waiter = \<lparr>w_done = False, w_ack = [], w_progress = []\<rparr>"

text \<open>\<open>waiters\<close> are the waiter objects by correlation id; a \<open>SentCommand\<close> keeps a reference
  to its own, so one that left \<open>_waiters\<close> (the list \<open>registered\<close>) is still there.\<close>

record sender =
  sd_node :: string
  sd_topics :: "string list"
  registered :: "string list"
  sd_waiters :: "(string, waiter) dict"

definition mk_sender :: "string \<Rightarrow> sender" where
  "mk_sender node = \<lparr>sd_node = node, sd_topics = [], registered = [], sd_waiters = []\<rparr>"

record sent_command =
  sc_correlation :: string
  sc_topic :: string
  sc_ack_topic :: string
  sc_expires_at :: "int option"

text \<open>What goes to the client, in order.\<close>

datatype mqtt_call = Subscribe string | PublishJson string "(string, json) dict"

text \<open>\<open>int(x)\<close> truncates towards zero.\<close>

definition trunc :: "real \<Rightarrow> int" where
  "trunc x = (if x < 0 then \<lceil>x\<rceil> else \<lfloor>x\<rfloor>)"

definition sd_forget :: "string \<Rightarrow> sender \<Rightarrow> sender" where
  "sd_forget cid s = s\<lparr>registered := filter (\<lambda>c. c \<noteq> cid) (registered s)\<rparr>"

definition envelope_fields :: "json option \<Rightarrow> actor_arg option \<Rightarrow> (string, json) dict outcome" where
  "envelope_fields operation_id on_behalf_of =
     bind_outcome (case operation_id of None \<Rightarrow> Inr []
       | Some v \<Rightarrow> bind_outcome (check_operation_id v) (\<lambda>op. Inr [(''operation_id'', JStr op)]))
     (\<lambda>env. case on_behalf_of of None \<Rightarrow> Inr env
       | Some v \<Rightarrow> bind_outcome (coerce v) (\<lambda>a. Inr (env @ [(''on_behalf_of'', JObj (actor_envelope a))])))"

definition expiry :: "real \<Rightarrow> real option \<Rightarrow> real option \<Rightarrow> int option" where
  "expiry now lifetime expires_by = (case lifetime of None \<Rightarrow> None
     | Some l \<Rightarrow> let e = trunc ((now + l) * 1000)
                in Some (case expires_by of None \<Rightarrow> e | Some d \<Rightarrow> min e \<lfloor>d * 1000\<rfloor>))"

text \<open>\<open>confirmed\<close>: the client's publish returned (a PUBACK came) rather than raised.\<close>

definition send_command :: "string \<Rightarrow> real \<Rightarrow> string \<Rightarrow> bool \<Rightarrow> string \<Rightarrow> string \<Rightarrow> (string, json) dict
    \<Rightarrow> real option \<Rightarrow> string option \<Rightarrow> bool \<Rightarrow> json option \<Rightarrow> actor_arg option \<Rightarrow> real option
    \<Rightarrow> sender \<Rightarrow> sent_command outcome \<times> mqtt_call list \<times> sender" where
  "send_command prefix now cid confirmed contract path flds lifetime node progress operation_id
     on_behalf_of expires_by s =
     (if \<exists>l \<in> set_option lifetime. l \<le> 0 then (Inl ValueError, [], s)
      else case envelope_fields operation_id on_behalf_of of
        Inl e \<Rightarrow> (Inl e, [], s)
      | Inr envelope \<Rightarrow>
          let target = (case node of Some n \<Rightarrow> if n = [] then sd_node s else n | None \<Rightarrow> sd_node s);
              topic = prefix @ contract @ ''/'' @ target @ ''/'' @ path;
              ack_topic = prefix @ ''_Ack/'' @ target @ ''/'' @ path;
              expires_at = expiry now lifetime expires_by;
              regs = filter (\<lambda>c. c \<noteq> cid) (registered s) @ [cid];
              fresh = ack_topic \<notin> set (sd_topics s);
              s' = s\<lparr>sd_waiters := AList.update cid new_waiter (sd_waiters s),
                     registered := drop (length regs - WAITER_LIMIT) regs,
                     sd_topics := (if fresh then sd_topics s @ [ack_topic] else sd_topics s)\<rparr>;
              payload = foldl (\<lambda>d (k, v). AList.update k v d) flds
                (envelope @ [(''correlation_id'', JStr cid)]
                 @ (case expires_at of None \<Rightarrow> [] | Some e \<Rightarrow> [(''expires_at'', JInt e)])
                 @ (if progress then [(''progress'', JBool True)] else []));
              calls = (if fresh then [Subscribe ack_topic] else []) @ [PublishJson topic payload]
          in if confirmed
             then (Inr \<lparr>sc_correlation = cid, sc_topic = topic, sc_ack_topic = ack_topic,
                        sc_expires_at = expires_at\<rparr>, calls, s')
             else (Inl Unavailable, calls, sd_forget cid s'))"

text \<open>\<open>_on_ack\<close>: \<open>payload\<close> is the decoded object, \<open>None\<close> for anything else; \<open>py_str\<close> is
  Python's \<open>str\<close> for values other than strings.\<close>

definition correlation_of :: "(json \<Rightarrow> string) \<Rightarrow> (string, json) dict \<Rightarrow> string" where
  "correlation_of py_str payload = (case map_of payload ''correlation_id'' of
       Some (JStr s) \<Rightarrow> s
     | Some v \<Rightarrow> if truthy v then py_str v else ''''
     | None \<Rightarrow> '''')"

definition on_ack :: "(json \<Rightarrow> string) \<Rightarrow> (string, json) dict option \<Rightarrow> sender \<Rightarrow> sender" where
  "on_ack py_str payload s = (case payload of None \<Rightarrow> s
     | Some ack \<Rightarrow>
         let cid = correlation_of py_str ack in
         if cid \<notin> set (registered s) then s
         else case map_of (sd_waiters s) cid of None \<Rightarrow> s
           | Some w \<Rightarrow>
               if w_done w then s
               else if is_progress ack
                 then s\<lparr>sd_waiters := AList.update cid (w\<lparr>w_progress := w_progress w @ [ack]\<rparr>) (sd_waiters s)\<rparr>
               else s\<lparr>sd_waiters := AList.update cid (w\<lparr>w_ack := ack, w_done := True\<rparr>) (sd_waiters s)\<rparr>)"

text \<open>\<open>SentCommand.wait\<close> once the event was set or the timeout passed; \<open>None\<close> is the
  \<open>TimeoutError\<close>.\<close>

definition wait_outcome :: "string \<Rightarrow> sender \<Rightarrow> (string, json) dict option \<times> sender" where
  "wait_outcome cid s = (case map_of (sd_waiters s) cid of
       Some w \<Rightarrow> if w_done w then (Some (w_ack w), sd_forget cid s) else (None, s)
     | None \<Rightarrow> (None, s))"

definition sent_progress :: "string \<Rightarrow> sender \<Rightarrow> (string, json) dict list" where
  "sent_progress cid s = (case map_of (sd_waiters s) cid of Some w \<Rightarrow> w_progress w | None \<Rightarrow> [])"

section \<open>Lemmas\<close>

definition actor_ok :: "actor \<Rightarrow> bool" where
  "actor_ok a \<longleftrightarrow> (\<exists>c \<in> set (a_id a). \<not> is_space c) \<and> length (a_id a) \<le> 255 \<and> length (a_label a) \<le> 255
     \<and> a_kind a \<in> {''human'', ''service'', ''system''} \<and> \<not> has_control (a_id a) \<and> \<not> has_control (a_label a)"

lemma coerce_Inr: "coerce v = Inr a \<longleftrightarrow> parse_actor v = Inr a \<and> actor_ok a"
  by (cases "parse_actor v")
    (auto simp: coerce_def actor_ok_def ACTOR_FIELD_MAX_def ACTOR_KINDS_def not_less)

lemma parse_actor_envelope: "parse_actor (AnObject (actor_envelope a)) = Inr a"
  by (cases "a_label a = []") (simp_all add: parse_actor_def actor_envelope_def Let_def)

text \<open>What a waiter shows after a list of acks.\<close>

definition acks_for :: "(json \<Rightarrow> string) \<Rightarrow> string \<Rightarrow> (string, json) dict option list \<Rightarrow> (string, json) dict list" where
  "acks_for py_str cid ps = filter (\<lambda>a. correlation_of py_str a = cid) (List.map_filter id ps)"

fun waiter_after :: "(string, json) dict list \<Rightarrow> waiter \<Rightarrow> waiter" where
  "waiter_after [] w = w"
| "waiter_after (a # acks) w =
     (if w_done w then w
      else if is_progress a then waiter_after acks (w\<lparr>w_progress := w_progress w @ [a]\<rparr>)
      else w\<lparr>w_ack := a, w_done := True\<rparr>)"

lemma waiter_after_done [simp]: "w_done w \<Longrightarrow> waiter_after acks w = w"
  by (cases acks) auto

lemma registered_on_ack [simp]: "registered (on_ack f p s) = registered s"
  by (auto simp: on_ack_def Let_def split: option.splits)

lemma on_acks_waiter:
  assumes "cid \<in> set (registered s)" "map_of (sd_waiters s) cid = Some w"
  shows "map_of (sd_waiters (fold (on_ack f) ps s)) cid = Some (waiter_after (acks_for f cid ps) w)"
  using assms
proof (induction ps arbitrary: s w)
  case (Cons p ps)
  let ?w = "waiter_after (acks_for f cid [p]) w"
  have "map_of (sd_waiters (on_ack f p s)) cid = Some ?w"
    using Cons.prems
    by (auto simp: on_ack_def acks_for_def List.map_filter_simps Let_def split: option.splits)
  with Cons.IH [of "on_ack f p s" ?w] Cons.prems(1)
  have "map_of (sd_waiters (fold (on_ack f) (p # ps) s)) cid = Some (waiter_after (acks_for f cid ps) ?w)" by simp
  also have "waiter_after (acks_for f cid ps) ?w = waiter_after (acks_for f cid (p # ps)) w"
    by (cases p) (auto simp: acks_for_def List.map_filter_simps)
  finally show ?case .
qed (simp add: acks_for_def List.map_filter_simps)

lemma waiter_after_takeWhile:
  assumes "\<not> w_done w"
  shows "w_progress (waiter_after acks w) = w_progress w @ takeWhile is_progress acks"
    and "w_done (waiter_after acks w) \<longleftrightarrow> dropWhile is_progress acks \<noteq> []"
    and "dropWhile is_progress acks \<noteq> [] \<Longrightarrow> w_ack (waiter_after acks w) = hd (dropWhile is_progress acks)"
  using assms by (induction acks w rule: waiter_after.induct) auto

section \<open>Properties\<close>

text \<open>Only valid actors pass, and the wire form round-trips: whatever \<open>Actor.coerce\<close> accepts
  has a visible id, bounded fields without control characters and a known kind, and coercing its
  \<open>envelope()\<close> gives the same actor back, from which the executor reads who was meant.\<close>

theorem actor_envelope_roundtrip:
  "(coerce v = Inr a \<longrightarrow> actor_ok a \<and> coerce (AnObject (actor_envelope a)) = Inr a)
   \<and> (actor_ok a \<longrightarrow> coerce (AnActor a) = Inr a)"
  by (simp add: coerce_Inr parse_actor_envelope) (simp add: parse_actor_def)

theorem actor_envelope_roundtrip_witness:
  "coerce (AnObject (actor_envelope \<lparr>a_id = ''u1'', a_label = '''', a_kind = ''human''\<rparr>))
     = Inr \<lparr>a_id = ''u1'', a_label = '''', a_kind = ''human''\<rparr>"
proof -
  have "coerce (AnId ''u1'') = Inr \<lparr>a_id = ''u1'', a_label = '''', a_kind = ''human''\<rparr>"
    by (simp add: coerce_Inr parse_actor_def actor_ok_def has_control_def is_space_def)
  with actor_envelope_roundtrip [of "AnId ''u1''"] show ?thesis by blast
qed

text \<open>A sent command's outcome is its first ack that is not progress. After a confirmed send and
  any acks (other commands' included), \<open>wait\<close> returns the first non-progress ack that carries its
  correlation id and nothing when none came, \<open>progress\<close> holds the progress acks before it in arrival
  order, and the sender keeps at most 4096 waiters, the newest among them.\<close>

theorem first_outcome_wins:
  assumes "send_command prefix now cid True contract path flds lifetime node prog op obo by s = (Inr sent, calls, s1)"
  shows "let s2 = fold (on_ack py_str) ps s1; acks = acks_for py_str cid ps in
     fst (wait_outcome cid s2) =
       (case dropWhile is_progress acks of [] \<Rightarrow> None | a # _ \<Rightarrow> Some a)
     \<and> sent_progress cid s2 = takeWhile is_progress acks
     \<and> cid \<in> set (registered s2) \<and> length (registered s2) \<le> WAITER_LIMIT"
proof -
  have s1: "map_of (sd_waiters s1) cid = Some new_waiter" "cid \<in> set (registered s1)"
      "length (registered s1) \<le> WAITER_LIMIT"
    using assms by (auto simp: send_command_def Let_def WAITER_LIMIT_def split: if_splits sum.splits)
  have reg: "registered (fold (on_ack py_str) ps s1) = registered s1"
    by (induction ps arbitrary: s1) auto
  note w = on_acks_waiter [OF s1(2,1), of py_str ps]
  have nd: "\<not> w_done new_waiter" by (simp add: new_waiter_def)
  note t = waiter_after_takeWhile [OF nd, of "acks_for py_str cid ps"]
  have prog: "w_progress new_waiter = []" by (simp add: new_waiter_def)
  show ?thesis
  proof (cases "dropWhile is_progress (acks_for py_str cid ps)")
    case Nil
    with s1 reg w t(1,2) prog show ?thesis
      by (simp only: Let_def wait_outcome_def sent_progress_def) simp
  next
    case (Cons a acks)
    with s1 reg w t prog show ?thesis
      by (simp only: Let_def wait_outcome_def sent_progress_def) simp
  qed
qed

theorem first_outcome_wins_witness:
  "let s1 = snd (snd (send_command ''r/v1/'' 0 ''c1'' True ''_CmdX'' ''p'' [] None None False None None None (mk_sender ''n''))) in
     fst (wait_outcome ''c1'' (fold (on_ack (\<lambda>_. []))
       [Some [(''correlation_id'', JStr ''c1''), (''result_code'', JInt 202)],
        Some [(''correlation_id'', JStr ''c1''), (''result_code'', JInt 200)]] s1))
     = Some [(''correlation_id'', JStr ''c1''), (''result_code'', JInt 200)]"
proof -
  obtain sent calls s1 where r: "send_command ''r/v1/'' 0 ''c1'' True ''_CmdX'' ''p'' [] None None False None None None
      (mk_sender ''n'') = (Inr sent, calls, s1)"
    by (simp add: send_command_def envelope_fields_def Let_def)
  show ?thesis
    using first_outcome_wins [OF r, of "\<lambda>_. []" "[Some [(''correlation_id'', JStr ''c1''), (''result_code'', JInt 202)],
        Some [(''correlation_id'', JStr ''c1''), (''result_code'', JInt 200)]]"]
    by (simp add: r Let_def acks_for_def List.map_filter_simps correlation_of_def is_progress_def PROGRESS_def)
qed

end
