(* ===== verification/Chaski_Streams.thy ===== *)
theory Chaski_Streams
  imports Chaski_Prelude
begin

text \<open>
  Reading a stream through a durable cursor: \<open>Page\<close> and \<open>Stream\<close> of \<open>src/chaski/door.py\<close>,
  \<open>_drain\<close> and \<open>consume\<close> of \<open>src/chaski/consume.py\<close>, \<open>StreamChange\<close>, \<open>StreamChanges._record\<close> and
  \<open>BatchWait\<close> of \<open>src/chaski/stream_changes.py\<close>. The node is not in the repository: its answers to
  \<open>/fetch\<close> are the argument \<open>fetch\<close>, and what its documentation promises is \<open>node_ok\<close>.
\<close>

section \<open>Pages\<close>

text \<open>A record of the stream; the \<open>actor\<close> fields are the node's attestation.\<close>

record record_ =
  r_offset :: int
  r_topic :: string
  r_payload :: json
  r_ts :: real
  r_actor_id :: string
  r_actor_label :: string
  r_actor_kind :: string

record gap =
  g_from :: int
  g_to :: int

record page =
  p_records :: "record_ list"
  p_next :: int
  p_gap :: "gap option"
  p_start :: "int option"

definition ack_offset :: "page \<Rightarrow> int option" where
  "ack_offset p =
     (if p_records p \<noteq> [] then Some (max (r_offset (last (p_records p))) (p_next p - 1))
      else if \<exists>s \<in> set_option (p_start p). s < p_next p
        then Some (case p_gap p of None \<Rightarrow> p_next p - 1 | Some g \<Rightarrow> max (g_to g) (p_next p - 1))
      else map_option g_to (p_gap p))"

section \<open>Stream changes\<close>

record stream_change =
  ch_head :: "int option"
  ch_subscription :: nat

definition covers :: "stream_change \<Rightarrow> int \<Rightarrow> nat option \<Rightarrow> bool" where
  "covers ch position drained_on \<longleftrightarrow>
     (\<exists>h \<in> set_option (ch_head ch). h \<le> position) \<and> drained_on = Some (ch_subscription ch)"

text \<open>\<open>_record\<close>: \<open>signals\<close> are the watched streams, \<open>narrowed\<close> whether \<open>contracts\<close> is given.\<close>

definition record_hint :: "string list \<Rightarrow> bool \<Rightarrow> string list \<Rightarrow> (string, int) dict \<Rightarrow> nat
    \<Rightarrow> (string, stream_change) dict \<Rightarrow> (string \<times> stream_change) list \<times> (string, stream_change) dict" where
  "record_hint signals narrowed streams offsets subscription latest =
     (let changes = map (\<lambda>s. (s, \<lparr>ch_head = (if narrowed then None
                            else map_option (\<lambda>n. max 0 (n - 1)) (map_of offsets s)),
                          ch_subscription = subscription\<rparr>))
            (filter (\<lambda>s. s \<in> set signals) streams)
      in (changes, foldl (\<lambda>d (s, c). AList.update s c d) latest changes))"

datatype woke = RANG | TIMED_OUT | RESUMED | STOPPED

definition woke_true :: "woke \<Rightarrow> bool" where
  "woke_true w = (w = RESUMED)"

definition mk_batch_interval :: "real \<Rightarrow> real outcome" where
  "mk_batch_interval interval = (if 0 \<le> interval \<and> interval \<le> 30 then Inr interval else Inl ValueError)"

text \<open>\<open>BatchWait.wait\<close>: \<open>retry\<close>: a retry wait; \<open>resume = Some r\<close>: it had a \<open>resume\<close> bell, which rang (\<open>r\<close>);
  \<open>rang\<close>: what \<open>signal.wait\<close> returned; \<open>stopped\<close>: \<open>stop\<close> is set at the end. The pause before the
  drain lasts \<open>max 0 (started + interval - now)\<close>.\<close>

definition batch_wait :: "bool \<Rightarrow> bool option \<Rightarrow> bool \<Rightarrow> bool \<Rightarrow> woke" where
  "batch_wait retry resume rang stopped =
     (let w = (if retry then (case resume of None \<Rightarrow> TIMED_OUT | Some r \<Rightarrow> if r then RESUMED else TIMED_OUT)
               else if rang then RANG else TIMED_OUT)
      in if stopped then STOPPED else w)"

definition batch_pause :: "real \<Rightarrow> real \<Rightarrow> real \<Rightarrow> real" where
  "batch_pause started interval now = max 0 (started + interval - now)"

section \<open>The cursor\<close>

text \<open>What the handler of \<open>_drain\<close> does with one record: it returns, it raises \<open>Reject\<close> (and the
  rejection is recorded, or recording it fails), or it raises something else.\<close>

datatype handled = Handles | Rejects | RejectFails | Fails

text \<open>What becomes of one \<open>POST /ack\<close>.\<close>

datatype ack_fate = Answered_ok | NotReached | AnswerLost

datatype consumed = Handled record_ | RejectionRecorded record_

text \<open>\<open>acknowledged\<close> is what this process knows, \<open>cursor\<close> the node's position: the next offset to
  read. \<open>fetches\<close>, \<open>calls\<close> and \<open>acks\<close> count what was done, to index the arguments.\<close>

record stream =
  acknowledged :: int
  cursor :: int
  moved :: nat
  fetches :: nat
  calls :: nat
  acks :: nat
  processed :: "consumed list"

text \<open>The node and the handler: the \<open>n\<close>-th fetch from a position, the fate of the \<open>n\<close>-th ack, the
  outcome of the \<open>n\<close>-th handler call, and whether \<open>stop\<close> is set after \<open>n\<close> calls.\<close>

record world =
  fetch :: "nat \<Rightarrow> int \<Rightarrow> page"
  fate :: "nat \<Rightarrow> ack_fate"
  handler :: "nat \<Rightarrow> record_ \<Rightarrow> handled"
  stops :: "nat \<Rightarrow> bool"

definition advance :: "int \<Rightarrow> stream \<Rightarrow> stream" where
  "advance offset s =
     (if acknowledged s < offset then s\<lparr>acknowledged := offset, moved := moved s + 1\<rparr> else s)"

text \<open>\<open>Stream.ack\<close>: True when the request was answered. The node never moves a cursor back.\<close>

definition ack :: "world \<Rightarrow> int \<Rightarrow> stream \<Rightarrow> bool \<times> stream" where
  "ack w offset s =
     (if offset \<le> acknowledged s then (True, s)
      else let s' = s\<lparr>acks := acks s + 1\<rparr>; there = s'\<lparr>cursor := max (cursor s) (offset + 1)\<rparr>
           in case fate w (acks s) of
                NotReached \<Rightarrow> (False, s')
              | AnswerLost \<Rightarrow> (False, there)
              | Answered_ok \<Rightarrow> (True, advance offset there))"

definition observe_page :: "page \<Rightarrow> int \<Rightarrow> stream \<Rightarrow> stream" where
  "observe_page p before s =
     (case p_start p of
        Some st \<Rightarrow>
          (if st - 1 < before \<and> acknowledged s = before
           then s\<lparr>acknowledged := st - 1, moved := moved s + 1\<rparr> else s)
      | None \<Rightarrow> s)"

definition retire_cursor :: "stream \<Rightarrow> stream" where
  "retire_cursor s = s\<lparr>acknowledged := 0, moved := moved s + 1\<rparr>"

definition caught_up :: "int \<Rightarrow> stream \<Rightarrow> bool" where
  "caught_up head s = (head \<le> acknowledged s)"

text \<open>The records of one page through the handler: \<open>Some r\<close> is the record it failed at.\<close>

fun handle_page :: "world \<Rightarrow> record_ list \<Rightarrow> stream \<Rightarrow> record_ option \<times> bool \<times> stream" where
  "handle_page w [] s = (None, stops w (calls s), s)"
| "handle_page w (r # rs) s =
     (if stops w (calls s) then (None, True, s)
      else let s' = s\<lparr>calls := calls s + 1\<rparr> in
        case handler w (calls s) r of
          Handles \<Rightarrow> handle_page w rs (s'\<lparr>processed := processed s @ [Handled r]\<rparr>)
        | Rejects \<Rightarrow> handle_page w rs (s'\<lparr>processed := processed s @ [RejectionRecorded r]\<rparr>)
        | RejectFails \<Rightarrow> (Some r, False, s')
        | Fails \<Rightarrow> (Some r, False, s'))"

datatype drained = Drained | DrainStopped | GapFound gap | NotThere | AckFailed | HandlerFailed record_

text \<open>What follows the records of a page; \<open>Some\<close>: the drain is over.\<close>

definition after_page :: "world \<Rightarrow> int \<Rightarrow> page \<Rightarrow> stream \<Rightarrow> drained option \<times> stream" where
  "after_page w head p s =
     (case ack_offset p of
        None \<Rightarrow>
          if p_next p \<le> head then (Some NotThere, s)
          else (Some Drained, if p_records p = [] \<and> p_gap p = None then advance (p_next p - 1) s else s)
      | Some a \<Rightarrow>
          (case ack w a s of
             (False, s') \<Rightarrow> (Some AckFailed, s')
           | (True, s') \<Rightarrow> (if head \<le> a then Some Drained else None, s')))"

definition drain_page :: "world \<Rightarrow> int \<Rightarrow> bool \<Rightarrow> stream \<Rightarrow> drained option \<times> stream" where
  "drain_page w head first s =
     (if stops w (calls s) then (Some DrainStopped, s)
      else
        let p = fetch w (fetches s) (cursor s);
            s = s\<lparr>fetches := fetches s + 1\<rparr>;
            s = (if first then observe_page p (acknowledged s) s else s)
        in case p_gap p of
             Some g \<Rightarrow> (Some (GapFound g), s)
           | None \<Rightarrow>
               (case handle_page w (p_records p) s of
                  (Some r, _, s') \<Rightarrow>
                    (Some (HandlerFailed r), if 1 < r_offset r then snd (ack w (r_offset r - 1) s') else s')
                | (None, True, s') \<Rightarrow> (Some DrainStopped, s')
                | (None, False, s') \<Rightarrow> after_page w head p s'))"

text \<open>The loop of \<open>Stream.drain\<close> as \<open>consume._drain\<close> runs it; \<open>None\<close>: it does not end.\<close>

partial_function (option) drain :: "world \<Rightarrow> int \<Rightarrow> bool \<Rightarrow> stream \<Rightarrow> (drained \<times> stream) option" where
  "drain w head first s =
     (case drain_page w head first s of
        (Some d, s') \<Rightarrow> Some (d, s')
      | (None, s') \<Rightarrow> drain w head False s')"

text \<open>One round of \<open>consume\<close>: skip when the hint is covered, else drain; \<open>drained_on\<close> moves on a drain
  that completed. A gap ends the consumer.\<close>

definition consume_round :: "world \<Rightarrow> int \<Rightarrow> stream_change option \<Rightarrow> nat option \<Rightarrow> stream
    \<Rightarrow> (drained option \<times> nat option \<times> stream) option" where
  "consume_round w tail change drained_on s =
     (if \<exists>ch \<in> set_option change. covers ch (acknowledged s) drained_on then Some (None, drained_on, s)
      else
        let head = (case change of Some ch \<Rightarrow> (case ch_head ch of Some h \<Rightarrow> h | None \<Rightarrow> tail) | None \<Rightarrow> tail)
        in Option.bind (drain w head True s) (\<lambda>(d, s').
             Some (Some d,
               (if d \<in> {Drained, DrainStopped} \<and> change \<noteq> None then map_option ch_subscription change else drained_on),
               s')))"

section \<open>What the node promises\<close>

text \<open>\<open>log\<close> is every record of the stream the cursor's filter selects, in stream order. A page read
  from \<open>p\<close> holds exactly those from \<open>p\<close> up to its \<open>next\<close>, and a \<open>start\<close> it reports is \<open>p\<close>.\<close>

definition page_ok :: "record_ list \<Rightarrow> int \<Rightarrow> page \<Rightarrow> bool" where
  "page_ok lg p pg \<longleftrightarrow>
     p \<le> p_next pg \<and> (p_start pg = None \<or> p_start pg = Some p)
     \<and> p_records pg = filter (\<lambda>r. p \<le> r_offset r \<and> r_offset r < p_next pg) lg"

definition node_ok :: "record_ list \<Rightarrow> world \<Rightarrow> bool" where
  "node_ok lg w \<longleftrightarrow> sorted (map r_offset lg) \<and> (\<forall>n p. p_gap (fetch w n p) = None \<longrightarrow> page_ok lg p (fetch w n p))"

section \<open>Lemmas\<close>

fun consumed_record :: "consumed \<Rightarrow> record_" where
  "consumed_record (Handled r) = r"
| "consumed_record (RejectionRecorded r) = r"

text \<open>Every record of the log from \<open>p0\<close> on that the node's cursor or this process's position passed
  was consumed.\<close>

definition stream_inv :: "record_ list \<Rightarrow> int \<Rightarrow> stream \<Rightarrow> bool" where
  "stream_inv lg p0 s \<longleftrightarrow> p0 \<le> cursor s
     \<and> (\<forall>r \<in> set lg. p0 \<le> r_offset r \<and> (r_offset r < cursor s \<or> r_offset r \<le> acknowledged s) \<longrightarrow> r \<in> consumed_record ` set (processed s))"

lemma advance_simps [simp]:
  "cursor (advance x s) = cursor s" "processed (advance x s) = processed s" "calls (advance x s) = calls s"
  "acknowledged (advance x s) = max x (acknowledged s)"
  by (auto simp: advance_def)

lemma ack_simps [simp]:
  "processed (snd (ack w x s)) = processed s" "calls (snd (ack w x s)) = calls s"
  by (auto simp: ack_def Let_def split: ack_fate.splits)

lemma ack_cursor:
  "cursor (snd (ack w x s)) = cursor s \<or> cursor (snd (ack w x s)) = max (cursor s) (x + 1)"
  "acknowledged (snd (ack w x s)) = acknowledged s \<or> acknowledged (snd (ack w x s)) = max x (acknowledged s)"
  by (auto simp: ack_def Let_def split: ack_fate.splits)

lemma ack_answered: "fst (ack w x s) \<Longrightarrow> x \<le> acknowledged (snd (ack w x s))"
  by (auto simp: ack_def Let_def split: if_splits ack_fate.splits)

text \<open>Acknowledging \<open>x\<close> is sound when every record up to \<open>x\<close> was consumed.\<close>

lemma stream_inv_ack [inv_intros]:
  assumes "stream_inv lg p0 s"
    and "\<forall>r \<in> set lg. p0 \<le> r_offset r \<and> r_offset r \<le> x \<longrightarrow> r \<in> consumed_record ` set (processed s)"
  shows "stream_inv lg p0 (snd (ack w x s))"
  using assms ack_cursor [of w x s] by (auto simp: stream_inv_def max_def split: if_splits)

lemma handle_page_result:
  assumes "handle_page w rs s = (failed, stopped, s')"
  shows "cursor s' = cursor s \<and> acknowledged s' = acknowledged s
     \<and> set (processed s) \<subseteq> set (processed s')
     \<and> (failed = None \<and> \<not> stopped \<longrightarrow> set rs \<subseteq> consumed_record ` set (processed s'))
     \<and> (\<forall>r. failed = Some r \<longrightarrow> (\<exists>pre post. rs = pre @ r # post \<and> set pre \<subseteq> consumed_record ` set (processed s')))"
  using assms
proof (induction rs arbitrary: s)
  case (Cons r rs)
  show ?case
  proof (cases "\<not> stops w (calls s) \<and> handler w (calls s) r \<in> {Handles, Rejects}")
    case False
    then show ?thesis using Cons.prems
      by (auto simp: Let_def intro: exI [of _ "[]"] split: if_splits handled.splits)
  next
    case True
    have "\<exists>e s1. handle_page w rs s1 = (failed, stopped, s') \<and> consumed_record e = r
      \<and> processed s1 = processed s @ [e] \<and> cursor s1 = cursor s \<and> acknowledged s1 = acknowledged s"
    proof (cases "handler w (calls s) r")
      case Handles
      then show ?thesis using True Cons.prems
        by (intro exI [of _ "Handled r"] exI [of _ "s\<lparr>calls := calls s + 1, processed := processed s @ [Handled r]\<rparr>"])
          (simp add: Let_def)
    next
      case Rejects
      then show ?thesis using True Cons.prems
        by (intro exI [of _ "RejectionRecorded r"]
            exI [of _ "s\<lparr>calls := calls s + 1, processed := processed s @ [RejectionRecorded r]\<rparr>"])
          (simp add: Let_def)
    qed (use True in auto)
    then obtain e s1 where s1: "handle_page w rs s1 = (failed, stopped, s')" "consumed_record e = r"
      "processed s1 = processed s @ [e]" "cursor s1 = cursor s" "acknowledged s1 = acknowledged s" by blast
    note IH = Cons.IH [OF s1(1)]
    then have "e \<in> set (processed s')" using s1(3) by auto
    then have mem: "r \<in> consumed_record ` set (processed s')" using s1(2) by force
    have "\<exists>pre post. r # rs = pre @ x # post \<and> set pre \<subseteq> consumed_record ` set (processed s')" if x: "failed = Some x" for x
    proof -
      from IH x obtain pre post where "rs = pre @ x # post" "set pre \<subseteq> consumed_record ` set (processed s')"
        by blast
      with mem show ?thesis by (intro exI [of _ "r # pre"] exI [of _ post]) auto
    qed
    with IH mem s1(3-5) show ?thesis by auto
  qed
qed auto

text \<open>A page read from the node's cursor keeps the invariant whatever becomes of it.\<close>

lemma filter_split_sorted:
  assumes "sorted (map f xs)" "xs = pre @ x # post" "y \<in> set xs" "f y < f x"
  shows "y \<in> set pre"
proof -
  have "\<forall>z \<in> set post. f x \<le> f z" using assms(1,2) by (auto simp: sorted_append)
  with assms(2-4) show ?thesis by (auto simp: not_less)
qed

lemma stream_inv_processed:
  "stream_inv lg p0 s \<Longrightarrow> cursor s' = cursor s \<Longrightarrow> acknowledged s' = acknowledged s \<Longrightarrow>
     set (processed s) \<subseteq> set (processed s') \<Longrightarrow> stream_inv lg p0 s'"
  unfolding stream_inv_def by (metis (no_types, lifting) image_mono in_mono)

lemma page_offsets:
  assumes "page_ok lg p pg" "r \<in> set (p_records pg)" shows "p \<le> r_offset r \<and> r_offset r < p_next pg"
  using assms by (auto simp: page_ok_def)

lemma ack_offset_next:
  assumes "page_ok lg p pg" "p_gap pg = None" "ack_offset pg = Some a"
  shows "a = p_next pg - 1"
proof (cases "p_records pg = []")
  case False
  then have "r_offset (last (p_records pg)) < p_next pg" using page_offsets [OF assms(1)] by simp
  with assms(3) False show ?thesis by (simp add: ack_offset_def)
next
  case True
  with assms(2,3) show ?thesis by (auto simp: ack_offset_def split: if_splits)
qed

lemma page_up_to_next:
  assumes "stream_inv lg p0 s" "page_ok lg (cursor s) pg"
    and "set (p_records pg) \<subseteq> consumed_record ` set (processed s)" "r \<in> set lg" "p0 \<le> r_offset r" "r_offset r < p_next pg"
  shows "r \<in> consumed_record ` set (processed s)"
  using assms by (cases "r_offset r < cursor s") (auto simp: stream_inv_def page_ok_def)

lemma after_page_inv:
  assumes "stream_inv lg p0 s" "page_ok lg (cursor s) pg" "p_gap pg = None"
    and "set (p_records pg) \<subseteq> consumed_record ` set (processed s)"
  shows "stream_inv lg p0 (snd (after_page w head pg s))"
proof (cases "ack_offset pg")
  case None
  then have "stream_inv lg p0 (advance (p_next pg - 1) s)"
    using assms(1) page_up_to_next [OF assms(1,2,4)] by (auto simp: stream_inv_def)
  with None assms(1) show ?thesis by (simp add: after_page_def)
next
  case (Some a)
  then have "a = p_next pg - 1" using ack_offset_next assms(2,3) by blast
  then have "stream_inv lg p0 (snd (ack w a s))"
    using page_up_to_next [OF assms(1,2,4)] by (intro stream_inv_ack assms(1)) auto
  with Some show ?thesis by (auto simp: after_page_def split: prod.splits bool.splits)
qed


lemma observe_page_simps [simp]:
  "cursor (observe_page p b s) = cursor s" "processed (observe_page p b s) = processed s"
  "calls (observe_page p b s) = calls s" "fetches (observe_page p b s) = fetches s"
  by (auto simp: observe_page_def split: option.splits)

lemma stream_inv_observe [inv_intros]:
  assumes "stream_inv lg p0 s" shows "stream_inv lg p0 (observe_page pg b s)"
  using assms by (auto simp: stream_inv_def observe_page_def split: option.splits)

lemma drain_page_inv [inv_intros]:
  assumes "node_ok lg w" "stream_inv lg p0 s" shows "stream_inv lg p0 (snd (drain_page w head first s))"
proof (cases "stops w (calls s)")
  case True
  with assms show ?thesis by (simp add: drain_page_def)
next
  case False
  let ?p = "fetch w (fetches s) (cursor s)"
  let ?s1 = "s\<lparr>fetches := fetches s + 1\<rparr>"
  let ?s = "if first then observe_page ?p (acknowledged ?s1) ?s1 else ?s1"
  have s1: "stream_inv lg p0 ?s1" using assms(2) by (simp add: stream_inv_def)
  show ?thesis
  proof (cases "p_gap ?p")
    case (Some g)
    with s1 stream_inv_observe [OF s1, of ?p] False show ?thesis by (auto simp: drain_page_def Let_def)
  next
    case None
    then have ok: "page_ok lg (cursor s) ?p" using assms(1) by (simp add: node_ok_def)
    then have inv: "stream_inv lg p0 ?s" using s1 stream_inv_observe [OF s1, of ?p] by simp
    obtain failed stopped s' where h: "handle_page w (p_records ?p) ?s = (failed, stopped, s')" by (metis surj_pair)
    note r = handle_page_result [OF h]
    have inv': "stream_inv lg p0 s'" using stream_inv_processed [OF inv] r by blast
    have cur: "cursor s' = cursor s" using r by (simp split: if_splits)
    show ?thesis
    proof (cases failed)
      case (Some x)
      with r obtain pre post where rs: "p_records ?p = pre @ x # post" "set pre \<subseteq> consumed_record ` set (processed s')" by blast
      have srt: "sorted (map r_offset (p_records ?p))"
        using assms(1) ok by (simp add: node_ok_def page_ok_def sorted_filter)
      have "\<forall>y \<in> set lg. p0 \<le> r_offset y \<and> r_offset y \<le> r_offset x - 1 \<longrightarrow> y \<in> consumed_record ` set (processed s')"
      proof (intro ballI impI)
        fix y assume y: "y \<in> set lg" "p0 \<le> r_offset y \<and> r_offset y \<le> r_offset x - 1"
        have x: "r_offset x < p_next ?p" using page_offsets [OF ok] rs(1) by simp
        show "y \<in> consumed_record ` set (processed s')"
        proof (cases "r_offset y < cursor s")
          case True
          with y inv' cur show ?thesis by (auto simp: stream_inv_def)
        next
          case False
          then have "y \<in> set (p_records ?p)" using y x ok by (simp add: page_ok_def)
          then have "y \<in> set pre" using filter_split_sorted [OF srt rs(1)] y by simp
          with rs(2) show ?thesis by blast
        qed
      qed
      with stream_inv_ack [OF inv'] inv' Some h None False show ?thesis
        by (auto simp: drain_page_def Let_def)
    next
      case none: None
      show ?thesis
      proof (cases stopped)
        case True
        with inv' none h None False show ?thesis by (auto simp: drain_page_def Let_def)
      next
        case go: False
        have "stream_inv lg p0 (snd (after_page w head ?p s'))"
          using after_page_inv [OF inv' _ None] ok cur r none go by simp
        with none go h None False show ?thesis by (auto simp: drain_page_def Let_def)
      qed
    qed
  qed
qed

lemma drain_inv:
  assumes "drain w head first s = Some r" "node_ok lg w" "stream_inv lg p0 s"
  shows "stream_inv lg p0 (snd r)"
proof -
  have "node_ok lg w \<longrightarrow> stream_inv lg p0 s \<longrightarrow> stream_inv lg p0 (snd r)"
  proof (rule drain.raw_induct [where P = "\<lambda>w head first s r. node_ok lg w \<longrightarrow> stream_inv lg p0 s \<longrightarrow> stream_inv lg p0 (snd r)",
        OF _ assms(1)])
    fix dr :: "world \<Rightarrow> int \<Rightarrow> bool \<Rightarrow> stream \<Rightarrow> (drained \<times> stream) option" and w head first s and r :: "drained \<times> stream"
    assume IH: "\<And>w head first s r. dr w head first s = Some r \<Longrightarrow> node_ok lg w \<longrightarrow> stream_inv lg p0 s \<longrightarrow> stream_inv lg p0 (snd r)"
      and step: "(case drain_page w head first s of (None, s') \<Rightarrow> dr w head False s' | (Some d, s') \<Rightarrow> Some (d, s')) = Some r"
    show "node_ok lg w \<longrightarrow> stream_inv lg p0 s \<longrightarrow> stream_inv lg p0 (snd r)"
    proof (intro impI)
      assume "node_ok lg w" "stream_inv lg p0 s"
      with drain_page_inv [of lg w p0 s head first] IH step show "stream_inv lg p0 (snd r)"
        by (cases "drain_page w head first s") (auto split: option.splits)
    qed
  qed
  with assms(2,3) show ?thesis by blast
qed

text \<open>What \<open>Drained\<close> means: every record up to the head was consumed.\<close>

definition upto_head :: "record_ list \<Rightarrow> int \<Rightarrow> int \<Rightarrow> stream \<Rightarrow> bool" where
  "upto_head lg p0 head s \<longleftrightarrow>
     (\<forall>r \<in> set lg. p0 \<le> r_offset r \<and> r_offset r \<le> head \<longrightarrow> r \<in> consumed_record ` set (processed s))"

lemma after_page_drained:
  assumes "after_page w head pg s = (Some Drained, s')" "stream_inv lg p0 s" "page_ok lg (cursor s) pg"
    and "p_gap pg = None" "set (p_records pg) \<subseteq> consumed_record ` set (processed s)"
  shows "upto_head lg p0 head s'"
proof -
  have "head < p_next pg"
  proof (cases "ack_offset pg")
    case None
    with assms(1) show ?thesis by (auto simp: after_page_def split: if_splits)
  next
    case (Some a)
    with ack_offset_next [OF assms(3,4) Some] assms(1) show ?thesis
      by (auto simp: after_page_def split: prod.splits bool.splits if_splits)
  qed
  moreover have "processed s' = processed s"
    using assms(1) by (auto simp: after_page_def split: option.splits if_splits prod.splits bool.splits)
      (metis ack_simps(1) snd_conv)
  ultimately show ?thesis using page_up_to_next [OF assms(2,3,5)] by (auto simp: upto_head_def)
qed

lemma drain_page_drained:
  assumes "drain_page w head first s = (Some Drained, s')" "node_ok lg w" "stream_inv lg p0 s"
  shows "upto_head lg p0 head s'"
proof -
  let ?p = "fetch w (fetches s) (cursor s)"
  let ?s1 = "s\<lparr>fetches := fetches s + 1\<rparr>"
  let ?s = "if first then observe_page ?p (acknowledged ?s1) ?s1 else ?s1"
  have s1: "stream_inv lg p0 ?s1" using assms(3) by (simp add: stream_inv_def)
  obtain failed stopped s2 where h: "handle_page w (p_records ?p) ?s = (failed, stopped, s2)" by (metis surj_pair)
  note r = handle_page_result [OF h]
  from assms(1) h have go: "p_gap ?p = None" "failed = None" "\<not> stopped" "after_page w head ?p s2 = (Some Drained, s')"
    by (auto simp: drain_page_def Let_def split: if_splits option.splits prod.splits bool.splits)
  have ok: "page_ok lg (cursor s) ?p" using assms(2) go(1) by (simp add: node_ok_def)
  have "stream_inv lg p0 ?s" using s1 stream_inv_observe [OF s1, of ?p] by simp
  then have "stream_inv lg p0 s2" using stream_inv_processed r by blast
  moreover have "cursor s2 = cursor s" using r by (simp split: if_splits)
  ultimately show ?thesis using after_page_drained [OF go(4)] ok go r by simp
qed

text \<open>A page that does not end the drain moved the node's cursor.\<close>

lemma drain_page_progress:
  assumes "drain_page w head first s = (None, s')" "node_ok lg w" "first \<or> acknowledged s < cursor s"
    and "\<And>n p. p_start (fetch w n p) = Some p"
  shows "cursor s < cursor s' \<and> acknowledged s' < cursor s' \<and> cursor s \<le> head"
proof -
  let ?p = "fetch w (fetches s) (cursor s)"
  let ?s1 = "s\<lparr>fetches := fetches s + 1\<rparr>"
  let ?s = "if first then observe_page ?p (acknowledged ?s1) ?s1 else ?s1"
  obtain failed stopped s2 where h: "handle_page w (p_records ?p) ?s = (failed, stopped, s2)" by (metis surj_pair)
  note r = handle_page_result [OF h]
  from assms(1) h have go: "p_gap ?p = None" "failed = None" "\<not> stopped" "after_page w head ?p s2 = (None, s')"
    by (auto simp: drain_page_def Let_def split: if_splits option.splits prod.splits bool.splits)
  have ok: "page_ok lg (cursor s) ?p" using assms(2) go(1) by (simp add: node_ok_def)
  have behind: "acknowledged s2 < cursor s" "cursor s2 = cursor s"
    using r assms(3,4) by (auto simp: observe_page_def split: if_splits)
  from go(4) obtain a where a: "ack_offset ?p = Some a" "ack w a s2 = (True, s')" "a < head"
    by (auto simp: after_page_def split: option.splits if_splits prod.splits bool.splits)
  have an: "a = p_next ?p - 1" using ack_offset_next [OF ok go(1) a(1)] .
  have "cursor s \<le> a"
  proof (cases "p_records ?p = []")
    case True
    with a(1) assms(4) an go(1) show ?thesis by (auto simp: ack_offset_def split: if_splits)
  next
    case False
    then have "cursor s \<le> r_offset (last (p_records ?p)) \<and> r_offset (last (p_records ?p)) < p_next ?p"
      using page_offsets [OF ok] by simp
    with an show ?thesis by simp
  qed
  with a(2,3) behind show ?thesis
    by (auto simp: ack_def Let_def advance_def split: if_splits ack_fate.splits)
qed

lemma drain_returns:
  assumes "node_ok lg w" "\<And>n p. p_start (fetch w n p) = Some p" "first \<or> acknowledged s < cursor s"
  shows "\<exists>r. drain w head first s = Some r"
  using assms(3)
proof (induction "nat (head + 1 - cursor s)" arbitrary: s first rule: less_induct)
  case less
  obtain d s' where p: "drain_page w head first s = (d, s')" by fastforce
  show ?case
  proof (cases d)
    case (Some x)
    with p show ?thesis by (subst drain.simps) simp
  next
    case None
    with p drain_page_progress [of w head first s s' lg] assms(1,2) less.prems
    have pr: "cursor s < cursor s'" "acknowledged s' < cursor s'" "cursor s \<le> head" by auto
    then have "\<exists>r. drain w head False s' = Some r" by (intro less.hyps) auto
    with p None show ?thesis by (subst drain.simps) simp
  qed
qed

lemma drain_drained:
  assumes "drain w head first s = Some r" "node_ok lg w" "stream_inv lg p0 s"
  shows "fst r = Drained \<longrightarrow> upto_head lg p0 head (snd r)"
proof -
  let ?P = "\<lambda>w head first s r. node_ok lg w \<longrightarrow> stream_inv lg p0 s \<longrightarrow> fst r = Drained \<longrightarrow> upto_head lg p0 head (snd r)"
  have "?P w head first s r"
  proof (rule drain.raw_induct [where P = ?P, OF _ assms(1)])
    fix dr :: "world \<Rightarrow> int \<Rightarrow> bool \<Rightarrow> stream \<Rightarrow> (drained \<times> stream) option" and w head first s and r :: "drained \<times> stream"
    assume IH: "\<And>w head first s r. dr w head first s = Some r \<Longrightarrow> ?P w head first s r"
      and step: "(case drain_page w head first s of (None, s') \<Rightarrow> dr w head False s' | (Some d, s') \<Rightarrow> Some (d, s')) = Some r"
    show "?P w head first s r"
    proof (intro impI)
      assume a: "node_ok lg w" "stream_inv lg p0 s" "fst r = Drained"
      obtain d s' where p: "drain_page w head first s = (d, s')" by fastforce
      show "upto_head lg p0 head (snd r)"
      proof (cases d)
        case None
        with step p have "dr w head False s' = Some r" by simp
        with IH a drain_page_inv [OF a(1,2), of head first] p show ?thesis by fastforce
      next
        case (Some x)
        with step p a drain_page_drained [OF _ a(1,2), of head first s'] show ?thesis by auto
      qed
    qed
  qed
  with assms(2,3) show ?thesis by blast
qed

section \<open>A consumer over its life\<close>

text \<open>Rounds of \<open>consume\<close> (each with the head it would read and the newest hint) and restarts of the
  process, which forget the position and the drained subscription; the node keeps the cursor.\<close>

datatype life = Round int "stream_change option" | Restart

fun live :: "world \<Rightarrow> life \<Rightarrow> nat option \<times> stream \<Rightarrow> (nat option \<times> stream) option" where
  "live w (Round tail change) (drained_on, s) =
     map_option (\<lambda>(d, on, s'). (on, s')) (consume_round w tail change drained_on s)"
| "live w Restart (drained_on, s) = Some (None, s\<lparr>acknowledged := 0\<rparr>)"

fun lives :: "world \<Rightarrow> life list \<Rightarrow> nat option \<times> stream \<Rightarrow> (nat option \<times> stream) option" where
  "lives w [] c = Some c"
| "lives w (l # ls) c = Option.bind (live w l c) (lives w ls)"

definition open_stream :: "int \<Rightarrow> stream" where
  "open_stream stored = \<lparr>acknowledged = 0, cursor = stored, moved = 0, fetches = 0, calls = 0, acks = 0, processed = []\<rparr>"

lemma stream_inv_restart: "stream_inv lg p0 s \<Longrightarrow> 1 \<le> p0 \<Longrightarrow> stream_inv lg p0 (s\<lparr>acknowledged := 0\<rparr>)"
  by (auto simp: stream_inv_def)

lemma consume_round_inv:
  assumes "consume_round w tail change on s = Some (d, on', s')" "node_ok lg w" "stream_inv lg p0 s"
  shows "stream_inv lg p0 s'"
  using assms drain_inv [of w _ True s _ lg p0]
  by (fastforce simp: consume_round_def Let_def bind_eq_Some_conv split: if_splits)

lemma lives_inv:
  assumes "node_ok lg w" "1 \<le> p0" "stream_inv lg p0 (snd c)" "lives w ls c = Some c'"
  shows "stream_inv lg p0 (snd c')"
  using assms(3,4)
proof (induction ls arbitrary: c)
  case (Cons l ls)
  then obtain c1 where c1: "live w l c = Some c1" "lives w ls c1 = Some c'" by (auto simp: bind_eq_Some_conv)
  have "stream_inv lg p0 (snd c1)"
  proof (cases l)
    case (Round tail change)
    with c1(1) Cons.prems(1) assms(1) show ?thesis by (cases c) (auto intro: consume_round_inv)
  next
    case Restart
    with c1(1) Cons.prems(1) assms(2) show ?thesis by (cases c) (auto intro: stream_inv_restart)
  qed
  with Cons.IH c1(2) show ?case by blast
qed simp

section \<open>Properties\<close>

text \<open>C11: No record is passed unhandled. Over a whole life of a consumer (rounds of \<open>consume\<close>, restarts,
  failing handlers, fetches and acks that fail or whose answer is lost), every record of the stream
  at or after the stored position it opened with, and behind the node's cursor or the position this
  process knows, was handled or its rejection recorded. A hint it skips as covered leaves no record
  up to the hint's head unread.\<close>

theorem never_passed_unhandled:
  assumes "node_ok lg w" "1 \<le> stored" "lives w ls (None, open_stream stored) = Some (on, s)"
  shows "(\<forall>r \<in> set lg. stored \<le> r_offset r \<and> (r_offset r < cursor s \<or> r_offset r \<le> acknowledged s) \<longrightarrow>
            Handled r \<in> set (processed s) \<or> RejectionRecorded r \<in> set (processed s))
     \<and> (\<forall>ch h. covers ch (acknowledged s) on \<and> ch_head ch = Some h \<longrightarrow>
          (\<forall>r \<in> set lg. stored \<le> r_offset r \<and> r_offset r \<le> h \<longrightarrow>
             Handled r \<in> set (processed s) \<or> RejectionRecorded r \<in> set (processed s)))"
proof -
  have "stream_inv lg stored (open_stream stored)"
    using assms(2) by (auto simp: stream_inv_def open_stream_def)
  then have inv: "stream_inv lg stored s" using lives_inv [OF assms(1,2) _ assms(3)] by simp
  have mem: "Handled r \<in> set (processed s) \<or> RejectionRecorded r \<in> set (processed s)"
    if "r \<in> consumed_record ` set (processed s)" for r
  proof -
    from that obtain e where e: "e \<in> set (processed s)" "r = consumed_record e" by auto
    show ?thesis using e(1) unfolding e(2) by (cases e rule: consumed.exhaust) simp_all
  qed
  show ?thesis using inv mem by (fastforce simp: stream_inv_def covers_def)
qed

text \<open>C12: A drain ends, and when it ends at the head it read everything. Against a node that reports
  where it read and never reports a page that overlaps, a drain started by \<open>consume\<close> returns after
  finitely many pages whatever the handler does; if it returns \<open>Drained\<close>, every record from the
  stored position up to the captured head was handled or its rejection recorded.\<close>

theorem drain_reaches_head:
  assumes "node_ok lg w" "\<forall>n p. p_start (fetch w n p) = Some p" "stream_inv lg stored s"
  shows "\<exists>d s'. drain w head True s = Some (d, s')
     \<and> (d = Drained \<longrightarrow> (\<forall>r \<in> set lg. stored \<le> r_offset r \<and> r_offset r \<le> head \<longrightarrow>
            r \<in> consumed_record ` set (processed s')))"
proof -
  obtain r where "drain w head True s = Some r" using drain_returns [OF assms(1)] assms(2) by blast
  with drain_drained [OF this assms(1,3)] show ?thesis by (cases r) (auto simp: upto_head_def)
qed

section \<open>A node for the witnesses\<close>

definition two_records :: "record_ list" where
  "two_records = map (\<lambda>n. \<lparr>r_offset = n, r_topic = ''t'', r_payload = JNull, r_ts = 0,
     r_actor_id = [], r_actor_label = [], r_actor_kind = []\<rparr>) [1, 2]"

text \<open>It reads one record past the position per page; the handler fails once, at its second call.\<close>

definition small_world :: world where
  "small_world = \<lparr>
     fetch = (\<lambda>n p. \<lparr>p_records = filter (\<lambda>r. p \<le> r_offset r \<and> r_offset r < p + 1) two_records,
                     p_next = p + 1, p_gap = None, p_start = Some p\<rparr>),
     fate = (\<lambda>n. Answered_ok), handler = (\<lambda>n r. if n = 1 then Fails else Handles), stops = (\<lambda>n. False)\<rparr>"

lemma small_world_ok: "node_ok two_records small_world" "\<forall>n p. p_start (fetch small_world n p) = Some p"
  by (simp_all add: node_ok_def page_ok_def small_world_def two_records_def)

theorem drain_reaches_head_witness:
  "\<exists>d s'. drain small_world 2 True (open_stream 1) = Some (d, s')
     \<and> (d = Drained \<longrightarrow> (\<forall>r \<in> set two_records. 1 \<le> r_offset r \<and> r_offset r \<le> 2 \<longrightarrow>
            r \<in> consumed_record ` set (processed s')))"
  by (rule drain_reaches_head [OF small_world_ok]) (auto simp: stream_inv_def open_stream_def)

theorem never_passed_unhandled_witness:
  "\<exists>on s. lives small_world [Round 2 None, Restart, Round 2 None] (None, open_stream 1) = Some (on, s)
     \<and> (\<forall>r \<in> set two_records. 1 \<le> r_offset r \<and> r_offset r < cursor s \<longrightarrow>
          Handled r \<in> set (processed s) \<or> RejectionRecorded r \<in> set (processed s))"
proof -
  have step: "\<exists>on' s'. live small_world (Round 2 None) (on, s) = Some (on', s')" for on s
    using drain_returns [OF small_world_ok(1), of True s 2] small_world_ok(2)
    by (auto simp: consume_round_def)
  obtain on1 s1 where 1: "live small_world (Round 2 None) (None, open_stream 1) = Some (on1, s1)" using step by blast
  obtain on s where "live small_world (Round 2 None) (None, s1\<lparr>acknowledged := 0\<rparr>) = Some (on, s)" using step by blast
  with 1 have "lives small_world [Round 2 None, Restart, Round 2 None] (None, open_stream 1) = Some (on, s)"
    by (simp del: live.simps(1))
  with never_passed_unhandled [OF small_world_ok(1) _ this] show ?thesis by auto
qed

end
