(* ===== verification/Chaski_Executor.thy ===== *)
theory Chaski_Executor
  imports Chaski_Ledger Chaski_Command Chaski_Exceptions Chaski_Streams
begin

text \<open>
  Executing a command and answering it: \<open>src/chaski/executor.py\<close> (\<open>CommandExecutor.handle\<close>
  and what it calls). \<open>handle\<close> reads the ledger first and then only acts, so it is modelled
  as the list of its effects in the order of the code: what the ledger records, the handler's
  run, the confirmed publish of the answer. Stopping or crashing in the middle is a prefix of
  that list. The handler's outcome and the successive readings of the clock are arguments.
\<close>

section \<open>Commands\<close>

definition ACK_OK :: int where "ACK_OK = 200"
definition ACK_FORBIDDEN :: int where "ACK_FORBIDDEN = 403"
definition ACK_CONFLICT :: int where "ACK_CONFLICT = 409"
definition ACK_INVALID :: int where "ACK_INVALID = 422"
definition ACK_EXPIRED :: int where "ACK_EXPIRED = 498"
definition ACK_FAILED :: int where "ACK_FAILED = 500"
definition ACK_BUSY :: int where "ACK_BUSY = 503"
definition ACK_UNKNOWN :: int where "ACK_UNKNOWN = 504"

record command =
  c_path :: string
  c_verb :: string
  c_contract :: string
  c_params :: "(string, json) dict"
  c_correlation :: string
  c_expires_at :: "fl option"
  c_actor_id :: string
  c_actor_label :: string
  c_actor_kind :: string
  c_ts :: real
  c_offset :: int
  c_operation :: string
  c_on_behalf_of :: "actor option"

text \<open>What the executor gets from outside: its node id, \<open>topic_prefix()\<close>, Python's \<open>str\<close> of a
  value that is no string, \<open>float\<close> of a text, SHA-256 of the sorted JSON text, and the keys
  of \<open>handlers\<close>.\<close>

record exec_env =
  e_node :: string
  e_prefix :: string
  e_str :: "json \<Rightarrow> string"
  e_float :: "string \<Rightarrow> fl option"
  e_sha256 :: "json \<Rightarrow> string"
  e_handlers :: "(string \<times> string) list"

definition parse_topic :: "string \<Rightarrow> (string \<times> string) option" where
  "parse_topic topic =
     (let parts = split_on CHR ''/'' topic in
      if length parts < 5 then None else Some (parts ! 2, join ''/'' (drop 4 parts)))"

text \<open>\<open>float(raw)\<close>, \<open>None\<close> for a \<open>TypeError\<close> or \<open>ValueError\<close>.\<close>

fun to_float :: "(string \<Rightarrow> fl option) \<Rightarrow> json option \<Rightarrow> fl option" where
  "to_float pf (Some (JInt n)) = Some (Fin (of_int n))"
| "to_float pf (Some (JFloat f)) = Some f"
| "to_float pf (Some (JBool b)) = Some (Fin (if b then 1 else 0))"
| "to_float pf (Some (JStr s)) = pf s"
| "to_float pf _ = None"

fun fl_less :: "fl \<Rightarrow> real \<Rightarrow> bool" where
  "fl_less (Fin r) x = (r < x)"
| "fl_less NegInf x = True"
| "fl_less _ x = False"

definition expired :: "(string \<Rightarrow> fl option) \<Rightarrow> json option \<Rightarrow> real \<Rightarrow> bool" where
  "expired pf expires_at now_ms = (case to_float pf expires_at of None \<Rightarrow> False | Some f \<Rightarrow> fl_less f now_ms)"

definition deadline :: "(string \<Rightarrow> fl option) \<Rightarrow> json option \<Rightarrow> fl option" where
  "deadline pf raw = to_float pf raw"

definition obj_of :: "json \<Rightarrow> (string, json) dict" where
  "obj_of v = (case v of JObj d \<Rightarrow> d | _ \<Rightarrow> [])"

definition last_part :: "string \<Rightarrow> string" where
  "last_part path = last (split_on CHR ''/'' path)"

text \<open>The envelope: the operation id and the person acted for, or the refusal.\<close>

definition read_envelope :: "(string, json) dict \<Rightarrow> string \<Rightarrow> string
    \<Rightarrow> string \<times> actor option \<times> int option" where
  "read_envelope payload actor_kind actor_id =
     (let op = (case map_of payload ''operation_id'' of
                  None \<Rightarrow> Inr '''' | Some JNull \<Rightarrow> Inr '''' | Some v \<Rightarrow> check_operation_id v);
          obo = (case map_of payload ''on_behalf_of'' of
                  None \<Rightarrow> Inr None
                | Some JNull \<Rightarrow> Inr None
                | Some (JObj d) \<Rightarrow> bind_outcome (coerce (AnObject d)) (\<lambda>a. Inr (Some a))
                | Some _ \<Rightarrow> Inl EnvelopeError)
      in case op of
           Inl _ \<Rightarrow> ('''', None, Some ACK_INVALID)
         | Inr op_id \<Rightarrow>
             (case obo of
                Inl _ \<Rightarrow> (op_id, None, Some ACK_INVALID)
              | Inr person \<Rightarrow>
                  (op_id, person,
                   if \<exists>a \<in> set_option person. actor_kind = ''human'' \<and> a_id a \<noteq> actor_id
                   then Some ACK_FORBIDDEN else None)))"

definition mk_command :: "exec_env \<Rightarrow> string \<times> string \<Rightarrow> (string, json) dict \<Rightarrow> record_
    \<Rightarrow> string \<Rightarrow> actor option \<Rightarrow> command" where
  "mk_command env key payload r op_id person =
     \<lparr>c_path = snd key, c_verb = last_part (snd key), c_contract = fst key,
      c_params = (case map_of payload ''command'' of Some v \<Rightarrow> obj_of v | None \<Rightarrow> []),
      c_correlation = correlation_of (e_str env) payload,
      c_expires_at = deadline (e_float env) (map_of payload ''expires_at''),
      c_actor_id = r_actor_id r, c_actor_label = r_actor_label r, c_actor_kind = r_actor_kind r,
      c_ts = r_ts r, c_offset = r_offset r, c_operation = op_id, c_on_behalf_of = person\<rparr>"

definition ack_topic :: "exec_env \<Rightarrow> string \<Rightarrow> string" where
  "ack_topic env path = e_prefix env @ ''_Ack/'' @ e_node env @ ''/'' @ path"

section \<open>Operations\<close>

text \<open>\<open>json.dumps\<close> of a text: the escapes of the ASCII encoder.\<close>

definition hex_digit :: "nat \<Rightarrow> char" where
  "hex_digit n = ''0123456789abcdef'' ! n"

definition esc :: "char \<Rightarrow> string" where
  "esc c =
     (let n = of_char c :: nat; bs = CHR 0x5C; dq = CHR 0x22 in
      if c = dq then [bs, dq]
      else if c = bs then [bs, bs]
      else if n = 10 then [bs, CHR ''n'']
      else if n = 13 then [bs, CHR ''r'']
      else if n = 9 then [bs, CHR ''t'']
      else if n = 12 then [bs, CHR ''f'']
      else if n = 8 then [bs, CHR ''b'']
      else if n < 32 \<or> 126 < n
        then [bs, CHR ''u'', CHR ''0'', CHR ''0'', hex_digit (n div 16), hex_digit (n mod 16)]
      else [c])"

definition dumps_str :: "string \<Rightarrow> string" where
  "dumps_str s = (let dq = CHR 0x22 in dq # concat (map esc s) @ [dq])"

definition operation_key :: "command \<Rightarrow> string option" where
  "operation_key c =
     (if c_operation c = [] then None
      else Some (''op'' @ CHR 0x1F # ''['' @ dumps_str (c_actor_id c) @ '', '' @
                 dumps_str (c_operation c) @ '']''))"

definition operation_digest :: "exec_env \<Rightarrow> command \<Rightarrow> string" where
  "operation_digest env c = e_sha256 env (JObj
     [(''contract'', JStr (c_contract c)), (''path'', JStr (c_path c)), (''command'', JObj (c_params c)),
      (''on_behalf_of'', case c_on_behalf_of c of None \<Rightarrow> JNull | Some a \<Rightarrow> JObj (actor_envelope a))])"

type_synonym result = "(string, json) dict option"

definition operation_record :: "string \<Rightarrow> int \<Rightarrow> string \<Rightarrow> result \<Rightarrow> json" where
  "operation_record digest code message res = JObj
     [(''digest'', JStr digest), (''result_code'', JInt code), (''message'', JStr message),
      (''result'', case res of None \<Rightarrow> JNull | Some d \<Rightarrow> if d = [] then JNull else JObj d)]"

section \<open>Answers\<close>

definition answer_body :: "real \<Rightarrow> string \<Rightarrow> int \<Rightarrow> string \<Rightarrow> result \<Rightarrow> command option \<Rightarrow> bool \<Rightarrow> json" where
  "answer_body now cid code message res c replayed = JObj
     ([(''correlation_id'', JStr cid), (''result_code'', JInt code), (''message'', JStr message),
       (''performed_at'', JFloat (Fin now))]
      @ (case res of Some (kv # d) \<Rightarrow> [(''result'', JObj (kv # d))] | _ \<Rightarrow> [])
      @ (case c of Some c' \<Rightarrow> if c_operation c' \<noteq> [] then [(''operation_id'', JStr (c_operation c'))] else []
         | None \<Rightarrow> [])
      @ (case Option.bind c c_on_behalf_of of Some a \<Rightarrow> [(''on_behalf_of'', JObj (actor_envelope a))] | None \<Rightarrow> [])
      @ (if replayed then [(''replayed'', JBool True)] else []))"

text \<open>What a handler did.\<close>

datatype handler_outcome =
    Rejected int string result
  | WriteRefused string
  | HttpFailed nat
  | Raised exn_heap nat
  | ReturnedText "string option"
  | ReturnedResult string "(string, json) dict"

definition run_handler :: "handler_outcome \<Rightarrow> int \<times> string \<times> result" where
  "run_handler h = (case h of
       Rejected code message res \<Rightarrow> (code, message, res)
     | WriteRefused text \<Rightarrow> (ACK_FAILED, take 200 (''the command failed: '' @ text), None)
     | HttpFailed code \<Rightarrow>
         if code = 429 then (ACK_BUSY, ''the node is busy; send the command again'', None)
         else (ACK_FAILED, ''the command failed: the node answered '' @ dec code, None)
     | Raised heap i \<Rightarrow>
         if unconfirmed_write heap i then (ACK_UNKNOWN, ''outcome unknown: a write was sent but the node '' @
             ''did not confirm it in time; it may still take effect'', None)
         else (ACK_FAILED, (case map_of heap i of None \<Rightarrow> ''the command failed: ''
             | Some e \<Rightarrow> take 200 (''the command failed: '' @ ename e @ '': '' @ etext e)), None)
     | ReturnedText t \<Rightarrow> (ACK_OK, (case t of None \<Rightarrow> '''' | Some s \<Rightarrow> s), None)
     | ReturnedResult message res \<Rightarrow> (ACK_OK, message, Some res))"

section \<open>Effects of one command\<close>

datatype effect =
    Started real string
  | Execute command
  | Answered real string json
  | Publish string string json

definition stopped_message :: string where
  "stopped_message = ''outcome unknown: the service stopped while executing this operation; it may have taken effect''"

definition restart_message :: string where
  "restart_message = ''outcome unknown: the service stopped while executing it; it may have taken effect''"

text \<open>\<open>_replay\<close>. An entry whose digest matches was written by \<open>operation_record\<close>, so its
  \<open>result_code\<close> is an integer.\<close>

definition replay :: "real \<Rightarrow> string option \<Rightarrow> string \<Rightarrow> json option
    \<Rightarrow> effect list \<times> int \<times> string \<times> result \<times> bool" where
  "replay now key digest recorded = (case recorded of
       None \<Rightarrow>
         ((case key of None \<Rightarrow> []
           | Some k \<Rightarrow> [Answered now k (operation_record digest ACK_UNKNOWN stopped_message None)]),
          ACK_UNKNOWN, stopped_message, None, True)
     | Some entry \<Rightarrow>
         let d = obj_of entry in
         if map_of d ''digest'' \<noteq> Some (JStr digest)
         then ([], ACK_CONFLICT, ''refused: this operation_id was already used for a different command; not executed'',
               Some [(''outcome'', JStr ''refused'')], False)
         else ([], (case map_of d ''result_code'' of Some (JInt n) \<Rightarrow> n | _ \<Rightarrow> 0),
               str_field (map_of d ''message'') '''',
               (case map_of d ''result'' of Some (JObj r) \<Rightarrow> Some r | _ \<Rightarrow> None), True))"

text \<open>\<open>_link_before\<close>: \<open>up\<close> is the link now, \<open>after\<close> what it is when the wait ends and
  \<open>now_ms\<close> the clock then.\<close>

definition link_before :: "bool \<Rightarrow> bool \<Rightarrow> fl option \<Rightarrow> real \<Rightarrow> bool" where
  "link_before up after expires_at now_ms =
     (up \<or> (after \<and> \<not> (case expires_at of None \<Rightarrow> False | Some f \<Rightarrow> fl_less f now_ms)))"

text \<open>One command whose correlation id is new. \<open>clk n\<close> is the \<open>n\<close>-th reading of the clock, in
  seconds.\<close>

definition decide :: "exec_env \<Rightarrow> (nat \<Rightarrow> real) \<Rightarrow> bool \<times> bool \<Rightarrow> handler_outcome
    \<Rightarrow> (string \<Rightarrow> bool \<times> json option) \<Rightarrow> json option \<Rightarrow> command \<Rightarrow> int option
    \<Rightarrow> effect list \<times> int \<times> string \<times> result \<times> bool" where
  "decide env clk link outcome entry expires c refused =
     (let key = (if refused = None then operation_key c else None);
          digest = operation_digest env c;
          recorded = (case key of Some k \<Rightarrow> entry k | None \<Rightarrow> (False, None))
      in case refused of
           Some code \<Rightarrow> ([], code, (if code = ACK_FORBIDDEN
               then ''refused: a person cannot send a command on behalf of someone else'' else ''refused''),
               Some [(''outcome'', JStr ''refused'')], False)
         | None \<Rightarrow>
             if fst recorded then replay (clk 0) key digest (snd recorded)
             else if expired (e_float env) expires (clk 0 * 1000)
               then ([], ACK_EXPIRED, ''expired before it was executed'', None, False)
             else if \<not> link_before (fst link) (snd link) (c_expires_at c) (clk 1 * 1000)
               then ([], ACK_EXPIRED, ''expired while the broker link was down; not executed'', None, False)
             else
               let (code, message, res) = run_handler outcome in
               ((if c_correlation c \<noteq> [] then [Started (clk 2) (c_correlation c)] else [])
                @ (case key of Some k \<Rightarrow> [Started (clk 3) k] | None \<Rightarrow> [])
                @ [Execute c]
                @ (case key of Some k \<Rightarrow> [Answered (clk 4) k (operation_record digest code message res)]
                   | None \<Rightarrow> []),
                code, message, res, False))"

definition handle :: "exec_env \<Rightarrow> (nat \<Rightarrow> real) \<Rightarrow> bool \<times> bool \<Rightarrow> handler_outcome \<Rightarrow> string list
    \<Rightarrow> (string \<Rightarrow> bool \<times> json option) \<Rightarrow> record_ \<Rightarrow> effect list" where
  "handle env clk link outcome answered_ids entry r =
     (case parse_topic (r_topic r) of
        None \<Rightarrow> []
      | Some key \<Rightarrow>
          if key \<notin> set (e_handlers env) then []
          else
            let payload = obj_of (r_payload r);
                (op_id, person, refused) = read_envelope payload (r_actor_kind r) (r_actor_id r);
                c = mk_command env key payload r op_id person;
                cid = c_correlation c;
                topic = ack_topic env (c_path c)
            in if cid \<in> set answered_ids then []
               else if cid \<noteq> [] \<and> fst (entry cid) then
                 (case snd (entry cid) of
                    Some recorded \<Rightarrow> [Publish topic cid recorded]
                  | None \<Rightarrow>
                      let body = answer_body (clk 0) cid ACK_UNKNOWN restart_message None None False
                      in [Answered (clk 1) cid body, Publish topic cid body])
               else
                 let (acts, code, message, res, replayed) =
                       decide env clk link outcome entry (map_of payload ''expires_at'') c refused
                 in acts @
                    (if cid = [] then []
                     else let body = answer_body (clk 5) cid code message res (Some c) replayed
                          in [Answered (clk 6) cid body, Publish topic cid body]))"

section \<open>The executor's state\<close>

text \<open>\<open>_remember\<close>: newest last, at most the limit.\<close>

definition remember :: "string \<Rightarrow> string list \<Rightarrow> string list" where
  "remember cid ids =
     (let ids' = filter (\<lambda>c. c \<noteq> cid) ids @ [cid] in drop (length ids' - ANSWERED_LIMIT) ids')"

text \<open>\<open>_note_answers\<close> over a page of records.\<close>

definition note_answers :: "exec_env \<Rightarrow> record_ list \<Rightarrow> string list \<Rightarrow> string list" where
  "note_answers env rs ids =
     fold (\<lambda>r ids.
       case r_payload r of
         JObj payload \<Rightarrow>
           (let cid = correlation_of (e_str env) payload in
            if r_topic r \<in> (\<lambda>k. ack_topic env (snd k)) ` set (e_handlers env)
               \<and> \<not> is_progress payload \<and> cid \<noteq> []
            then remember cid ids else ids)
       | _ \<Rightarrow> ids) rs ids"

record 'l exec_state =
  x_ledger :: 'l
  x_answered :: "string list"
  x_trace :: "effect list"

text \<open>\<open>started\<close> and \<open>answered\<close> are the operations of the ledger.\<close>

fun apply_effect :: "(real \<Rightarrow> string \<Rightarrow> 'l \<Rightarrow> 'l) \<Rightarrow> (real \<Rightarrow> string \<Rightarrow> json \<Rightarrow> 'l \<Rightarrow> 'l)
    \<Rightarrow> effect \<Rightarrow> 'l exec_state \<Rightarrow> 'l exec_state" where
  "apply_effect started answered (Started now cid) s =
     s\<lparr>x_ledger := started now cid (x_ledger s), x_trace := x_trace s @ [Started now cid]\<rparr>"
| "apply_effect started answered (Answered now cid a) s =
     s\<lparr>x_ledger := answered now cid a (x_ledger s), x_trace := x_trace s @ [Answered now cid a]\<rparr>"
| "apply_effect started answered (Publish topic cid a) s =
     s\<lparr>x_answered := remember cid (x_answered s), x_trace := x_trace s @ [Publish topic cid a]\<rparr>"
| "apply_effect started answered (Execute c) s = s\<lparr>x_trace := x_trace s @ [Execute c]\<rparr>"

text \<open>One attempt at one record; \<open>cut = Some n\<close>: the process died after \<open>n\<close> effects and came
  back with its ledger reopened and nothing remembered.\<close>

record attempt =
  at_record :: record_
  at_clock :: "nat \<Rightarrow> real"
  at_link :: "bool \<times> bool"
  at_outcome :: handler_outcome
  at_cut :: "nat option"

definition attempt_effects :: "exec_env \<Rightarrow> (string \<Rightarrow> 'l \<Rightarrow> bool \<times> json option) \<Rightarrow> attempt
    \<Rightarrow> 'l exec_state \<Rightarrow> effect list" where
  "attempt_effects env entry a s =
     (let effs = handle env (at_clock a) (at_link a) (at_outcome a) (x_answered s)
                   (\<lambda>c. entry c (x_ledger s)) (at_record a)
      in case at_cut a of None \<Rightarrow> effs | Some n \<Rightarrow> take n effs)"

definition attempt_step :: "exec_env \<Rightarrow> (string \<Rightarrow> 'l \<Rightarrow> bool \<times> json option)
    \<Rightarrow> (real \<Rightarrow> string \<Rightarrow> 'l \<Rightarrow> 'l) \<Rightarrow> (real \<Rightarrow> string \<Rightarrow> json \<Rightarrow> 'l \<Rightarrow> 'l) \<Rightarrow> ('l \<Rightarrow> 'l)
    \<Rightarrow> attempt \<Rightarrow> 'l exec_state \<Rightarrow> 'l exec_state" where
  "attempt_step env entry started answered reopen a s =
     (let s' = fold (apply_effect started answered) (attempt_effects env entry a s) s
      in case at_cut a of None \<Rightarrow> s' | Some _ \<Rightarrow> s'\<lparr>x_ledger := reopen (x_ledger s'), x_answered := []\<rparr>)"

section \<open>Lemmas on the effects of one command\<close>

text \<open>The ledger keys a command is recorded under.\<close>

definition ledger_keys :: "command \<Rightarrow> string set" where
  "ledger_keys c = (if c_correlation c = [] then {} else {c_correlation c}) \<union> set_option (operation_key c)"

definition executions :: "string \<Rightarrow> effect list \<Rightarrow> nat" where
  "executions k es = length (filter (\<lambda>e. case e of Execute c \<Rightarrow> k \<in> ledger_keys c | _ \<Rightarrow> False) es)"

fun is_execute :: "effect \<Rightarrow> bool" where
  "is_execute (Execute _) = True"
| "is_execute _ = False"

lemma executions_append [simp]: "executions k (xs @ ys) = executions k xs + executions k ys"
  by (simp add: executions_def)

lemma executions_none: "\<forall>e \<in> set es. \<not> is_execute e \<Longrightarrow> executions k es = 0"
  by (auto simp: executions_def filter_empty_conv split: effect.splits)

lemma executions_Execute [simp]: "executions k (Execute c # es) = (if k \<in> ledger_keys c then 1 else 0) + executions k es"
  by (simp add: executions_def)

text \<open>A list of effects runs a command at most once, after every ledger key was recorded.\<close>

definition guarded :: "(string \<Rightarrow> bool \<times> json option) \<Rightarrow> effect list \<Rightarrow> bool" where
  "guarded entry es \<longleftrightarrow> (\<forall>e \<in> set es. \<not> is_execute e) \<or>
     (\<exists>pre c post. es = pre @ Execute c # post \<and> (\<forall>e \<in> set (pre @ post). \<not> is_execute e)
        \<and> (\<forall>k \<in> ledger_keys c. \<not> fst (entry k) \<and> (\<exists>t. Started t k \<in> set pre)))"

lemma guarded_append:
  "guarded entry es \<Longrightarrow> \<forall>e \<in> set post. \<not> is_execute e \<Longrightarrow> guarded entry (es @ post)"
proof -
  assume g: "guarded entry es" and no: "\<forall>e \<in> set post. \<not> is_execute e"
  from g show "guarded entry (es @ post)"
    unfolding guarded_def [of entry es]
  proof (elim disjE exE conjE)
    fix pre c post'
    assume "es = pre @ Execute c # post'" "\<forall>e \<in> set (pre @ post'). \<not> is_execute e"
      "\<forall>k \<in> ledger_keys c. \<not> fst (entry k) \<and> (\<exists>t. Started t k \<in> set pre)"
    with no show ?thesis unfolding guarded_def
      by (intro disjI2 exI [of _ pre] exI [of _ c] exI [of _ "post' @ post"]) auto
  next
    assume "\<forall>e \<in> set es. \<not> is_execute e"
    with no show ?thesis unfolding guarded_def by (intro disjI1) auto
  qed
qed

lemma replay_no_execute: "e \<in> set (fst (replay now key digest recorded)) \<Longrightarrow> \<not> is_execute e"
  by (auto simp: replay_def Let_def split: option.splits if_splits)

lemma decide_guarded:
  assumes "\<not> (c_correlation c \<noteq> [] \<and> fst (entry (c_correlation c)))"
  shows "guarded entry (fst (decide env clk link outcome entry expires c refused))"
proof (cases "fst (decide env clk link outcome entry expires c refused) = [] \<or>
    (\<exists>now key digest recorded. fst (decide env clk link outcome entry expires c refused) = fst (replay now key digest recorded))")
  case True
  then show ?thesis using replay_no_execute by (auto simp: guarded_def)
next
  case False
  obtain code message res where run: "run_handler outcome = (code, message, res)" by (cases "run_handler outcome")
  let ?pre = "(if c_correlation c \<noteq> [] then [Started (clk 2) (c_correlation c)] else [])
      @ (case operation_key c of Some k \<Rightarrow> [Started (clk 3) k] | None \<Rightarrow> [])"
  let ?post = "(case operation_key c of Some k \<Rightarrow>
      [Answered (clk 4) k (operation_record (operation_digest env c) code message res)] | None \<Rightarrow> [])"
  from False have acts: "fst (decide env clk link outcome entry expires c refused) = ?pre @ Execute c # ?post"
    and fresh: "\<And>k. operation_key c = Some k \<Longrightarrow> \<not> fst (entry k)"
    by (auto simp: decide_def Let_def run split: option.splits if_splits)
  have "\<forall>k \<in> ledger_keys c. \<not> fst (entry k) \<and> (\<exists>t. Started t k \<in> set ?pre)"
    using assms fresh by (auto simp: ledger_keys_def split: option.splits)
  moreover have "\<forall>e \<in> set (?pre @ ?post). \<not> is_execute e" by (auto split: option.splits)
  ultimately show ?thesis unfolding guarded_def acts by blast
qed

lemma handle_guarded: "guarded entry (handle env clk link outcome ids entry r)"
proof -
  have no: "guarded entry []" "guarded entry [Publish t c a]" "guarded entry [Answered n c a, Publish t c a]" for t c a n
    by (simp_all add: guarded_def)
  show ?thesis
  proof (cases "\<exists>key. parse_topic (r_topic r) = Some key \<and> key \<in> set (e_handlers env)")
    case False
    then show ?thesis by (auto simp: handle_def no split: option.split)
  next
    case True
    then obtain key where key: "parse_topic (r_topic r) = Some key" "key \<in> set (e_handlers env)" by blast
    let ?payload = "obj_of (r_payload r)"
    obtain op_id person refused
      where e: "read_envelope ?payload (r_actor_kind r) (r_actor_id r) = (op_id, person, refused)" by (metis surj_pair)
    let ?c = "mk_command env key ?payload r op_id person"
    let ?d = "decide env clk link outcome entry (map_of ?payload ''expires_at'') ?c refused"
    obtain acts code message res replayed where d: "?d = (acts, code, message, res, replayed)" by (metis surj_pair)
    show ?thesis
    proof (cases "c_correlation ?c \<in> set ids \<or> c_correlation ?c \<noteq> [] \<and> fst (entry (c_correlation ?c))")
      case True
      then show ?thesis using key e by (auto simp: handle_def Let_def no split: option.split)
    next
      case False
      then have "guarded entry acts" using decide_guarded [of ?c entry env clk link outcome "map_of ?payload ''expires_at''" refused] d
        by auto
      then have "guarded entry (acts @ post)" if "\<forall>e \<in> set post. \<not> is_execute e" for post
        using that by (rule guarded_append)
      with False key e d show ?thesis by (auto simp: handle_def Let_def)
    qed
  qed
qed

lemma handle_times:
  assumes "Started t k \<in> set (handle env clk link outcome ids entry r)
      \<or> Answered t k a \<in> set (handle env clk link outcome ids entry r)"
  shows "\<exists>n. t = clk n"
  using assms
  by (auto simp: handle_def decide_def replay_def Let_def split: option.splits prod.splits if_splits)

lemma guarded_take:
  assumes "guarded entry es"
  shows "executions k (take n es) \<le> 1"
    and "executions k (take n es) = 1 \<Longrightarrow> \<not> fst (entry k) \<and> (\<exists>t. Started t k \<in> set (take n es))"
proof -
  have "executions k (take n es) \<le> 1 \<and>
      (executions k (take n es) = 1 \<longrightarrow> \<not> fst (entry k) \<and> (\<exists>t. Started t k \<in> set (take n es)))"
    using assms unfolding guarded_def
  proof (elim disjE exE conjE)
    assume "\<forall>e \<in> set es. \<not> is_execute e"
    then have "executions k (take n es) = 0" by (intro executions_none) (auto dest: in_set_takeD)
    then show ?thesis by simp
  next
    fix pre c post
    assume es: "es = pre @ Execute c # post" and no: "\<forall>e \<in> set (pre @ post). \<not> is_execute e"
      and k: "\<forall>k \<in> ledger_keys c. \<not> fst (entry k) \<and> (\<exists>t. Started t k \<in> set pre)"
    have pre: "executions k (take m pre) = 0" "executions k (take m post) = 0" for m
      using no by (auto intro!: executions_none dest: in_set_takeD)
    show ?thesis
    proof (cases "n \<le> length pre")
      case True
      then show ?thesis using es pre by simp
    next
      case False
      then obtain m where m: "n - length pre = Suc m" by (cases "n - length pre") auto
      then have t: "take n es = pre @ Execute c # take m post" using es False by simp
      show ?thesis unfolding t using pre(1) [of "length pre"] pre(2) [of m] k by auto
    qed
  qed
  then show "executions k (take n es) \<le> 1"
    "executions k (take n es) = 1 \<Longrightarrow> \<not> fst (entry k) \<and> (\<exists>t. Started t k \<in> set (take n es))" by auto
qed

section \<open>At most once, over any durable ledger\<close>

context durable_ledger
begin

text \<open>\<open>holds\<close> describes ledgers and \<open>term_\<close> times at which a start drops nothing.\<close>

lemma apply_effects:
  assumes "sane (x_ledger s)" "holds (x_ledger s)"
    and times: "\<And>t k a. Started t k \<in> set es \<or> Answered t k a \<in> set es \<Longrightarrow> in_term t"
    and keeps_holds: "\<And>l now. holds l \<Longrightarrow> in_term now \<Longrightarrow> keeps now l"
    and holds_started: "\<And>l now c. holds l \<Longrightarrow> in_term now \<Longrightarrow> holds (started now c l)"
    and holds_answered: "\<And>l now c a. holds l \<Longrightarrow> in_term now \<Longrightarrow> holds (answered now c a l)"
  shows "let s' = fold (apply_effect started answered) es s in
     sane (x_ledger s') \<and> holds (x_ledger s') \<and> x_trace s' = x_trace s @ es
     \<and> (\<forall>k. fst (entry k (x_ledger s)) \<or> (\<exists>t. Started t k \<in> set es) \<longrightarrow> fst (entry k (x_ledger s')))"
  using assms(1-3)
proof (induction es arbitrary: s)
  case (Cons e es)
  let ?s = "apply_effect started answered e s"
  have step: "sane (x_ledger ?s) \<and> holds (x_ledger ?s) \<and> x_trace ?s = x_trace s @ [e]
     \<and> (\<forall>k. fst (entry k (x_ledger s)) \<or> (\<exists>t. e = Started t k) \<longrightarrow> fst (entry k (x_ledger ?s)))"
  proof (cases e)
    case (Started t k)
    then have "in_term t" using Cons.prems(3) by auto
    with Started Cons.prems(1,2) show ?thesis
      by (auto simp: sane_started holds_started keeps_holds started_self_always entry_stays_started)
  next
    case (Answered t k a)
    then have "in_term t" using Cons.prems(3) by auto
    with Answered Cons.prems(1,2) show ?thesis
      by (auto simp: sane_answered holds_answered entry_stays_started)
  qed (use Cons.prems in auto)
  then have "let s' = fold (apply_effect started answered) es ?s in
     sane (x_ledger s') \<and> holds (x_ledger s') \<and> x_trace s' = x_trace ?s @ es
     \<and> (\<forall>k. fst (entry k (x_ledger ?s)) \<or> (\<exists>t. Started t k \<in> set es) \<longrightarrow> fst (entry k (x_ledger s')))"
    by (intro Cons.IH) (use Cons.prems(3) in auto)
  with step show ?case by (auto simp: Let_def)
qed simp

lemma at_most_once:
  assumes "sane (x_ledger s)" "holds (x_ledger s)"
    and "\<And>a n. a \<in> set ats \<Longrightarrow> in_term (at_clock a n)"
    and keeps_holds: "\<And>l now. holds l \<Longrightarrow> in_term now \<Longrightarrow> keeps now l"
    and holds_started: "\<And>l now c. holds l \<Longrightarrow> in_term now \<Longrightarrow> holds (started now c l)"
    and holds_answered: "\<And>l now c a. holds l \<Longrightarrow> in_term now \<Longrightarrow> holds (answered now c a l)"
    and holds_reopen: "\<And>l. holds l \<Longrightarrow> holds (reopen l)"
    and "executions k (x_trace s) \<le> 1" "executions k (x_trace s) = 1 \<longrightarrow> fst (entry k (x_ledger s))"
  shows "executions k (x_trace (fold (attempt_step env entry started answered reopen) ats s)) \<le> 1"
  using assms(1-3,8,9)
proof (induction ats arbitrary: s)
  case (Cons a ats)
  let ?es = "attempt_effects env entry a s"
  let ?h = "handle env (at_clock a) (at_link a) (at_outcome a) (x_answered s) (\<lambda>c. entry c (x_ledger s)) (at_record a)"
  let ?s = "attempt_step env entry started answered reopen a s"
  have "\<exists>n. ?es = take n ?h"
    by (cases "at_cut a") (auto simp: attempt_effects_def Let_def intro: exI [of _ "length ?h"])
  then obtain n where es: "?es = take n ?h" by blast
  have times: "in_term t" if tk: "Started t k' \<in> set ?es \<or> Answered t k' b \<in> set ?es" for t k' b
  proof -
    from tk have "Started t k' \<in> set ?h \<or> Answered t k' b \<in> set ?h" unfolding es by (auto dest: in_set_takeD)
    from handle_times [OF this] Cons.prems(3) show ?thesis by auto
  qed
  have eff: "let s' = fold (apply_effect started answered) ?es s in
     sane (x_ledger s') \<and> holds (x_ledger s') \<and> x_trace s' = x_trace s @ ?es
     \<and> (\<forall>k. fst (entry k (x_ledger s)) \<or> (\<exists>t. Started t k \<in> set ?es) \<longrightarrow> fst (entry k (x_ledger s')))"
    by (rule apply_effects [where in_term = in_term and holds = holds, OF Cons.prems(1,2)])
      (fact times keeps_holds holds_started holds_answered)+
  have s: "sane (x_ledger ?s)" "holds (x_ledger ?s)" "x_trace ?s = x_trace s @ ?es"
    "fst (entry k (x_ledger s)) \<or> (\<exists>t. Started t k \<in> set ?es) \<Longrightarrow> fst (entry k (x_ledger ?s))"
    using eff by (auto simp: attempt_step_def Let_def sane_reopen reopen_entry holds_reopen split: option.splits)
  note g = guarded_take [OF handle_guarded, of k n env "at_clock a" "at_link a" "at_outcome a" "x_answered s"
      "\<lambda>c. entry c (x_ledger s)" "at_record a", folded es]
  have one: "executions k (x_trace ?s) \<le> 1" using s(3) g Cons.prems(4,5) by fastforce
  have rec: "executions k (x_trace ?s) = 1 \<longrightarrow> fst (entry k (x_ledger ?s))"
    using s(3,4) g Cons.prems(4,5) by (cases "executions k ?es = 1") auto
  have "executions k (x_trace (fold (attempt_step env entry started answered reopen) ats ?s)) \<le> 1"
    by (rule Cons.IH) (use s(1,2) one rec Cons.prems(3) in auto)
  then show ?case by simp
qed simp

end

section \<open>Lemmas on answers\<close>

text \<open>A command of the handled topics, read from a record.\<close>

definition command_of :: "exec_env \<Rightarrow> record_ \<Rightarrow> (command \<times> int option) option" where
  "command_of env r =
     (case parse_topic (r_topic r) of None \<Rightarrow> None
      | Some key \<Rightarrow>
          if key \<notin> set (e_handlers env) then None
          else let (op_id, person, refused) = read_envelope (obj_of (r_payload r)) (r_actor_kind r) (r_actor_id r)
               in Some (mk_command env key (obj_of (r_payload r)) r op_id person, refused))"

lemma handle_command_of:
  "handle env clk link outcome ids entry r =
     (case command_of env r of
        None \<Rightarrow> []
      | Some (c, refused) \<Rightarrow>
          let cid = c_correlation c; topic = ack_topic env (c_path c) in
          if cid \<in> set ids then []
          else if cid \<noteq> [] \<and> fst (entry cid) then
            (case snd (entry cid) of
               Some recorded \<Rightarrow> [Publish topic cid recorded]
             | None \<Rightarrow> let body = answer_body (clk 0) cid ACK_UNKNOWN restart_message None None False
                       in [Answered (clk 1) cid body, Publish topic cid body])
          else
            let (acts, code, message, res, replayed) =
                  decide env clk link outcome entry (map_of (obj_of (r_payload r)) ''expires_at'') c refused
            in acts @ (if cid = [] then []
                       else let body = answer_body (clk 5) cid code message res (Some c) replayed
                            in [Answered (clk 6) cid body, Publish topic cid body]))"
  by (auto simp: handle_def command_of_def Let_def mk_command_def split: option.split prod.split)

lemma decide_no_publish: "Publish t c a \<notin> set (fst (decide env clk link outcome entry expires cmd refused))"
  by (auto simp: decide_def replay_def Let_def split: option.splits if_splits prod.splits)

lemma list_last_two:
  "xs @ [x, y] = pre @ z # post \<Longrightarrow> z \<notin> set xs \<Longrightarrow> z \<noteq> x \<Longrightarrow> post = [] \<and> z = y \<and> pre = xs @ [x]"
  by (induction xs arbitrary: pre) (auto simp: Cons_eq_append_conv)

lemma first_split_unique:
  "pre @ x # post = pre' @ y # post' \<Longrightarrow> P x \<Longrightarrow> P y \<Longrightarrow> \<forall>e \<in> set (pre' @ post'). \<not> P e \<Longrightarrow> pre = pre' \<and> x = y"
  by (induction pre arbitrary: pre') (auto simp: Cons_eq_append_conv append_eq_Cons_conv)

section \<open>Properties\<close>

text \<open>C7: A command runs at most once, crashes and restarts included, over the SQLite ledger of a
  connector. For any attempts at any records (redelivered ones included), each stopped after any
  number of its effects and followed by a restart that loses all memory, with clock readings
  within the retention of the first: at most one run of a command per correlation id and at most
  one per attested sender and operation id.\<close>

theorem command_at_most_once:
  fixes s :: "sqlite_ledger exec_state"
  assumes "x_trace s = []" "\<forall>r \<in> set (sq_rows (x_ledger s)). t0 \<le> fst (snd r)"
    and "\<forall>a \<in> set ats. \<forall>n. t0 \<le> at_clock a n \<and> at_clock a n \<le> t0 + sq_keep_s (x_ledger s)"
    and "key \<noteq> []"
  shows "let trace = x_trace (fold (attempt_step env sq_entry sq_started sq_answered (\<lambda>l. l)) ats s) in
     length (filter (\<lambda>e. \<exists>c. e = Execute c \<and> c_correlation c = key) trace) \<le> 1
     \<and> length (filter (\<lambda>e. \<exists>c. e = Execute c \<and> c_actor_id c = sender_id \<and> c_operation c = key) trace) \<le> 1"
proof -
  let ?trace = "x_trace (fold (attempt_step env sq_entry sq_started sq_answered (\<lambda>l. l)) ats s)"
  let ?holds = "\<lambda>l. sq_keep_s l = sq_keep_s (x_ledger s) \<and> (\<forall>r \<in> set (sq_rows l). t0 \<le> fst (snd r))"
  let ?inTerm = "\<lambda>now. t0 \<le> now \<and> now \<le> t0 + sq_keep_s (x_ledger s)"
  have once: "executions k ?trace \<le> 1" for k
  proof (rule sqlite.at_most_once [where holds = ?holds and in_term = ?inTerm])
    show "?holds (x_ledger s)" using assms(2) by simp
    show "?inTerm (at_clock a n)" if "a \<in> set ats" for a n using that assms(3) by blast
    show "rows_keep now (sq_keep_s l) (sq_rows l)" if "?holds l" "?inTerm now" for l now
      using that by (fastforce simp: rows_keep_def)
    show "?holds (sq_started now c l)" if "?holds l" "?inTerm now" for l now c
      using that rows_started_since [of "sq_rows l" t0 now] by (simp add: sq_started_def)
    show "?holds (sq_answered now c a l)" if "?holds l" "?inTerm now" for l now c a
      using that rows_answered_since [of "sq_rows l" t0 now c a] by (simp add: sq_answered_def)
  qed (simp_all add: assms(1) executions_def)
  have le: "length (filter P xs) \<le> length (filter Q xs)" if "\<And>x. P x \<Longrightarrow> Q x" for P Q and xs :: "effect list"
    using that by (induction xs) auto
  have "length (filter (\<lambda>e. \<exists>c. e = Execute c \<and> c_correlation c = key) ?trace) \<le> executions key ?trace"
    unfolding executions_def by (rule le) (use assms(4) in \<open>auto simp: ledger_keys_def\<close>)
  moreover obtain k where k: "operation_key c = Some k" if "c_actor_id c = sender_id" "c_operation c = key" for c
    using assms(4) by (auto simp: operation_key_def)
  have "length (filter (\<lambda>e. \<exists>c. e = Execute c \<and> c_actor_id c = sender_id \<and> c_operation c = key) ?trace)
      \<le> executions k ?trace"
    unfolding executions_def by (rule le) (use k in \<open>auto simp: ledger_keys_def\<close>)
  ultimately show ?thesis using once [of key] once [of k] by (simp add: Let_def)
qed

theorem command_at_most_once_witness:
  "let env = \<lparr>e_node = ''n'', e_prefix = ''r/v1/'', e_str = (\<lambda>_. []), e_float = (\<lambda>_. None),
             e_sha256 = (\<lambda>_. []), e_handlers = [(''_CmdX'', ''p'')]\<rparr>;
       r = \<lparr>r_offset = 1, r_topic = ''r/v1/_CmdX/n/p'', r_payload = JObj [(''correlation_id'', JStr ''c'')],
            r_ts = 0, r_actor_id = ''u'', r_actor_label = [], r_actor_kind = ''human''\<rparr>;
       a = \<lparr>at_record = r, at_clock = \<lambda>_. 5, at_link = (True, True), at_outcome = ReturnedText None, at_cut = Some 2\<rparr>;
       s = \<lparr>x_ledger = mk_sqlite_ledger SQLITE_KEEP_S [], x_answered = [], x_trace = []\<rparr> in
     length (filter (\<lambda>e. \<exists>c. e = Execute c \<and> c_correlation c = ''c'')
       (x_trace (fold (attempt_step env sq_entry sq_started sq_answered (\<lambda>l. l)) [a, a, a\<lparr>at_cut := None\<rparr>] s))) \<le> 1"
proof -
  let ?s = "\<lparr>x_ledger = mk_sqlite_ledger SQLITE_KEEP_S [], x_answered = [], x_trace = []\<rparr>"
  let ?r = "\<lparr>r_offset = 1, r_topic = ''r/v1/_CmdX/n/p'', r_payload = JObj [(''correlation_id'', JStr ''c'')],
            r_ts = 0, r_actor_id = ''u'', r_actor_label = [], r_actor_kind = ''human''\<rparr>"
  let ?a = "\<lparr>at_record = ?r, at_clock = \<lambda>_. 5, at_link = (True, True), at_outcome = ReturnedText None, at_cut = Some 2\<rparr>"
  have "x_trace ?s = []" "\<forall>r \<in> set (sq_rows (x_ledger ?s)). 0 \<le> fst (snd r)"
    "\<forall>a \<in> set [?a, ?a, ?a\<lparr>at_cut := None\<rparr>]. \<forall>n. 0 \<le> at_clock a n \<and> at_clock a n \<le> 0 + sq_keep_s (x_ledger ?s)"
    by (simp_all add: mk_sqlite_ledger_def SQLITE_KEEP_S_def)
  from command_at_most_once [OF this, of "''c''"] show ?thesis
    unfolding Let_def by blast
qed

text \<open>The same over the durable buffer of a DataOps service: its ledger is committed before the
  handler runs, so a crash that loses uncommitted rows loses no ledger entry.\<close>

theorem dataops_command_at_most_once:
  fixes s :: "buffer exec_state"
  assumes "x_trace s = []" "\<forall>r \<in> set (db_ledger (work (x_ledger s))). t0 \<le> fst (snd r)"
    and "db_ledger (disk (x_ledger s)) = db_ledger (work (x_ledger s))"
    and "\<forall>a \<in> set ats. \<forall>n. t0 \<le> at_clock a n \<and> at_clock a n \<le> t0 + BUFFER_KEEP_S"
    and "key \<noteq> []"
  shows "length (filter (\<lambda>e. \<exists>c. e = Execute c \<and> c_correlation c = key)
     (x_trace (fold (attempt_step env command_entry (\<lambda>now. command_started now BUFFER_KEEP_S)
        command_answered crash) ats s))) \<le> 1"
proof -
  let ?trace = "x_trace (fold (attempt_step env command_entry (\<lambda>now. command_started now BUFFER_KEEP_S)
        command_answered crash) ats s)"
  let ?holds = "\<lambda>b. db_ledger (disk b) = db_ledger (work b) \<and> (\<forall>r \<in> set (db_ledger (work b)). t0 \<le> fst (snd r))"
  let ?inTerm = "\<lambda>now. t0 \<le> now \<and> now \<le> t0 + BUFFER_KEEP_S"
  have "executions key ?trace \<le> 1"
  proof (rule buffered.at_most_once [where holds = ?holds and in_term = ?inTerm])
    show "?holds (x_ledger s)" using assms(2,3) by simp
    show "?inTerm (at_clock a n)" if "a \<in> set ats" for a n using that assms(4) by blast
    show "rows_keep now BUFFER_KEEP_S (db_ledger (work b))" if "?holds b" "?inTerm now" for b now
      using that by (fastforce simp: rows_keep_def)
    show "?holds (command_started now BUFFER_KEEP_S c b)" if "?holds b" "?inTerm now" for b now c
      using that rows_started_since [of "db_ledger (work b)" t0 now] by (simp add: command_started_rows)
    show "?holds (command_answered now c a b)" if "?holds b" "?inTerm now" for b now c a
      using that rows_answered_since [of "db_ledger (work b)" t0 now c a] by (simp add: command_answered_rows)
  qed (use assms(1,3) in \<open>simp_all add: executions_def\<close>)
  have le: "length (filter P xs) \<le> length (filter Q xs)" if "\<And>x. P x \<Longrightarrow> Q x" for P Q and xs :: "effect list"
    using that by (induction xs) auto
  have "length (filter (\<lambda>e. \<exists>c. e = Execute c \<and> c_correlation c = key) ?trace) \<le> executions key ?trace"
    unfolding executions_def by (rule le) (use assms(5) in \<open>auto simp: ledger_keys_def\<close>)
  with \<open>executions key ?trace \<le> 1\<close> show ?thesis by simp
qed

theorem dataops_command_at_most_once_witness:
  "let env = \<lparr>e_node = ''n'', e_prefix = ''r/v1/'', e_str = (\<lambda>_. []), e_float = (\<lambda>_. None),
             e_sha256 = (\<lambda>_. []), e_handlers = [(''_CmdX'', ''p'')]\<rparr>;
       r = \<lparr>r_offset = 1, r_topic = ''r/v1/_CmdX/n/p'', r_payload = JObj [(''correlation_id'', JStr ''c'')],
            r_ts = 0, r_actor_id = ''u'', r_actor_label = [], r_actor_kind = ''human''\<rparr>;
       a = \<lparr>at_record = r, at_clock = \<lambda>_. 5, at_link = (True, True), at_outcome = ReturnedText None, at_cut = Some 2\<rparr>;
       s = \<lparr>x_ledger = snd (open_buffer ''g'' empty_db), x_answered = [], x_trace = []\<rparr> in
     length (filter (\<lambda>e. \<exists>c. e = Execute c \<and> c_correlation c = ''c'')
       (x_trace (fold (attempt_step env command_entry (\<lambda>now. command_started now BUFFER_KEEP_S)
          command_answered crash) [a, a, a\<lparr>at_cut := None\<rparr>] s))) \<le> 1"
proof -
  let ?s = "\<lparr>x_ledger = snd (open_buffer ''g'' empty_db), x_answered = [], x_trace = []\<rparr>"
  let ?r = "\<lparr>r_offset = 1, r_topic = ''r/v1/_CmdX/n/p'', r_payload = JObj [(''correlation_id'', JStr ''c'')],
            r_ts = 0, r_actor_id = ''u'', r_actor_label = [], r_actor_kind = ''human''\<rparr>"
  let ?a = "\<lparr>at_record = ?r, at_clock = \<lambda>_. 5, at_link = (True, True), at_outcome = ReturnedText None, at_cut = Some 2\<rparr>"
  have "x_trace ?s = []" "\<forall>r \<in> set (db_ledger (work (x_ledger ?s))). 0 \<le> fst (snd r)"
    "db_ledger (disk (x_ledger ?s)) = db_ledger (work (x_ledger ?s))"
    by (simp_all add: open_buffer_def load_or_mint_generation_def empty_db_def upgrade_def)
  moreover have "\<forall>a \<in> set [?a, ?a, ?a\<lparr>at_cut := None\<rparr>]. \<forall>n. 0 \<le> at_clock a n \<and> at_clock a n \<le> 0 + BUFFER_KEEP_S"
    by (simp add: BUFFER_KEEP_S_def)
  ultimately show ?thesis using dataops_command_at_most_once [of ?s 0 "[?a, ?a, ?a\<lparr>at_cut := None\<rparr>]" "''c''"]
    unfolding Let_def by blast
qed

text \<open>C8: Nothing acts before it is recorded. Whenever the executor runs a command, its correlation id
  and operation key were recorded as started before; whenever it publishes an answer, that answer
  is already in the ledger under the correlation id, so after a crash anywhere the command is
  answered again, with the recorded body, and not run.\<close>

theorem recorded_before_acted:
  assumes "handle env clk link outcome ids entry r = pre @ e # post"
  shows "(\<forall>c k. e = Execute c \<and> k \<in> ledger_keys c \<longrightarrow> (\<exists>t. Started t k \<in> set pre))
     \<and> (\<forall>topic cid a. e = Publish topic cid a \<longrightarrow>
           post = [] \<and> (entry cid = (True, Some a) \<or> (\<exists>t. Answered t cid a \<in> set pre)))"
proof (rule conjI; intro allI impI)
  fix c k assume "e = Execute c \<and> k \<in> ledger_keys c"
  then have e: "e = Execute c" "k \<in> ledger_keys c" by auto
  have "guarded entry (pre @ e # post)" using handle_guarded [of entry] assms by metis
  then obtain pre' c' post' where g: "pre @ e # post = pre' @ Execute c' # post'"
    "\<forall>e \<in> set (pre' @ post'). \<not> is_execute e" "\<forall>k \<in> ledger_keys c'. \<not> fst (entry k) \<and> (\<exists>t. Started t k \<in> set pre')"
    using e(1) unfolding guarded_def by force
  have "pre = pre' \<and> e = Execute c'"
    using first_split_unique [OF g(1), of is_execute] g(2) e(1) by simp
  with g(3) e show "\<exists>t. Started t k \<in> set pre" by auto
next
  fix topic cid a assume e: "e = Publish topic cid a"
  then have mem: "Publish topic cid a \<in> set (handle env clk link outcome ids entry r)" using assms by simp
  from mem obtain c refused where c: "command_of env r = Some (c, refused)"
    by (cases "command_of env r") (auto simp: handle_command_of)
  obtain acts code message res replayed where d: "decide env clk link outcome entry
      (map_of (obj_of (r_payload r)) ''expires_at'') c refused = (acts, code, message, res, replayed)" by (metis surj_pair)
  have no: "Publish t' c' a' \<notin> set acts" for t' c' a' using decide_no_publish d by (metis fst_conv)
  let ?cid = "c_correlation c" and ?topic = "ack_topic env (c_path c)"
  have h: "?cid \<notin> set ids"
    using mem c by (auto simp: handle_command_of Let_def split: if_splits)
  show "post = [] \<and> (entry cid = (True, Some a) \<or> (\<exists>t. Answered t cid a \<in> set pre))"
  proof (cases "?cid \<noteq> [] \<and> fst (entry ?cid)")
    case True
    show ?thesis
    proof (cases "snd (entry ?cid)")
      case None
      with assms c h True e show ?thesis
        by (auto simp: handle_command_of Let_def Cons_eq_append_conv)
    next
      case (Some recorded)
      with True have "entry ?cid = (True, Some recorded)" by (cases "entry ?cid") auto
      moreover have "[Publish ?topic ?cid recorded] = pre @ e # post"
        using assms c h True Some by (simp add: handle_command_of Let_def)
      ultimately show ?thesis using e by (auto simp: Cons_eq_append_conv)
    qed
  next
    case False
    have ne: "?cid \<noteq> []" using mem c h False d no by (auto simp: handle_command_of Let_def split: if_splits)
    let ?body = "answer_body (clk 5) ?cid code message res (Some c) replayed"
    have "acts @ [Answered (clk 6) ?cid ?body, Publish ?topic ?cid ?body] = pre @ e # post"
      using assms c h False d ne by (auto simp: handle_command_of Let_def)
    from list_last_two [OF this] no e show ?thesis by auto
  qed
qed

theorem recorded_before_acted_witness:
  "let env = \<lparr>e_node = ''n'', e_prefix = ''r/v1/'', e_str = (\<lambda>_. []), e_float = (\<lambda>_. None),
             e_sha256 = (\<lambda>_. []), e_handlers = [(''_CmdX'', ''p'')]\<rparr>;
       r = \<lparr>r_offset = 1, r_topic = ''r/v1/_CmdX/n/p'', r_payload = JObj [(''correlation_id'', JStr ''c'')],
            r_ts = 0, r_actor_id = ''u'', r_actor_label = [], r_actor_kind = ''human''\<rparr> in
     \<exists>c a. handle env (\<lambda>_. 0) (True, True) (ReturnedText None) [] (\<lambda>_. (False, None)) r
        = [Started 0 ''c'', Execute c] @ [Answered 0 ''c'' a, Publish ''r/v1/_Ack/n/p'' ''c'' a]
        \<and> (\<exists>t. Started t ''c'' \<in> set [Started 0 ''c''])"
proof -
  let ?env = "\<lparr>e_node = ''n'', e_prefix = ''r/v1/'', e_str = (\<lambda>_. []), e_float = (\<lambda>_. None),
             e_sha256 = (\<lambda>_. []), e_handlers = [(''_CmdX'', ''p'')]\<rparr>"
  let ?r = "\<lparr>r_offset = 1, r_topic = ''r/v1/_CmdX/n/p'', r_payload = JObj [(''correlation_id'', JStr ''c'')],
            r_ts = 0, r_actor_id = ''u'', r_actor_label = [], r_actor_kind = ''human''\<rparr>"
  let ?c = "mk_command ?env (''_CmdX'', ''p'') [(''correlation_id'', JStr ''c'')] ?r [] None"
  let ?a = "answer_body 0 ''c'' 200 [] None (Some ?c) False"
  have h: "handle ?env (\<lambda>_. 0) (True, True) (ReturnedText None) [] (\<lambda>_. (False, None)) ?r
      = [Started 0 ''c''] @ Execute ?c # [Answered 0 ''c'' ?a, Publish ''r/v1/_Ack/n/p'' ''c'' ?a]"
    by (simp add: handle_def parse_topic_def obj_of_def read_envelope_def mk_command_def correlation_of_def
        decide_def operation_key_def link_before_def expired_def run_handler_def ack_topic_def ACK_OK_def Let_def)
  have "''c'' \<in> ledger_keys ?c" by (simp add: ledger_keys_def mk_command_def correlation_of_def)
  with recorded_before_acted [OF h] have "\<exists>t. Started t ''c'' \<in> set [Started 0 ''c'']" by blast
  with h show ?thesis by (simp add: Let_def)
qed

text \<open>C9: A repeated operation is answered, not executed. For a command with a new correlation id whose
  operation key is in the ledger, no handler runs; a recorded outcome with the same digest is
  answered again with the same code, message and result and \<open>replayed\<close>, a different digest is
  answered 409 and never replayed, and an operation started and never answered is answered 504 and
  recorded so for every later repeat.\<close>

theorem operation_replayed:
  assumes "command_of env r = Some (c, None)" "operation_key c = Some k" "fst (entry k)"
    and "c_correlation c \<noteq> []" "c_correlation c \<notin> set ids" "\<not> fst (entry (c_correlation c))"
  shows "let effs = handle env clk link outcome ids entry r; digest = operation_digest env c;
       answers = (\<lambda>body. [Answered (clk 6) (c_correlation c) body,
                          Publish (ack_topic env (c_path c)) (c_correlation c) body]) in
     (\<forall>e \<in> set effs. \<not> is_execute e)
     \<and> (\<forall>code message res. snd (entry k) = Some (operation_record digest code message res) \<longrightarrow>
          effs = answers (answer_body (clk 5) (c_correlation c) code message
                           (if res = Some [] then None else res) (Some c) True))
     \<and> (\<forall>d code message res. snd (entry k) = Some (operation_record d code message res) \<and> d \<noteq> digest \<longrightarrow>
          (\<exists>text. effs = answers (answer_body (clk 5) (c_correlation c) ACK_CONFLICT text
                           (Some [(''outcome'', JStr ''refused'')]) (Some c) False)))
     \<and> (snd (entry k) = None \<longrightarrow>
          Answered (clk 0) k (operation_record digest ACK_UNKNOWN stopped_message None) \<in> set effs)"
proof -
  let ?d = "decide env clk link outcome entry (map_of (obj_of (r_payload r)) ''expires_at'') c None"
  let ?e = "handle env clk link outcome ids entry r"
  have d: "?d = replay (clk 0) (Some k) (operation_digest env c) (snd (entry k))"
    using assms(2,3) by (simp add: decide_def)
  have e: "?e = (let (acts, code, message, res, replayed) = ?d;
            body = answer_body (clk 5) (c_correlation c) code message res (Some c) replayed
          in acts @ [Answered (clk 6) (c_correlation c) body, Publish (ack_topic env (c_path c)) (c_correlation c) body])"
    using assms(4-6) by (simp add: handle_command_of assms(1) Let_def split: prod.split)
  have "\<forall>x \<in> set ?e. \<not> is_execute x"
    using replay_no_execute [of _ "clk 0" "Some k" "operation_digest env c" "snd (entry k)"]
    unfolding e d by (cases "replay (clk 0) (Some k) (operation_digest env c) (snd (entry k))") (auto simp: Let_def)
  moreover have "(\<forall>code message res. snd (entry k) = Some (operation_record (operation_digest env c) code message res) \<longrightarrow>
      ?d = ([], code, message, (if res = Some [] then None else res), True))"
    unfolding d by (auto simp: replay_def operation_record_def obj_of_def split: option.splits)
  moreover have "\<forall>d' code message res. snd (entry k) = Some (operation_record d' code message res) \<and>
      d' \<noteq> operation_digest env c \<longrightarrow>
      (\<exists>text. ?d = ([], ACK_CONFLICT, text, Some [(''outcome'', JStr ''refused'')], False))"
    unfolding d by (auto simp: replay_def operation_record_def obj_of_def)
  moreover have "snd (entry k) = None \<longrightarrow>
      ?d = ([Answered (clk 0) k (operation_record (operation_digest env c) ACK_UNKNOWN stopped_message None)],
            ACK_UNKNOWN, stopped_message, None, True)"
    unfolding d by (simp add: replay_def)
  ultimately show ?thesis unfolding Let_def e by fastforce
qed

theorem operation_replayed_witness:
  "let env = \<lparr>e_node = ''n'', e_prefix = ''r/v1/'', e_str = (\<lambda>_. []), e_float = (\<lambda>_. None),
             e_sha256 = (\<lambda>_. []), e_handlers = [(''_CmdX'', ''p'')]\<rparr>;
       r = \<lparr>r_offset = 1, r_topic = ''r/v1/_CmdX/n/p'',
            r_payload = JObj [(''correlation_id'', JStr ''c''), (''operation_id'', JStr ''o'')],
            r_ts = 0, r_actor_id = ''u'', r_actor_label = [], r_actor_kind = ''human''\<rparr>;
       entry = (\<lambda>x. if x = ''c'' then (False, None) else (True, None)) in
     \<forall>e \<in> set (handle env (\<lambda>_. 0) (True, True) (ReturnedText None) [] entry r). \<not> is_execute e"
proof -
  let ?env = "\<lparr>e_node = ''n'', e_prefix = ''r/v1/'', e_str = (\<lambda>_. []), e_float = (\<lambda>_. None),
             e_sha256 = (\<lambda>_. []), e_handlers = [(''_CmdX'', ''p'')]\<rparr>"
  let ?r = "\<lparr>r_offset = 1, r_topic = ''r/v1/_CmdX/n/p'',
            r_payload = JObj [(''correlation_id'', JStr ''c''), (''operation_id'', JStr ''o'')],
            r_ts = 0, r_actor_id = ''u'', r_actor_label = [], r_actor_kind = ''human''\<rparr>"
  let ?entry = "\<lambda>x. if x = ''c'' then (False, None :: json option) else (True, None)"
  let ?c = "mk_command ?env (''_CmdX'', ''p'') [(''correlation_id'', JStr ''c''), (''operation_id'', JStr ''o'')] ?r ''o'' None"
  have c: "command_of ?env ?r = Some (?c, None)"
    by (simp add: command_of_def parse_topic_def read_envelope_def obj_of_def check_operation_id_def
        OPERATION_ID_MAX_def has_control_def)
  have k: "operation_key ?c = Some (the (operation_key ?c))" "fst (?entry (the (operation_key ?c)))"
    by (simp_all add: operation_key_def mk_command_def)
  have cid: "c_correlation ?c = ''c''" by (simp add: mk_command_def correlation_of_def)
  show ?thesis
    using operation_replayed [where entry = ?entry, OF c k, of "[]" "\<lambda>_. 0" "(True, True)" "ReturnedText None"]
    by (simp add: cid Let_def)
qed

text \<open>C10: An expired command never runs. With a deadline that passed before the check, or a deadline
  that passed while the executor waited for the broker link, the handler is not run; unless the
  envelope was refused or the operation is a repeat, the answer is 498.\<close>

theorem expired_never_runs:
  assumes "command_of env r = Some (c, refused)"
    and "expired (e_float env) (map_of (obj_of (r_payload r)) ''expires_at'') (clk 0 * 1000)
       \<or> \<not> fst link \<and> (\<exists>f. c_expires_at c = Some f \<and> fl_less f (clk 1 * 1000))"
  shows "(\<forall>e \<in> set (handle env clk link outcome ids entry r). \<not> is_execute e)
    \<and> (refused = None \<and> (\<forall>k. operation_key c = Some k \<longrightarrow> \<not> fst (entry k)) \<and> c_correlation c \<noteq> []
        \<and> c_correlation c \<notin> set ids \<and> \<not> fst (entry (c_correlation c)) \<longrightarrow>
       (\<exists>text. handle env clk link outcome ids entry r =
         (let body = answer_body (clk 5) (c_correlation c) ACK_EXPIRED text None (Some c) False
          in [Answered (clk 6) (c_correlation c) body, Publish (ack_topic env (c_path c)) (c_correlation c) body])))"
proof -
  let ?d = "decide env clk link outcome entry (map_of (obj_of (r_payload r)) ''expires_at'') c refused"
  have link: "\<not> link_before (fst link) (snd link) (c_expires_at c) (clk 1 * 1000)"
    if "\<not> expired (e_float env) (map_of (obj_of (r_payload r)) ''expires_at'') (clk 0 * 1000)"
    using assms(2) that by (auto simp: link_before_def)
  have d: "\<forall>e \<in> set (fst ?d). \<not> is_execute e"
    using link replay_no_execute
    by (auto simp: decide_def Let_def split: option.splits)
  have "\<forall>e \<in> set (handle env clk link outcome ids entry r). \<not> is_execute e"
  proof -
    obtain acts rest where "?d = (acts, rest)" by (rule prod.exhaust)
    with d have "\<forall>e \<in> set acts. \<not> is_execute e" by simp
    with \<open>?d = (acts, rest)\<close> show ?thesis
      by (auto simp: handle_command_of assms(1) Let_def split: option.splits prod.splits if_splits)
  qed
  moreover have "\<exists>text. ?d = ([], ACK_EXPIRED, text, None, False)"
    if "refused = None" "\<forall>k. operation_key c = Some k \<longrightarrow> \<not> fst (entry k)"
    using that link by (auto simp: decide_def Let_def split: option.splits)
  ultimately show ?thesis by (force simp: handle_command_of assms(1) Let_def)
qed

theorem expired_never_runs_witness:
  "let env = \<lparr>e_node = ''n'', e_prefix = ''r/v1/'', e_str = (\<lambda>_. []), e_float = (\<lambda>_. None),
             e_sha256 = (\<lambda>_. []), e_handlers = [(''_CmdX'', ''p'')]\<rparr>;
       r = \<lparr>r_offset = 1, r_topic = ''r/v1/_CmdX/n/p'',
            r_payload = JObj [(''correlation_id'', JStr ''c''), (''expires_at'', JInt 5)],
            r_ts = 0, r_actor_id = ''u'', r_actor_label = [], r_actor_kind = ''human''\<rparr> in
     \<forall>e \<in> set (handle env (\<lambda>_. 1) (True, True) (ReturnedText None) [] (\<lambda>_. (False, None)) r). \<not> is_execute e"
proof -
  let ?env = "\<lparr>e_node = ''n'', e_prefix = ''r/v1/'', e_str = (\<lambda>_. []), e_float = (\<lambda>_. None),
             e_sha256 = (\<lambda>_. []), e_handlers = [(''_CmdX'', ''p'')]\<rparr>"
  let ?r = "\<lparr>r_offset = 1, r_topic = ''r/v1/_CmdX/n/p'',
            r_payload = JObj [(''correlation_id'', JStr ''c''), (''expires_at'', JInt 5)],
            r_ts = 0, r_actor_id = ''u'', r_actor_label = [], r_actor_kind = ''human''\<rparr>"
  have c: "command_of ?env ?r = Some (mk_command ?env (''_CmdX'', ''p'') (obj_of (r_payload ?r)) ?r [] None, None)"
    by (simp add: command_of_def parse_topic_def read_envelope_def obj_of_def)
  show ?thesis
    using expired_never_runs [OF c, of "\<lambda>_. 1" "(True, True)" "ReturnedText None" "[]" "\<lambda>_. (False, None)"]
    by (simp add: expired_def obj_of_def Let_def)
qed

section \<open>A finding\<close>

text \<open>The ledger keeps correlation ids and operation keys in one key space, and a correlation id is
  not checked. A sender that names another sender's operation key as its correlation id gets its
  command recorded under that key: the other's operation is then refused with 409 although it was
  never sent before.\<close>

definition spoof_env :: exec_env where
  "spoof_env = \<lparr>e_node = ''n'', e_prefix = ''r/v1/'', e_str = (\<lambda>_. []), e_float = (\<lambda>_. None),
     e_sha256 = (\<lambda>_. ''digest''), e_handlers = [(''_CmdX'', ''p'')]\<rparr>"

definition spoof_record :: "string \<Rightarrow> (string, json) dict \<Rightarrow> record_" where
  "spoof_record sender_id payload = \<lparr>r_offset = 1, r_topic = ''r/v1/_CmdX/n/p'', r_payload = JObj payload,
     r_ts = 0, r_actor_id = sender_id, r_actor_label = [], r_actor_kind = ''service''\<rparr>"

lemma correlation_id_can_block_operation:
  fixes victim :: string
  defines "key \<equiv> ''op'' @ CHR 0x1F # ''['' @ dumps_str ''v'' @ '', '' @ dumps_str ''o'' @ '']''"
  shows "let attacked = fold (attempt_step spoof_env sq_entry sq_started sq_answered (\<lambda>l. l))
           [\<lparr>at_record = spoof_record ''mallory'' [(''correlation_id'', JStr key)], at_clock = \<lambda>_. 0,
             at_link = (True, True), at_outcome = ReturnedText None, at_cut = None\<rparr>,
            \<lparr>at_record = spoof_record ''v'' [(''correlation_id'', JStr ''c''), (''operation_id'', JStr ''o'')],
             at_clock = \<lambda>_. 0, at_link = (True, True), at_outcome = ReturnedText None, at_cut = None\<rparr>]
           \<lparr>x_ledger = mk_sqlite_ledger SQLITE_KEEP_S [], x_answered = [], x_trace = []\<rparr> in
     \<not> (\<exists>c. Execute c \<in> set (x_trace attacked) \<and> c_actor_id c = ''v'')"
proof -
  have key: "dumps_str ''v'' = [CHR 0x22, CHR ''v'', CHR 0x22]"
    "dumps_str ''o'' = [CHR 0x22, CHR ''o'', CHR 0x22]"
    by (simp_all add: dumps_str_def esc_def Let_def)
  show ?thesis
    by (simp add: key_def key attempt_step_def attempt_effects_def handle_def spoof_record_def spoof_env_def
        parse_topic_def obj_of_def read_envelope_def check_operation_id_def OPERATION_ID_MAX_def has_control_def
        mk_command_def correlation_of_def decide_def operation_key_def link_before_def expired_def
        run_handler_def Let_def sq_entry_def rows_entry_def mk_sqlite_ledger_def sq_started_def rows_started_def
        insert_row_def sq_answered_def rows_answered_def remember_def ANSWERED_LIMIT_def replay_def answer_body_def)
qed

end
