(* ===== verification/Chaski_Publishing.thy ===== *)
theory Chaski_Publishing
  imports Chaski_Prelude
begin

text \<open>
  Pipelined publishes: \<open>src/chaski/publishing.py\<close> (\<open>Pubacks\<close>, \<open>Unconfirmed\<close>,
  \<open>PublishBatch\<close>). The writes are numbered in the order \<open>send\<close> made them; \<open>mid\<close> is the MQTT
  message id the client gave each, which the client reuses after 65535 writes.
\<close>

definition PUBLISH_WINDOW :: nat where "PUBLISH_WINDOW = 64"
definition EARLY_LIMIT :: nat where "EARLY_LIMIT = 256"

section \<open>Matching PUBACKs\<close>

text \<open>\<open>u_code = Some c\<close>: resolved with reason code \<open>c\<close>.\<close>

record unconfirmed =
  u_mid :: nat
  u_topic :: string
  u_code :: "nat option"

record pubacks =
  pa_writes :: "unconfirmed list"
  pa_waiting :: "(nat, nat) dict"
  pa_early :: "(nat, nat) dict"

definition mk_pubacks :: pubacks where
  "mk_pubacks = \<lparr>pa_writes = [], pa_waiting = [], pa_early = []\<rparr>"

definition resolve :: "nat \<Rightarrow> nat \<Rightarrow> pubacks \<Rightarrow> pubacks" where
  "resolve i code p = p\<lparr>pa_writes := (pa_writes p)[i := (pa_writes p ! i)\<lparr>u_code := Some code\<rparr>]\<rparr>"

text \<open>\<open>_on_publish\<close>. An \<open>OrderedDict\<close> keeps the place of a key it overwrites.\<close>

definition on_publish :: "nat \<Rightarrow> nat \<Rightarrow> pubacks \<Rightarrow> pubacks" where
  "on_publish mid code p =
     (case map_of (pa_waiting p) mid of
        Some i \<Rightarrow> resolve i code (p\<lparr>pa_waiting := AList.delete mid (pa_waiting p)\<rparr>)
      | None \<Rightarrow>
          let early = AList.update mid code (pa_early p)
          in p\<lparr>pa_early := drop (length early - EARLY_LIMIT) early\<rparr>)"

text \<open>\<open>send\<close> once the client gave the write its \<open>mid\<close>; the write's number is the old length.\<close>

definition pub_send :: "nat \<Rightarrow> string \<Rightarrow> pubacks \<Rightarrow> pubacks" where
  "pub_send mid topic p =
     (let i = length (pa_writes p);
          p = p\<lparr>pa_writes := pa_writes p @ [\<lparr>u_mid = mid, u_topic = topic, u_code = None\<rparr>]\<rparr>
      in case map_of (pa_early p) mid of
           None \<Rightarrow> p\<lparr>pa_waiting := AList.update mid i (pa_waiting p)\<rparr>
         | Some code \<Rightarrow> resolve i code (p\<lparr>pa_early := AList.delete mid (pa_early p)\<rparr>))"

text \<open>\<open>forget\<close>: the identity test is the write's number.\<close>

definition pub_forget :: "nat \<Rightarrow> pubacks \<Rightarrow> pubacks" where
  "pub_forget i p =
     (if map_of (pa_waiting p) (u_mid (pa_writes p ! i)) = Some i
      then p\<lparr>pa_waiting := AList.delete (u_mid (pa_writes p ! i)) (pa_waiting p)\<rparr> else p)"

definition write_done :: "nat \<Rightarrow> pubacks \<Rightarrow> bool" where
  "write_done i p = (u_code (pa_writes p ! i) \<noteq> None)"

datatype verdict = Confirmed | Refused nat | TimedOut

text \<open>\<open>Unconfirmed.wait\<close> when it ends: resolved, or the deadline passed.\<close>

definition unconfirmed_wait :: "nat \<Rightarrow> pubacks \<Rightarrow> verdict \<times> pubacks" where
  "unconfirmed_wait i p =
     (case u_code (pa_writes p ! i) of
        None \<Rightarrow> (TimedOut, pub_forget i p)
      | Some code \<Rightarrow> (if 0x80 \<le> code then Refused code else Confirmed, p))"

datatype pub_event = Sends nat string | Puback nat nat | GivesUp nat

fun pub_step :: "pub_event \<Rightarrow> pubacks \<Rightarrow> pubacks" where
  "pub_step (Sends mid topic) p = pub_send mid topic p"
| "pub_step (Puback mid code) p = on_publish mid code p"
| "pub_step (GivesUp i) p = (if i < length (pa_writes p) then snd (unconfirmed_wait i p) else p)"

section \<open>Batches\<close>

text \<open>A batch sees each write as what its \<open>wait\<close> will give. \<open>done\<close> says which writes are resolved
  when \<open>add\<close> looks.\<close>

record batch =
  bt_window :: nat
  bt_pending :: "(nat \<times> string option) list"
  bt_origin :: "string option"
  bt_failed_origin :: "string option"
  bt_sent :: nat

definition mk_batch :: "nat \<Rightarrow> batch outcome" where
  "mk_batch w = (if w < 1 then Inl ValueError
     else Inr \<lparr>bt_window = w, bt_pending = [], bt_origin = None, bt_failed_origin = None, bt_sent = 0\<rparr>)"

text \<open>The \<open>while\<close> of \<open>add\<close>: \<open>Some (i, v)\<close> is the failure it raised, of write \<open>i\<close>, which has left the queue by then.\<close>

fun drain_window :: "(nat \<Rightarrow> verdict) \<Rightarrow> (nat \<Rightarrow> bool) \<Rightarrow> nat \<Rightarrow> (nat \<times> string option) list
    \<Rightarrow> (nat \<times> verdict) option \<times> (nat \<times> string option) list" where
  "drain_window verdict finished w [] = (None, [])"
| "drain_window verdict finished w (x # xs) =
     (if finished (fst x) \<or> w < length (x # xs)
      then (if verdict (fst x) = Confirmed then drain_window verdict finished w xs
            else (Some (fst x, verdict (fst x)), xs))
      else (None, x # xs))"

definition batch_add :: "(nat \<Rightarrow> verdict) \<Rightarrow> (nat \<Rightarrow> bool) \<Rightarrow> nat \<Rightarrow> batch \<Rightarrow> (nat \<times> verdict) option \<times> batch" where
  "batch_add verdict finished i b =
     (let (failure, rest) = drain_window verdict finished (bt_window b) (bt_pending b @ [(i, bt_origin b)])
      in (failure, b\<lparr>bt_pending := rest, bt_sent := bt_sent b + 1\<rparr>))"

text \<open>\<open>settle\<close>: wait for all, then raise the first failure.\<close>

definition settle_batch :: "(nat \<Rightarrow> verdict) \<Rightarrow> batch \<Rightarrow> verdict option \<times> batch" where
  "settle_batch verdict b =
     (case filter (\<lambda>x. verdict (fst x) \<noteq> Confirmed) (bt_pending b) of
        [] \<Rightarrow> (None, b\<lparr>bt_pending := []\<rparr>)
      | (i, who) # _ \<Rightarrow> (Some (verdict i), b\<lparr>bt_pending := [], bt_failed_origin := who\<rparr>))"

text \<open>A block: writes made for an origin, each with what was resolved then. A failure \<open>add\<close> raises ends the block, or its
  caller handles it and goes on; either way the callers settle at the end (\<open>finally\<close>). The failures \<open>add\<close> raised, each with
  the write that was being added, and what \<open>settle\<close> raised.\<close>

fun add_all :: "(nat \<Rightarrow> verdict) \<Rightarrow> (nat \<times> string option \<times> (nat \<Rightarrow> bool)) list \<Rightarrow> batch \<Rightarrow> (nat \<times> nat \<times> verdict) list \<times> batch" where
  "add_all verdict [] b = ([], b)"
| "add_all verdict ((i, who, finished) # ws) b =
     (case batch_add verdict finished i (b\<lparr>bt_origin := who\<rparr>) of
        (f, b) \<Rightarrow> (case add_all verdict ws b of
           (raised, b) \<Rightarrow> ((case f of None \<Rightarrow> raised | Some jv \<Rightarrow> (i, jv) # raised), b)))"

definition run_batch :: "(nat \<Rightarrow> verdict) \<Rightarrow> (nat \<times> string option \<times> (nat \<Rightarrow> bool)) list \<Rightarrow> batch
    \<Rightarrow> (nat \<times> nat \<times> verdict) list \<times> verdict option \<times> batch" where
  "run_batch verdict ws b =
     (case add_all verdict ws b of (raised, b) \<Rightarrow> (case settle_batch verdict b of (failure, b) \<Rightarrow> (raised, failure, b)))"

section \<open>Lemmas on batches\<close>





section \<open>Properties\<close>


text \<open>A window of one: adding write 1 waits for write 0, which was refused, and raises its failure there; \<open>settle\<close> then
  confirms write 1 and returns.\<close>

lemma refused_write_raised_elsewhere:
  "\<exists>b b'. mk_batch 1 = Inr b
     \<and> run_batch (\<lambda>i. if i = 0 then Refused 151 else Confirmed) [(0, Some ''a'', \<lambda>_. False), (1, Some ''c'', \<lambda>_. False)] b
         = ([(1, 0, Refused 151)], None, b')"
  by (simp add: mk_batch_def run_batch_def batch_add_def settle_batch_def Let_def)


section \<open>Lemmas on PUBACKs\<close>

text \<open>A resolved write was resolved with a PUBACK of its own message id: \<open>seen\<close> are the PUBACKs that
  arrived, as \<open>(mid, code)\<close>.\<close>

definition pubacks_inv :: "(nat \<times> nat) set \<Rightarrow> pubacks \<Rightarrow> bool" where
  "pubacks_inv seen p \<longleftrightarrow>
     (\<forall>i < length (pa_writes p). \<forall>c. u_code (pa_writes p ! i) = Some c \<longrightarrow> (u_mid (pa_writes p ! i), c) \<in> seen)
     \<and> (\<forall>m i. map_of (pa_waiting p) m = Some i \<longrightarrow>
          i < length (pa_writes p) \<and> u_mid (pa_writes p ! i) = m \<and> u_code (pa_writes p ! i) = None)
     \<and> set (pa_early p) \<subseteq> seen \<and> length (pa_early p) \<le> EARLY_LIMIT"

lemma set_alist_update_sub: "set (AList.update k v d) \<subseteq> insert (k, v) (set d)"
  by (induction d) auto

lemma pubacks_inv_on_publish:
  assumes "pubacks_inv seen p" shows "pubacks_inv (insert (mid, code) seen) (on_publish mid code p)"
proof (cases "map_of (pa_waiting p) mid")
  case None
  let ?e = "AList.update mid code (pa_early p)"
  have "set (drop (length ?e - EARLY_LIMIT) ?e) \<subseteq> insert (mid, code) seen"
    using assms set_alist_update_sub [of mid code "pa_early p"] set_drop_subset [of "length ?e - EARLY_LIMIT" ?e]
    unfolding pubacks_inv_def by blast
  with assms None show ?thesis by (auto simp: pubacks_inv_def on_publish_def Let_def)
next
  case (Some i)
  with assms have i: "i < length (pa_writes p)" "u_mid (pa_writes p ! i) = mid" by (auto simp: pubacks_inv_def)
  have other: "j \<noteq> i" if "map_of (pa_waiting p) m = Some j" "m \<noteq> mid" for m j
    using assms that i(2) by (auto simp: pubacks_inv_def)
  show ?thesis
    using assms Some i other
    by (auto simp: pubacks_inv_def on_publish_def resolve_def nth_list_update)
qed

lemma pubacks_inv_send:
  assumes "pubacks_inv seen p" shows "pubacks_inv seen (pub_send mid topic p)"
proof (cases "map_of (pa_early p) mid")
  case None
  with assms show ?thesis by (auto simp: pubacks_inv_def pub_send_def Let_def nth_append less_SucI)
next
  case (Some code)
  then have "(mid, code) \<in> seen" using assms map_of_SomeD unfolding pubacks_inv_def by fastforce
  moreover have "set (AList.delete mid (pa_early p)) \<subseteq> set (pa_early p)" by (auto simp: AList.delete_eq)
  moreover have "length (AList.delete mid (pa_early p)) \<le> length (pa_early p)" by (rule length_delete_le)
  ultimately show ?thesis using assms Some
    by (auto simp: pubacks_inv_def pub_send_def resolve_def Let_def nth_append nth_list_update less_SucI)
qed

lemma pubacks_inv_forget:
  assumes "pubacks_inv seen p" shows "pubacks_inv seen (pub_forget i p)"
proof -
  have "pa_writes (pub_forget i p) = pa_writes p" "pa_early (pub_forget i p) = pa_early p"
    by (simp_all add: pub_forget_def)
  moreover have "map_of (pa_waiting (pub_forget i p)) m = Some j \<Longrightarrow> map_of (pa_waiting p) m = Some j" for m j
    by (auto simp: pub_forget_def split: if_splits)
  ultimately show ?thesis using assms unfolding pubacks_inv_def by metis
qed

lemma pubacks_inv_step:
  assumes "pubacks_inv seen p"
  shows "pubacks_inv (seen \<union> (case e of Puback m c \<Rightarrow> {(m, c)} | _ \<Rightarrow> {})) (pub_step e p)"
proof (cases e)
  case (Sends m t)
  with pubacks_inv_send [OF assms] show ?thesis by simp
next
  case (Puback m c)
  with pubacks_inv_on_publish [OF assms] show ?thesis by simp
next
  case (GivesUp i)
  with assms pubacks_inv_forget [OF assms] show ?thesis
    by (simp add: unconfirmed_wait_def split: option.split)
qed

text \<open>A PUBACK confirms only a write of its own message id, and memory stays bounded. After any
  interleaving of sends, PUBACKs and timeouts, a write that is resolved with a code was resolved by a
  PUBACK that arrived with that code and the write's message id; at most 256 early PUBACKs are kept;
  and a PUBACK for a waiting write resolves exactly that write.\<close>

theorem puback_resolves_its_write:
  "let p = fold pub_step es mk_pubacks in
     (\<forall>i < length (pa_writes p). \<forall>c. u_code (pa_writes p ! i) = Some c \<longrightarrow>
         Puback (u_mid (pa_writes p ! i)) c \<in> set es)
     \<and> length (pa_early p) \<le> EARLY_LIMIT
     \<and> (\<forall>m i c. map_of (pa_waiting p) m = Some i \<longrightarrow>
          pa_writes (on_publish m c p) = (pa_writes p)[i := (pa_writes p ! i)\<lparr>u_code := Some c\<rparr>]
          \<and> u_mid (pa_writes p ! i) = m)"
proof -
  have "pubacks_inv {(m, c). Puback m c \<in> set es} (fold pub_step es mk_pubacks)"
  proof (induction es rule: rev_induct)
    case Nil
    show ?case by (simp add: pubacks_inv_def mk_pubacks_def)
  next
    case (snoc e es)
    have "{(m, c). Puback m c \<in> set (es @ [e])} =
        {(m, c). Puback m c \<in> set es} \<union> (case e of Puback m c \<Rightarrow> {(m, c)} | _ \<Rightarrow> {})"
      by (cases e) auto
    with pubacks_inv_step [OF snoc] show ?case by simp
  qed
  then show ?thesis by (auto simp: Let_def pubacks_inv_def on_publish_def resolve_def)
qed

theorem puback_resolves_its_write_witness:
  "let p = fold pub_step [Puback 7 0, Sends 7 ''a'', Sends 8 ''b''] mk_pubacks in
     u_code (pa_writes p ! 0) = Some 0 \<and> length (pa_early p) \<le> EARLY_LIMIT"
  using puback_resolves_its_write [of "[Puback 7 0, Sends 7 ''a'', Sends 8 ''b'']"]
  by (simp add: Let_def mk_pubacks_def on_publish_def pub_send_def resolve_def EARLY_LIMIT_def)

section \<open>A finding\<close>

text \<open>The PUBACK of a write nobody registers (a waited publish) stays among the early ones. A later
  tracked write that the client gives the same message id, after the ids wrapped around, is resolved
  by it at once, before the node confirmed it.\<close>

lemma reused_message_id_confirmed_early:
  "let p = fold pub_step [Puback 1 0] mk_pubacks; p' = pub_send 1 ''later'' p in
     write_done 0 p' \<and> fst (unconfirmed_wait 0 p') = Confirmed"
  by (simp add: Let_def mk_pubacks_def on_publish_def pub_send_def resolve_def EARLY_LIMIT_def write_done_def
      unconfirmed_wait_def)

end
