(* ===== verification/Chaski_Subscriptions.thy ===== *)
theory Chaski_Subscriptions
  imports Chaski_Prelude
begin

text \<open>
  Held MQTT subscriptions and topic wake-ups: \<open>src/chaski/subscriptions.py\<close> (\<open>Subscriptions\<close>)
  and \<open>src/chaski/topic_wakeup.py\<close> (\<open>TopicFanout\<close>, \<open>TopicWakeup\<close>). \<open>topic_matches_sub\<close> of the MQTT
  client is the argument \<open>matches\<close>.
\<close>

section \<open>Subscriptions\<close>

text \<open>\<open>su_retry\<close> counts the failures of each topic's backoff; \<open>su_timers\<close> are the topics with a retry
  timer running.\<close>

record subscriptions =
  su_held :: "(string, nat) dict"
  su_pending :: "(nat, string) dict"
  su_retry :: "(string, nat) dict"
  su_timers :: "string list"

definition mk_subscriptions :: subscriptions where
  "mk_subscriptions = \<lparr>su_held = [], su_pending = [], su_retry = [], su_timers = []\<rparr>"

definition code_refused :: "nat \<Rightarrow> bool" where
  "code_refused code = (0x80 \<le> code)"

definition stop_timer :: "string \<Rightarrow> subscriptions \<Rightarrow> subscriptions" where
  "stop_timer topic s = s\<lparr>su_timers := filter (\<lambda>t. t \<noteq> topic) (su_timers s)\<rparr>"

text \<open>\<open>tracked_subscribe\<close> takes the lock twice, before and after the client's call: \<open>sub_hold\<close>, and \<open>sub_sent\<close> (with the message id, if the client gave one).\<close>

definition sub_hold :: "string \<Rightarrow> nat \<Rightarrow> subscriptions \<Rightarrow> subscriptions" where
  "sub_hold topic qos s = s\<lparr>su_held := AList.update topic qos (su_held s)\<rparr>"

definition sub_sent :: "string \<Rightarrow> nat option \<Rightarrow> subscriptions \<Rightarrow> subscriptions" where
  "sub_sent topic mid s = (case mid of None \<Rightarrow> s | Some m \<Rightarrow> s\<lparr>su_pending := AList.update m topic (su_pending s)\<rparr>)"

definition tracked_unsubscribe :: "string \<Rightarrow> subscriptions \<Rightarrow> subscriptions" where
  "tracked_unsubscribe topic s =
     stop_timer topic (s\<lparr>su_held := AList.delete topic (su_held s), su_retry := AList.delete topic (su_retry s)\<rparr>)"

definition close_subscriptions :: "subscriptions \<Rightarrow> subscriptions" where
  "close_subscriptions s = mk_subscriptions"

text \<open>\<open>renew\<close>: the client call it makes, if the topic is still held.\<close>

definition renew :: "string \<Rightarrow> subscriptions \<Rightarrow> (string \<times> nat) option \<times> subscriptions" where
  "renew topic s = (map_option (\<lambda>q. (topic, q)) (map_of (su_held s) topic), stop_timer topic s)"

definition restore_topics :: "string set \<Rightarrow> subscriptions \<Rightarrow> string list" where
  "restore_topics later s = sort (remdups (filter (\<lambda>t. t \<notin> later) (map fst (su_held s))))"

definition on_subscribe :: "nat \<Rightarrow> nat list \<Rightarrow> subscriptions \<Rightarrow> subscriptions" where
  "on_subscribe mid codes s =
     (case map_of (su_pending s) mid of
        None \<Rightarrow> s
      | Some topic \<Rightarrow>
          let s = s\<lparr>su_pending := AList.delete mid (su_pending s)\<rparr> in
          if map_of (su_held s) topic = None then s
          else if \<not> (\<exists>c \<in> set codes. code_refused c)
            then stop_timer topic (s\<lparr>su_retry := AList.delete topic (su_retry s)\<rparr>)
          else if topic \<in> set (su_timers s) then s
          else s\<lparr>su_retry := AList.update topic
                    (case map_of (su_retry s) topic of None \<Rightarrow> 1 | Some n \<Rightarrow> n + 1) (su_retry s),
                 su_timers := su_timers s @ [topic]\<rparr>)"

text \<open>The two halves of \<open>tracked_subscribe\<close> are two events: anything may come in between, the SUBACK included. A renewal
  (a retry timer, or a restore) makes its call at once, which returns as a \<open>Returns\<close> of its own. The second lock of
  \<open>_on_subscribe\<close> looks at the topic again, so the two are one step.\<close>

datatype sub_event =
    Calls string nat | Returns string "nat option" | Unsubscribes string | Renews string | Suback nat "nat list" | Closes

fun sub_step :: "sub_event \<Rightarrow> subscriptions \<Rightarrow> subscriptions" where
  "sub_step (Calls t q) s = sub_hold t q s"
| "sub_step (Returns t mid) s = sub_sent t mid s"
| "sub_step (Unsubscribes t) s = tracked_unsubscribe t s"
| "sub_step (Renews t) s = (case renew t s of (None, s) \<Rightarrow> s | (Some (t, q), s) \<Rightarrow> sub_hold t q s)"
| "sub_step (Suback mid codes) s = on_subscribe mid codes s"
| "sub_step Closes s = close_subscriptions s"

definition subscriptions_inv :: "subscriptions \<Rightarrow> bool" where
  "subscriptions_inv s \<longleftrightarrow> distinct (su_timers s)
     \<and> (\<forall>t \<in> set (su_timers s). map_of (su_held s) t \<noteq> None)
     \<and> (\<forall>t. map_of (su_retry s) t \<noteq> None \<longrightarrow> map_of (su_held s) t \<noteq> None)"

lemma subscriptions_inv_step: "subscriptions_inv s \<Longrightarrow> subscriptions_inv (sub_step e s)"
  by (cases e)
    (auto simp: subscriptions_inv_def sub_hold_def sub_sent_def tracked_unsubscribe_def
      stop_timer_def renew_def on_subscribe_def close_subscriptions_def mk_subscriptions_def Let_def
      split: option.splits)

section \<open>Topic wake-ups\<close>

text \<open>Wake-ups are numbered. \<open>fn_subscribed\<close> is what the client is subscribed to.\<close>

record fanout =
  fn_wanted :: "(string, nat list) dict"
  fn_subscribed :: "string list"

definition holders :: "string \<Rightarrow> fanout \<Rightarrow> nat list" where
  "holders topic f = (case map_of (fn_wanted f) topic of None \<Rightarrow> [] | Some ws \<Rightarrow> ws)"

text \<open>\<open>add\<close> and \<open>remove\<close> change the table under the lock and call the client after it: the flag says
  whether the client is called.\<close>

definition fan_add_locked :: "string \<Rightarrow> nat \<Rightarrow> fanout \<Rightarrow> bool \<times> fanout" where
  "fan_add_locked topic w f =
     (holders topic f = [],
      f\<lparr>fn_wanted := AList.update topic (List.insert w (holders topic f)) (fn_wanted f)\<rparr>)"

definition client_subscribe :: "string \<Rightarrow> fanout \<Rightarrow> fanout" where
  "client_subscribe topic f = f\<lparr>fn_subscribed := List.insert topic (fn_subscribed f)\<rparr>"

definition client_unsubscribe :: "string \<Rightarrow> fanout \<Rightarrow> fanout" where
  "client_unsubscribe topic f = f\<lparr>fn_subscribed := removeAll topic (fn_subscribed f)\<rparr>"

definition fan_add :: "string \<Rightarrow> nat \<Rightarrow> fanout \<Rightarrow> fanout" where
  "fan_add topic w f =
     (case fan_add_locked topic w f of (first, f') \<Rightarrow> if first then client_subscribe topic f' else f')"

definition fan_remove_locked :: "string \<Rightarrow> nat \<Rightarrow> fanout \<Rightarrow> bool \<times> fanout" where
  "fan_remove_locked topic w f =
     (if holders topic f = [] then (False, f)
      else let rest = removeAll w (holders topic f) in
        (rest = [], f\<lparr>fn_wanted := (if rest = [] then AList.delete topic (fn_wanted f)
                                   else AList.update topic rest (fn_wanted f))\<rparr>))"

definition fan_remove :: "string \<Rightarrow> nat \<Rightarrow> fanout \<Rightarrow> fanout" where
  "fan_remove topic w f =
     (case fan_remove_locked topic w f of (was_last, f') \<Rightarrow> if was_last then client_unsubscribe topic f' else f')"

definition is_filter :: "string \<Rightarrow> bool" where
  "is_filter topic = (CHR ''+'' \<in> set topic \<or> CHR ''#'' \<in> set topic)"

text \<open>\<open>_on_message\<close>: the wake-ups rung by a message on \<open>topic\<close>.\<close>

definition fan_rings :: "(string \<Rightarrow> string \<Rightarrow> bool) \<Rightarrow> string \<Rightarrow> fanout \<Rightarrow> nat set" where
  "fan_rings matches topic f =
     (if topic = [] then (\<Union>(_, ws) \<in> set (fn_wanted f). set ws)
      else (\<Union>(wanted, ws) \<in> set (fn_wanted f).
              if wanted = topic \<or> (is_filter wanted \<and> matches wanted topic) then set ws else {}))"

text \<open>The wake-ups of one service: their topics and generations; \<open>hb_closed\<close> are those closed.\<close>

record hub =
  hb_fan :: fanout
  hb_topics :: "nat \<Rightarrow> string set"
  hb_bell :: "nat \<Rightarrow> nat"
  hb_closed :: "nat set"

definition mk_hub :: hub where
  "mk_hub = \<lparr>hb_fan = \<lparr>fn_wanted = [], fn_subscribed = []\<rparr>, hb_topics = (\<lambda>_. {}), hb_bell = (\<lambda>_. 0), hb_closed = {}\<rparr>"

definition rebind :: "nat \<Rightarrow> string list \<Rightarrow> hub \<Rightarrow> hub" where
  "rebind w topics h =
     (if w \<in> hb_closed h then h
      else
        let wanted = set topics; old = hb_topics h w;
            added = sorted_list_of_set (wanted - old); removed = sorted_list_of_set (old - wanted);
            f = fold (\<lambda>t. fan_remove t w) removed (fold (\<lambda>t. fan_add t w) added (hb_fan h))
        in h\<lparr>hb_fan := f, hb_topics := (hb_topics h)(w := wanted),
             hb_bell := (if added \<noteq> [] \<or> removed \<noteq> [] then (hb_bell h)(w := hb_bell h w + 1) else hb_bell h)\<rparr>)"

definition close_wakeup :: "nat \<Rightarrow> hub \<Rightarrow> hub" where
  "close_wakeup w h =
     h\<lparr>hb_fan := fold (\<lambda>t. fan_remove t w) (sorted_list_of_set (hb_topics h w)) (hb_fan h),
       hb_topics := (hb_topics h)(w := {}), hb_closed := insert w (hb_closed h)\<rparr>"

datatype hub_event = Rebinds nat "string list" | ClosesWakeup nat

fun hub_step :: "hub_event \<Rightarrow> hub \<Rightarrow> hub" where
  "hub_step (Rebinds w ts) h = rebind w ts h"
| "hub_step (ClosesWakeup w) h = close_wakeup w h"

section \<open>Lemmas on wake-ups\<close>

text \<open>The table without empty entries, subscribed to exactly its topics.\<close>

definition fanout_inv :: "fanout \<Rightarrow> bool" where
  "fanout_inv f \<longleftrightarrow> dict_ok (fn_wanted f) \<and> (\<forall>t. map_of (fn_wanted f) t \<noteq> Some [])
     \<and> (\<forall>t. t \<in> set (fn_subscribed f) \<longleftrightarrow> holders t f \<noteq> [])"

lemma holders_add: "set (holders t' (fan_add t w f)) = (if t' = t then insert w (set (holders t f)) else set (holders t' f))"
  by (auto simp: fan_add_def fan_add_locked_def holders_def client_subscribe_def split: option.splits)

lemma removeAll_Nil: "removeAll w xs = [] \<longleftrightarrow> set xs \<subseteq> {w}"
  by (induction xs) auto

lemma in_holders: "w \<in> set (holders t f) \<longleftrightarrow> (\<exists>ws. map_of (fn_wanted f) t = Some ws \<and> w \<in> set ws)"
  by (cases "map_of (fn_wanted f) t") (simp_all add: holders_def)

lemma in_fan_rings:
  "dict_ok (fn_wanted f) \<Longrightarrow> topic \<noteq> [] \<Longrightarrow>
     w \<in> fan_rings matches topic f \<longleftrightarrow>
       (\<exists>t. w \<in> set (holders t f) \<and> (t = topic \<or> (is_filter t \<and> matches t topic)))"
  unfolding in_holders fan_rings_def
  by (auto simp: map_of_eq_Some_iff split: if_splits) force+

lemma holders_remove: "set (holders t' (fan_remove t w f)) = (if t' = t then set (holders t f) - {w} else set (holders t' f))"
  by (auto simp: fan_remove_def fan_remove_locked_def holders_def client_unsubscribe_def Let_def removeAll_Nil split: option.splits)

lemma fanout_inv_add: "fanout_inv f \<Longrightarrow> fanout_inv (fan_add t w f)"
  by (auto simp: fanout_inv_def fan_add_def fan_add_locked_def holders_def client_subscribe_def List.insert_def
      dict_ok_update split: option.splits if_splits)

lemma fanout_inv_remove: "fanout_inv f \<Longrightarrow> fanout_inv (fan_remove t w f)"
  by (auto simp: fanout_inv_def fan_remove_def fan_remove_locked_def holders_def client_unsubscribe_def Let_def
      dict_ok_update dict_ok_delete split: option.splits if_splits)

lemma fold_fan_add:
  "fanout_inv f \<Longrightarrow> fanout_inv (fold (\<lambda>t. fan_add t w) ts f)
     \<and> (\<forall>t. set (holders t (fold (\<lambda>t. fan_add t w) ts f)) = set (holders t f) \<union> (if t \<in> set ts then {w} else {}))"
  by (induction ts arbitrary: f) (auto simp: fanout_inv_add holders_add)

lemma fold_fan_remove:
  "fanout_inv f \<Longrightarrow> fanout_inv (fold (\<lambda>t. fan_remove t w) ts f)
     \<and> (\<forall>t. set (holders t (fold (\<lambda>t. fan_remove t w) ts f)) = set (holders t f) - (if t \<in> set ts then {w} else {}))"
  by (induction ts arbitrary: f) (auto simp: fanout_inv_remove holders_remove)

definition hub_inv :: "hub \<Rightarrow> bool" where
  "hub_inv h \<longleftrightarrow> fanout_inv (hb_fan h) \<and> (\<forall>w. finite (hb_topics h w))
     \<and> (\<forall>t w. w \<in> set (holders t (hb_fan h)) \<longleftrightarrow> t \<in> hb_topics h w)"

lemma hub_inv_step: "hub_inv h \<Longrightarrow> hub_inv (hub_step e h)"
proof (cases e)
  case (Rebinds w ts)
  assume h: "hub_inv h"
  let ?added = "sorted_list_of_set (set ts - hb_topics h w)" and ?removed = "sorted_list_of_set (hb_topics h w - set ts)"
  let ?f1 = "fold (\<lambda>t. fan_add t w) ?added (hb_fan h)"
  have fin: "finite (hb_topics h w)" using h by (simp add: hub_inv_def)
  have 1: "fanout_inv ?f1" "\<And>t. set (holders t ?f1) = set (holders t (hb_fan h)) \<union> (if t \<in> set ?added then {w} else {})"
    using fold_fan_add [of "hb_fan h" w ?added] h by (auto simp: hub_inv_def)
  note 2 = fold_fan_remove [OF 1(1), of w ?removed]
  show ?thesis
  proof (cases "w \<in> hb_closed h")
    case False
    then have "hub_step e h = h\<lparr>hb_fan := fold (\<lambda>t. fan_remove t w) ?removed ?f1, hb_topics := (hb_topics h)(w := set ts),
        hb_bell := (if ?added \<noteq> [] \<or> ?removed \<noteq> [] then (hb_bell h)(w := hb_bell h w + 1) else hb_bell h)\<rparr>"
      by (simp add: Rebinds rebind_def Let_def del: sorted_list_of_set_eq_Nil_iff)
    with h 1 2 fin show ?thesis by (auto simp: hub_inv_def)
  qed (use h Rebinds in \<open>simp add: rebind_def\<close>)
next
  case (ClosesWakeup w)
  assume h: "hub_inv h"
  then have fin: "finite (hb_topics h w)" by (simp add: hub_inv_def)
  have "fanout_inv (hb_fan h)" using h by (simp add: hub_inv_def)
  note 2 = fold_fan_remove [OF this, of w "sorted_list_of_set (hb_topics h w)"]
  with h fin ClosesWakeup show ?thesis by (auto simp: hub_inv_def close_wakeup_def)
qed

section \<open>Properties\<close>

text \<open>What keeps a recorded message id as it is: no SUBACK for it, no other SUBSCRIBE that is given it, no close.\<close>

definition keeps_mid :: "nat \<Rightarrow> sub_event \<Rightarrow> bool" where
  "keeps_mid mid e = (case e of Suback m codes \<Rightarrow> m \<noteq> mid | Returns t m \<Rightarrow> m \<noteq> Some mid | Closes \<Rightarrow> False | _ \<Rightarrow> True)"

lemma pending_kept:
  "\<forall>e \<in> set es. keeps_mid mid e \<Longrightarrow> map_of (su_pending (fold sub_step es s)) mid = map_of (su_pending s) mid"
proof (induction es arbitrary: s)
  case (Cons e es)
  have "map_of (su_pending (sub_step e s)) mid = map_of (su_pending s) mid"
    using Cons.prems
    by (cases e) (auto simp: keeps_mid_def sub_hold_def sub_sent_def tracked_unsubscribe_def stop_timer_def renew_def
        on_subscribe_def Let_def split: option.splits)
  then show ?case using Cons by simp
qed simp

text \<open>C14: A refused subscription that is still held is retried. In every state reachable by calls of \<open>subscribe\<close>, their
  returns, unsubscribing, renewing, SUBACKs and closing, in any order: retry timers run only for held topics and never twice
  for one, and a restore covers exactly the held topics the caller does not renew itself. A SUBACK for a message id that
  the call's return has recorded, and that no other SUBACK has answered, leaves a timer running for its topic, if that is
  still held, exactly when it refuses it; one that accepts it also forgets its backoff. (A SUBACK that comes before the call
  returned is dropped.)\<close>

theorem refused_subscription_retried:
  "let s = fold sub_step es mk_subscriptions in
     distinct (su_timers s) \<and> set (su_timers s) \<subseteq> fst ` set (su_held s)
     \<and> set (restore_topics later s) = fst ` set (su_held s) - later
     \<and> (\<forall>es1 es2 topic mid codes. es = es1 @ Returns topic (Some mid) # es2 \<and> (\<forall>e \<in> set es2. keeps_mid mid e)
            \<and> map_of (su_held s) topic \<noteq> None \<longrightarrow>
          (topic \<in> set (su_timers (on_subscribe mid codes s)) \<longleftrightarrow> (\<exists>c \<in> set codes. code_refused c))
          \<and> ((\<forall>c \<in> set codes. \<not> code_refused c) \<longrightarrow> map_of (su_retry (on_subscribe mid codes s)) topic = None))"
proof -
  let ?s = "fold sub_step es mk_subscriptions"
  have inv: "subscriptions_inv ?s"
    by (induction es rule: rev_induct)
      (simp_all add: subscriptions_inv_step, simp add: subscriptions_inv_def mk_subscriptions_def)
  have answered: "(topic \<in> set (su_timers (on_subscribe mid codes ?s)) \<longleftrightarrow> (\<exists>c \<in> set codes. code_refused c))
      \<and> ((\<forall>c \<in> set codes. \<not> code_refused c) \<longrightarrow> map_of (su_retry (on_subscribe mid codes ?s)) topic = None)"
    if es: "es = es1 @ Returns topic (Some mid) # es2" "\<forall>e \<in> set es2. keeps_mid mid e" "map_of (su_held ?s) topic \<noteq> None"
    for es1 es2 topic mid codes
  proof -
    have "map_of (su_pending ?s) mid = Some topic" using pending_kept [OF es(2)] unfolding es(1) by (simp add: sub_sent_def)
    then show ?thesis using es(3) by (auto simp: on_subscribe_def stop_timer_def Let_def)
  qed
  have frame: "distinct (su_timers ?s)" "set (su_timers ?s) \<subseteq> fst ` set (su_held ?s)"
      "set (restore_topics later ?s) = fst ` set (su_held ?s) - later"
    using inv by (auto simp: subscriptions_inv_def restore_topics_def map_of_eq_None_iff)
  show ?thesis unfolding Let_def
    by (rule conjI [OF frame(1) conjI [OF frame(2) conjI [OF frame(3)]]], intro allI impI, rule answered) (elim conjE, assumption)+
qed

theorem refused_subscription_retried_witness:
  "let s = fold sub_step [Calls ''t'' 1, Returns ''t'' (Some 5), Renews ''t''] mk_subscriptions in
     ''t'' \<in> set (su_timers (on_subscribe 5 [0x87] s))"
proof -
  let ?es = "[Calls ''t'' 1, Returns ''t'' (Some 5), Renews ''t'']"
  have es: "?es = [Calls ''t'' 1] @ Returns ''t'' (Some 5) # [Renews ''t'']" "\<forall>e \<in> set [Renews ''t'']. keeps_mid 5 e"
    "map_of (su_held (fold sub_step ?es mk_subscriptions)) ''t'' \<noteq> None"
    by (simp_all add: keeps_mid_def sub_hold_def sub_sent_def renew_def stop_timer_def mk_subscriptions_def)
  have r: "\<exists>c \<in> set [0x87]. code_refused c" by (simp add: code_refused_def)
  have "''t'' \<in> set (su_timers (on_subscribe 5 [0x87] (fold sub_step ?es mk_subscriptions))) \<longleftrightarrow> (\<exists>c \<in> set [0x87]. code_refused c)"
    by (rule conjunct1 [OF refused_subscription_retried [of ?es, unfolded Let_def, THEN conjunct2, THEN conjunct2, THEN conjunct2,
      THEN spec, THEN spec, THEN spec, THEN spec, THEN spec, THEN mp, OF conjI [OF es(1) conjI [OF es(2,3)]]]])
  then show ?thesis using r unfolding Let_def by blast
qed

text \<open>Wake-ups share subscriptions without losing any. After any rebinds and closes, the client is
  subscribed to exactly the topics some wake-up reads, and a message rings exactly the wake-ups that
  read its topic or a filter matching it; a change of a wake-up's topics rings its bell, so what
  arrived before the subscription existed is read.\<close>

theorem wakeups_share_topics:
  "let h = fold hub_step es mk_hub in
     (\<forall>t. t \<in> set (fn_subscribed (hb_fan h)) \<longleftrightarrow> (\<exists>w. t \<in> hb_topics h w))
     \<and> (\<forall>matches topic. topic \<noteq> [] \<longrightarrow> fan_rings matches topic (hb_fan h) =
          {w. \<exists>t \<in> hb_topics h w. t = topic \<or> (is_filter t \<and> matches t topic)})
     \<and> (\<forall>w ts. w \<notin> hb_closed h \<and> set ts \<noteq> hb_topics h w \<longrightarrow>
          hb_topics (rebind w ts h) w = set ts \<and> hb_bell (rebind w ts h) w = hb_bell h w + 1)"
proof -
  let ?h = "fold hub_step es mk_hub"
  have inv: "hub_inv ?h"
    by (induction es rule: rev_induct)
      (simp_all add: hub_inv_step, simp add: hub_inv_def mk_hub_def fanout_inv_def holders_def)
  then have ok: "fanout_inv (hb_fan ?h)" and fin: "\<And>w. finite (hb_topics ?h w)"
    and hold: "\<And>t w. w \<in> set (holders t (hb_fan ?h)) \<longleftrightarrow> t \<in> hb_topics ?h w" by (auto simp: hub_inv_def)
  have sub: "t \<in> set (fn_subscribed (hb_fan ?h)) \<longleftrightarrow> (\<exists>w. t \<in> hb_topics ?h w)" for t
    using ok hold [of _ t] unfolding fanout_inv_def by (metis list.set_intros(1) list.exhaust empty_iff empty_set)
  have rings: "fan_rings m topic (hb_fan ?h) = {w. \<exists>t \<in> hb_topics ?h w. t = topic \<or> (is_filter t \<and> m t topic)}"
    if "topic \<noteq> []" for m topic
    using in_fan_rings [OF _ that, of "hb_fan ?h" _ m] ok hold by (auto simp: fanout_inv_def)
  have bell: "hb_topics (rebind w ts ?h) w = set ts \<and> hb_bell (rebind w ts ?h) w = hb_bell ?h w + 1"
    if "w \<notin> hb_closed ?h" "set ts \<noteq> hb_topics ?h w" for w ts
    using that fin [of w] by (auto simp: rebind_def Let_def)
  show ?thesis using sub rings bell by (simp add: Let_def)
qed

theorem wakeups_share_topics_witness:
  "let h = fold hub_step [Rebinds 1 [''a''], Rebinds 2 [''a''], ClosesWakeup 1] mk_hub in
     ''a'' \<in> set (fn_subscribed (hb_fan h)) \<longleftrightarrow> (\<exists>w. ''a'' \<in> hb_topics h w)"
  using wakeups_share_topics [of "[Rebinds 1 [''a''], Rebinds 2 [''a''], ClosesWakeup 1]"]
  by (simp only: Let_def)

section \<open>Findings\<close>

text \<open>\<open>tracked_subscribe\<close> records the message id after the client's call returned. A SUBACK that the
  network thread handles before is dropped: the refusal is not retried, and the id stays pending.\<close>

lemma suback_before_sent_is_lost:
  "let s = sub_sent ''t'' (Some 5) (on_subscribe 5 [0x87] (sub_hold ''t'' 1 mk_subscriptions)) in
     su_timers s = [] \<and> map_of (su_held s) ''t'' = Some 1 \<and> map_of (su_pending s) 5 = Some ''t''"
  by (simp add: Let_def sub_sent_def sub_hold_def on_subscribe_def mk_subscriptions_def)

text \<open>\<open>add\<close> and \<open>remove\<close> call the client outside the lock. A wake-up that adds a topic between another's
  removal and its unsubscribe is left without a subscription.\<close>

lemma interleaved_add_is_unsubscribed:
  "let f0 = fan_add ''t'' 1 \<lparr>fn_wanted = [], fn_subscribed = []\<rparr>;
       (was_last, f1) = fan_remove_locked ''t'' 1 f0;
       f2 = fan_add ''t'' 2 f1;
       f3 = (if was_last then client_unsubscribe ''t'' f2 else f2) in
     holders ''t'' f3 = [2] \<and> fn_subscribed f3 = []"
  by (simp add: Let_def fan_add_def fan_add_locked_def fan_remove_locked_def client_subscribe_def
      client_unsubscribe_def holders_def List.insert_def)

end
