(* ===== verification/Chaski_Checkpoints.thy ===== *)
theory Chaski_Checkpoints
  imports Chaski_Buffer Chaski_Streams
begin

text \<open>
  The checkpoints of the producers an ingest page reaches: \<open>_PageEntry\<close>, \<open>PageCheckpoints\<close>,
  \<open>restore_checkpoint\<close> and \<open>save_checkpoint\<close> of \<open>src/chaski/dataops/base.py\<close>. A producer is named by
  its \<open>name\<close>. The producer's own code is not in the repository: \<open>snapshot_state\<close>, \<open>restore_state\<close>
  and its \<open>@on_metric\<close> methods are the fields of \<open>app\<close>, and what the documentation asks of them
  is \<open>app_ok\<close>. A producer is locked from its first record of a page to the page's end (\<open>take_turn\<close>),
  so nothing else changes its state in between.
\<close>

section \<open>Producers\<close>

text \<open>How one call of a method ends, its \<open>event_time\<close> included (a timestamp that is not finite is
  the \<open>ValueError\<close> of \<open>event_time\<close>, hence \<open>Raises\<close>). \<open>Cancels\<close>: a \<open>BaseException\<close>.\<close>

datatype call_end = Returns | RaisesReject | Raises | Cancels

text \<open>\<open>invoke n name key r m\<close>: the \<open>n\<close>-th call made, of method \<open>key\<close> of the producer \<open>name\<close>, at the
  metric of the record \<open>r\<close>, in the state \<open>m\<close>; it leaves a state also when it raises. \<open>saves n\<close>:
  SQLite accepts the \<open>n\<close>-th checkpoint.\<close>

record 'm app =
  snapshot :: "'m \<Rightarrow> json"
  restore :: "json \<Rightarrow> 'm \<Rightarrow> 'm"
  invoke :: "nat \<Rightarrow> string \<Rightarrow> string \<Rightarrow> record_ \<Rightarrow> 'm \<Rightarrow> call_end \<times> 'm"
  state_version :: "string \<Rightarrow> int option"
  code_hash :: "string \<Rightarrow> string"
  saves :: "nat \<Rightarrow> bool"

record 'm producer =
  memory :: 'm
  offsets :: "(string, int) dict"

definition handled_upto :: "(string, int) dict \<Rightarrow> string \<Rightarrow> int" where
  "handled_upto d key = (case map_of d key of Some n \<Rightarrow> n | None \<Rightarrow> -1)"

text \<open>\<open>state_copy\<close>: \<open>None\<close> is the \<open>ValueError\<close> of \<open>json.dumps(..., allow_nan=False)\<close>.\<close>

definition state_copy :: "'m app \<Rightarrow> 'm \<Rightarrow> json option" where
  "state_copy a m = (let j = snapshot a m in if has_non_finite j then None else Some j)"

definition positions_json :: "(string, int) dict \<Rightarrow> json" where
  "positions_json d = JObj (map (\<lambda>(k, n). (k, JInt n)) d)"

fun positions_of :: "json \<Rightarrow> (string, int) dict" where
  "positions_of (JObj kvs) = List.map_filter (\<lambda>(k, v). case v of JInt n \<Rightarrow> Some (k, n) | _ \<Rightarrow> None) kvs"
| "positions_of _ = []"

text \<open>\<open>save_checkpoint(producer)\<close> outside a publish batch; \<open>ok\<close>: what SQLite says.\<close>

definition save_producer :: "'m app \<Rightarrow> bool \<Rightarrow> string \<Rightarrow> 'm producer \<Rightarrow> buffer \<Rightarrow> buffer outcome" where
  "save_producer a ok name p b =
     (case state_version a name of
        None \<Rightarrow> Inr b
      | Some v \<Rightarrow>
          if \<not> ok then Inl RuntimeError
          else save_checkpoint name (code_hash a name) v (snapshot a (memory p)) (positions_json (offsets p)) b)"

definition restore_checkpoint :: "'m app \<Rightarrow> string \<Rightarrow> buffer \<Rightarrow> 'm producer \<Rightarrow> bool \<times> 'm producer" where
  "restore_checkpoint a name b p =
     (case state_version a name of
        None \<Rightarrow> (False, p)
      | Some v \<Rightarrow>
          (case checkpoint_of name b of
             None \<Rightarrow> (False, p)
           | Some c \<Rightarrow>
               if (cp_code_hash c, cp_version c) \<noteq> (code_hash a name, v) then (False, p)
               else (True, \<lparr>memory = restore a (cp_state c) (memory p), offsets = positions_of (cp_positions c)\<rparr>)))"

section \<open>One page\<close>

record page_entry =
  start_state :: json
  start_offsets :: "(string, int) dict"
  first :: "record_ option"
  base_state :: json
  base_offsets :: "(string, int) dict"
  since :: "(string \<times> record_) list"

text \<open>\<open>pg_failed\<close> is \<open>PageCheckpoints.failed\<close>: the consumer and the record of a \<open>RewindFailed\<close>.
  \<open>pg_calls\<close> counts the method calls made.\<close>

record 'm page_run =
  pg_producers :: "string \<Rightarrow> 'm producer"
  pg_entries :: "(string, page_entry) dict"
  pg_failed :: "(string \<times> record_) option"
  pg_calls :: nat

datatype handle_end = HDone | HReject | HRaise | HRewindFailed string record_ | HCancel

definition to_start :: "'m app \<Rightarrow> string \<Rightarrow> page_entry \<Rightarrow> 'm page_run \<Rightarrow> 'm page_run" where
  "to_start a name e s =
     s\<lparr>pg_producers := (pg_producers s)(name := \<lparr>memory = restore a (start_state e) (memory (pg_producers s name)),
                                              offsets = start_offsets e\<rparr>),
       pg_entries := AList.update name (e\<lparr>base_state := start_state e, base_offsets := start_offsets e, since := []\<rparr>)
                       (pg_entries s)\<rparr>"

definition abandon :: "'m app \<Rightarrow> string \<Rightarrow> record_ \<Rightarrow> 'm page_run \<Rightarrow> 'm page_run" where
  "abandon a consumer r s =
     (let s' = fold (\<lambda>(name, e) s. to_start a name (e\<lparr>first := None\<rparr>) s) (pg_entries s) s
      in s'\<lparr>pg_failed := (case pg_failed s of
              None \<Rightarrow> Some (consumer, r)
            | Some (c, f) \<Rightarrow> if r_offset r < r_offset f then Some (consumer, r) else Some (c, f))\<rparr>)"

text \<open>The calls of \<open>entry.since\<close> again.\<close>

fun rerun :: "'m app \<Rightarrow> string \<Rightarrow> (string \<times> record_) list \<Rightarrow> nat \<Rightarrow> 'm producer
    \<Rightarrow> (call_end \<times> string) \<times> nat \<times> 'm producer" where
  "rerun a name [] n p = ((Returns, name), n, p)"
| "rerun a name ((key, r) # rest) n p =
     (case invoke a n name key r (memory p) of
        (Returns, m) \<Rightarrow> rerun a name rest (n + 1) \<lparr>memory = m, offsets = AList.update key (r_offset r) (offsets p)\<rparr>
      | (v, m) \<Rightarrow> ((v, name @ ''.'' @ key), n + 1, p\<lparr>memory := m\<rparr>))"

text \<open>\<open>_rewind\<close>: \<open>HDone\<close> when the producer is back at the record before the failed one.\<close>

definition rewind :: "'m app \<Rightarrow> string \<Rightarrow> page_entry \<Rightarrow> 'm page_run \<Rightarrow> handle_end \<times> 'm page_run" where
  "rewind a name e s =
     (case rerun a name (since e) (pg_calls s)
             \<lparr>memory = restore a (base_state e) (memory (pg_producers s name)), offsets = base_offsets e\<rparr> of
        ((v, consumer), n, p) \<Rightarrow>
          let s' = s\<lparr>pg_producers := (pg_producers s)(name := p), pg_calls := n\<rparr> in
          case v of
            Returns \<Rightarrow> (HDone, s')
          | Cancels \<Rightarrow> (HCancel, s')
          | _ \<Rightarrow> (case first e of Some f \<Rightarrow> (HRewindFailed consumer f, to_start a name e s')
                               | None \<Rightarrow> (HRaise, to_start a name e s')))"

definition set_entry :: "string \<Rightarrow> page_entry \<Rightarrow> 'm page_run \<Rightarrow> 'm page_run" where
  "set_entry name e s = s\<lparr>pg_entries := AList.update name e (pg_entries s)\<rparr>"

definition enter :: "'m app \<Rightarrow> string \<Rightarrow> 'm page_run \<Rightarrow> (page_entry \<times> 'm page_run) option" where
  "enter a name s =
     (case map_of (pg_entries s) name of
        Some e \<Rightarrow> Some (e, s)
      | None \<Rightarrow>
          (case state_copy a (memory (pg_producers s name)) of
             None \<Rightarrow> None
           | Some st \<Rightarrow>
               (let d = offsets (pg_producers s name);
                    e = \<lparr>start_state = st, start_offsets = d, first = None, base_state = st, base_offsets = d, since = []\<rparr>
                in Some (e, set_entry name e s))))"

text \<open>What follows the call of \<open>method(metric)\<close>.\<close>

definition call_method :: "'m app \<Rightarrow> string \<Rightarrow> string \<Rightarrow> record_ \<Rightarrow> page_entry \<Rightarrow> 'm page_run
    \<Rightarrow> handle_end \<times> 'm page_run" where
  "call_method a name key r e s =
     (case invoke a (pg_calls s) name key r (memory (pg_producers s name)) of (v, m) \<Rightarrow>
        let s = s\<lparr>pg_calls := pg_calls s + 1, pg_producers := (pg_producers s)(name := (pg_producers s name)\<lparr>memory := m\<rparr>)\<rparr>
        in case v of
          Returns \<Rightarrow>
            (HDone, set_entry name (e\<lparr>since := since e @ [(key, r)]\<rparr>)
               (s\<lparr>pg_producers := (pg_producers s)(name :=
                   \<lparr>memory = m, offsets = AList.update key (r_offset r) (offsets (pg_producers s name))\<rparr>)\<rparr>))
        | Cancels \<Rightarrow> (HCancel, to_start a name e s)
        | Raises \<Rightarrow> (case rewind a name e s of (HDone, s') \<Rightarrow> (HRaise, s') | res \<Rightarrow> res)
        | RaisesReject \<Rightarrow>
            (case rewind a name e s of
               (HDone, s') \<Rightarrow>
                 (let p = pg_producers s' name in
                  case state_copy a (memory p) of
                    None \<Rightarrow> (HRaise, s')
                  | Some st \<Rightarrow> (HReject, set_entry name (e\<lparr>base_state := st, base_offsets := offsets p, since := []\<rparr>) s'))
             | res \<Rightarrow> res))"

definition page_handle :: "'m app \<Rightarrow> string \<Rightarrow> string \<Rightarrow> record_ \<Rightarrow> 'm page_run \<Rightarrow> handle_end \<times> 'm page_run" where
  "page_handle a name key r s =
     (case enter a name s of
        None \<Rightarrow> (HRaise, s)
      | Some (e, s) \<Rightarrow>
          if r_offset r \<le> handled_upto (offsets (pg_producers s name)) key then (HDone, s)
          else let e = (if first e = None then e\<lparr>first := Some r\<rparr> else e)
               in call_method a name key r e (set_entry name e s))"

text \<open>\<open>finish\<close> saves each producer; \<open>n\<close> counts the checkpoints.\<close>

definition finish_one :: "'m app \<Rightarrow> string \<times> page_entry \<Rightarrow> 'm page_run \<times> buffer \<times> nat \<Rightarrow> 'm page_run \<times> buffer \<times> nat" where
  "finish_one a ne st =
     (case ne of (name, e) \<Rightarrow> case st of (s, b, n) \<Rightarrow>
        case first e of
          None \<Rightarrow> (s, b, n)
        | Some f \<Rightarrow>
            (case save_producer a (saves a n) name (pg_producers s name) b of
               Inr b' \<Rightarrow> (s, b', n + 1)
             | Inl _ \<Rightarrow>
                 ((to_start a name e s)\<lparr>pg_failed := (case pg_failed s of
                     None \<Rightarrow> Some (name, f)
                   | Some (c, g) \<Rightarrow> if r_offset f < r_offset g then Some (name, f) else Some (c, g))\<rparr>, b, n + 1)))"

definition finish :: "'m app \<Rightarrow> 'm page_run \<Rightarrow> buffer \<Rightarrow> nat \<Rightarrow> 'm page_run \<times> buffer \<times> nat" where
  "finish a s b n =
     (case fold (finish_one a) (pg_entries s) (s, b, n) of (s', b', n') \<Rightarrow> (s'\<lparr>pg_entries := []\<rparr>, b', n'))"

section \<open>What producers promise, and the state they should be in\<close>

text \<open>\<open>restore_state\<close> puts back what \<open>snapshot_state\<close> returned, and a call that returns has the effect
  \<open>eff\<close> of its metric on the state, however often it runs. A call that does not return may do
  anything to the state. No call is cancelled: the process is not shut down inside one.\<close>

definition app_ok :: "'m app \<Rightarrow> (string \<Rightarrow> string \<Rightarrow> record_ \<Rightarrow> 'm \<Rightarrow> 'm) \<Rightarrow> bool" where
  "app_ok a eff \<longleftrightarrow>
     (\<forall>m m'. restore a (snapshot a m) m' = m)
     \<and> (\<forall>n name key r m. fst (invoke a n name key r m) = Returns \<longrightarrow> snd (invoke a n name key r m) = eff name key r m)
     \<and> (\<forall>n name key r m. fst (invoke a n name key r m) \<noteq> Cancels)"

text \<open>The state after exactly the calls \<open>xs\<close>, each once, in order.\<close>

fun apply_calls :: "(string \<Rightarrow> string \<Rightarrow> record_ \<Rightarrow> 'm \<Rightarrow> 'm) \<Rightarrow> string \<Rightarrow> (string \<times> record_) list \<Rightarrow> 'm producer \<Rightarrow> 'm producer" where
  "apply_calls eff name [] p = p"
| "apply_calls eff name ((key, r) # xs) p =
     apply_calls eff name xs \<lparr>memory = eff name key r (memory p), offsets = AList.update key (r_offset r) (offsets p)\<rparr>"

text \<open>Each method sees the offsets strictly increase.\<close>

fun fresh_calls :: "(string, int) dict \<Rightarrow> (string \<times> record_) list \<Rightarrow> bool" where
  "fresh_calls d [] = True"
| "fresh_calls d ((key, r) # xs) = (handled_upto d key < r_offset r \<and> fresh_calls (AList.update key (r_offset r) d) xs)"

section \<open>Lemmas\<close>

lemma handled_upto_update [simp]:
  "handled_upto (AList.update key n d) k = (if k = key then n else handled_upto d k)"
  by (simp add: handled_upto_def)

lemma apply_calls_append: "apply_calls eff name (xs @ ys) p = apply_calls eff name ys (apply_calls eff name xs p)"
  by (induction xs arbitrary: p) auto

lemma fresh_calls_append:
  "fresh_calls (offsets p) (xs @ ys) \<longleftrightarrow>
     fresh_calls (offsets p) xs \<and> fresh_calls (offsets (apply_calls eff name xs p)) ys"
proof (induction xs arbitrary: p)
  case (Cons x xs)
  then show ?case using Cons.IH [of "\<lparr>memory = _, offsets = AList.update (fst x) (r_offset (snd x)) (offsets p)\<rparr>"]
    by (cases x) simp
qed simp

lemma offsets_apply_calls:
  "handled_upto (offsets (apply_calls eff name xs p)) key =
     (case filter (\<lambda>c. fst c = key) xs of [] \<Rightarrow> handled_upto (offsets p) key | cs \<Rightarrow> r_offset (snd (last cs)))"
proof (induction xs arbitrary: p)
  case (Cons x xs)
  show ?case by (cases x) (auto simp: Cons.IH split: list.splits)
qed simp

lemma rerun_result:
  assumes "app_ok a eff" "rerun a name xs n p = ((v, c), n', p')"
  shows "v \<noteq> Cancels \<and> (v = Returns \<longrightarrow> p' = apply_calls eff name xs p)"
  using assms(2)
proof (induction xs arbitrary: n p)
  case (Cons x xs)
  obtain key r where x: "x = (key, r)" by force
  obtain w m where wm: "invoke a n name key r (memory p) = (w, m)" by force
  with assms(1) have "w \<noteq> Cancels" "w = Returns \<Longrightarrow> m = eff name key r (memory p)"
    unfolding app_ok_def by (metis fst_conv, metis fst_conv snd_conv)
  then show ?case using Cons x wm by (cases w) auto
qed auto

text \<open>Where a producer stands in the page: \<open>p0\<close> its state at the page's start, \<open>xs\<close> the calls of the page
  that count.\<close>

definition entry_inv :: "'m app \<Rightarrow> (string \<Rightarrow> string \<Rightarrow> record_ \<Rightarrow> 'm \<Rightarrow> 'm) \<Rightarrow> string \<Rightarrow> 'm producer
    \<Rightarrow> (string \<times> record_) list \<Rightarrow> page_entry option \<Rightarrow> 'm producer \<Rightarrow> bool" where
  "entry_inv a eff name p0 xs entry p \<longleftrightarrow>
     p = apply_calls eff name xs p0 \<and> fresh_calls (offsets p0) xs
     \<and> (case entry of
          None \<Rightarrow> xs = []
        | Some e \<Rightarrow> start_state e = snapshot a (memory p0) \<and> start_offsets e = offsets p0
            \<and> (first e = None \<longrightarrow> xs = [])
            \<and> (\<exists>ys. xs = ys @ since e \<and> base_state e = snapshot a (memory (apply_calls eff name ys p0))
                 \<and> base_offsets e = offsets (apply_calls eff name ys p0)))"

definition page_inv :: "'m app \<Rightarrow> (string \<Rightarrow> string \<Rightarrow> record_ \<Rightarrow> 'm \<Rightarrow> 'm) \<Rightarrow> (string \<Rightarrow> 'm producer)
    \<Rightarrow> (string \<Rightarrow> (string \<times> record_) list) \<Rightarrow> 'm page_run \<Rightarrow> bool" where
  "page_inv a eff P0 X s \<longleftrightarrow>
     dict_ok (pg_entries s)
     \<and> (\<forall>name. entry_inv a eff name (P0 name) (X name) (map_of (pg_entries s) name) (pg_producers s name))"

lemma entry_inv_start:
  "\<lbrakk>app_ok a eff; start_state e = snapshot a (memory p0); start_offsets e = offsets p0\<rbrakk> \<Longrightarrow>
     entry_inv a eff name p0 [] (Some (e\<lparr>base_state := start_state e, base_offsets := start_offsets e, since := []\<rparr>))
       \<lparr>memory = restore a (start_state e) m, offsets = start_offsets e\<rparr>"
  by (simp add: entry_inv_def app_ok_def)

lemma to_start_frame [simp]:
  "pg_failed (to_start a name e s) = pg_failed s" "pg_calls (to_start a name e s) = pg_calls s"
  by (simp_all add: to_start_def)

lemma page_inv_to_start [inv_intros]:
  assumes "app_ok a eff" "page_inv a eff P0 X s"
    and "start_state e = snapshot a (memory (P0 name))" "start_offsets e = offsets (P0 name)"
  shows "page_inv a eff P0 (X(name := [])) (to_start a name e s)"
proof -
  have "entry_inv a eff nm (P0 nm) ((X(name := [])) nm) (map_of (pg_entries (to_start a name e s)) nm)
      (pg_producers (to_start a name e s) nm)" for nm
    using entry_inv_start [OF assms(1,3,4)] assms(2) by (auto simp: to_start_def page_inv_def)
  then show ?thesis using assms(2) by (simp add: page_inv_def to_start_def dict_ok_update)
qed

lemma page_inv_enter:
  assumes "app_ok a eff" "page_inv a eff P0 X s" "enter a name s = Some (e, s')"
  shows "page_inv a eff P0 X s' \<and> map_of (pg_entries s') name = Some e
     \<and> pg_producers s' = pg_producers s \<and> pg_failed s' = pg_failed s \<and> pg_calls s' = pg_calls s
     \<and> (map_of (pg_entries s) name = Some e \<and> s' = s \<or> map_of (pg_entries s) name = None \<and> first e = None)"
proof (cases "map_of (pg_entries s) name")
  case None
  then have p: "pg_producers s name = P0 name" "X name = []"
    using assms(2) by (auto simp: page_inv_def entry_inv_def dest: spec [of _ name])
  then have d: "s' = set_entry name e s \<and> start_state e = snapshot a (memory (P0 name)) \<and> start_offsets e = offsets (P0 name)
      \<and> first e = None \<and> base_state e = start_state e \<and> base_offsets e = start_offsets e \<and> since e = []"
    using assms(3) None by (auto simp: enter_def state_copy_def Let_def split: if_splits)
  have "entry_inv a eff nm (P0 nm) (X nm) (map_of (pg_entries s') nm) (pg_producers s' nm)" for nm
    using assms(2) d p by (cases "nm = name") (auto simp: set_entry_def page_inv_def entry_inv_def)
  then show ?thesis using assms(2) d None by (simp add: set_entry_def page_inv_def dict_ok_update)
qed (use assms in \<open>auto simp: enter_def\<close>)

definition first_of :: "'m page_run \<Rightarrow> string \<Rightarrow> record_ option" where
  "first_of s name = Option.bind (map_of (pg_entries s) name) first"

lemma first_of_to_start [simp]: "first_of (to_start a name e s) = (first_of s)(name := first e)"
  by (rule ext) (simp add: first_of_def to_start_def)

lemma first_of_set_entry [simp]: "first_of (set_entry name e s) = (first_of s)(name := first e)"
  by (rule ext) (simp add: first_of_def set_entry_def)

lemma rewind_result:
  assumes "app_ok a eff" "page_inv a eff P0 X s0" "map_of (pg_entries s0) name = Some e" "first e = Some f"
    and "rewind a name e (s0\<lparr>pg_calls := n, pg_producers := (pg_producers s0)(name := q)\<rparr>) = (res, s')"
  shows "first_of s' = first_of s0 \<and> pg_failed s' = pg_failed s0
     \<and> (res = HDone \<and> page_inv a eff P0 X s' \<and> pg_entries s' = pg_entries s0 \<and> pg_producers s' = pg_producers s0
        \<or> (\<exists>c. res = HRewindFailed c f \<and> page_inv a eff P0 (X(name := [])) s'))"
proof -
  let ?p = "\<lparr>memory = restore a (base_state e) (memory q), offsets = base_offsets e\<rparr>"
  have inv: "entry_inv a eff name (P0 name) (X name) (Some e) (pg_producers s0 name)" "dict_ok (pg_entries s0)"
    using assms(2,3) unfolding page_inv_def by metis+
  then obtain ys where ys: "X name = ys @ since e" "?p = apply_calls eff name ys (P0 name)"
    using assms(1) by (auto simp: entry_inv_def app_ok_def)
  then have same: "apply_calls eff name (since e) ?p = pg_producers s0 name"
    using inv by (simp add: entry_inv_def apply_calls_append)
  obtain v c n' p where r: "rerun a name (since e) n ?p = ((v, c), n', p)" by (metis surj_pair)
  note rr = rerun_result [OF assms(1) r]
  let ?s = "s0\<lparr>pg_producers := (pg_producers s0)(name := p), pg_calls := n'\<rparr>"
  have fs: "(first_of s0)(name := Some f) = first_of s0" using assms(3,4) by (auto simp: first_of_def fun_eq_iff)
  have fs': "first_of ?s = first_of s0" by (simp add: first_of_def fun_eq_iff)
  show ?thesis
  proof (cases "v = Returns")
    case True
    have "(pg_producers s0)(name := p) = pg_producers s0" using rr True same by (simp add: fun_eq_iff)
    then show ?thesis using assms(2,5) r True fs' by (auto simp: rewind_def Let_def page_inv_def)
  next
    case False
    then have res: "res = HRewindFailed c f" "s' = to_start a name e ?s"
      using assms(4,5) rr r by (auto simp: rewind_def Let_def split: call_end.splits)
    have "page_inv a eff P0 (X(name := [])) s'"
    proof -
      have "entry_inv a eff nm (P0 nm) ((X(name := [])) nm) (map_of (pg_entries s') nm) (pg_producers s' nm)" for nm
        using entry_inv_start [OF assms(1), of e "P0 name"] assms(2) inv(1)
        by (cases "nm = name") (auto simp: res to_start_def page_inv_def entry_inv_def)
      then show ?thesis using inv(2) by (simp add: page_inv_def res to_start_def dict_ok_update)
    qed
    then show ?thesis using res fs fs' assms(4) by simp
  qed
qed

text \<open>One \<open>page.handle\<close>: a call that returned counts; one that failed or was rejected leaves the producer
  as it was, or at the page's start with a \<open>RewindFailed\<close> at its first record.\<close>

lemma call_method_result:
  assumes ok: "app_ok a eff" and inv: "page_inv a eff P0 X s" and e: "map_of (pg_entries s) name = Some e" "first e = Some f"
    and new: "handled_upto (offsets (pg_producers s name)) key < r_offset r"
    and h: "call_method a name key r e s = (res, s')"
  shows "\<exists>xs. page_inv a eff P0 (X(name := xs)) s' \<and> pg_failed s' = pg_failed s \<and> first_of s' = first_of s
     \<and> (res = HDone \<and> xs = X name @ [(key, r)] \<or> (res = HReject \<or> res = HRaise) \<and> xs = X name
        \<or> (\<exists>c. res = HRewindFailed c f \<and> xs = []))"
proof -
  obtain v m where vm: "invoke a (pg_calls s) name key r (memory (pg_producers s name)) = (v, m)" by force
  define t where "t = s\<lparr>pg_calls := pg_calls s + 1, pg_producers := (pg_producers s)(name := (pg_producers s name)\<lparr>memory := m\<rparr>)\<rparr>"
  obtain re s1 where rw: "rewind a name e t = (re, s1)" by force
  note rwr = rewind_result [OF ok inv e rw [unfolded t_def]]
  have fo: "(first_of s)(name := Some f) = first_of s" using e by (auto simp: first_of_def fun_eq_iff)
  have inv1: "entry_inv a eff name (P0 name) (X name) (Some e) (pg_producers s name)"
    using inv e unfolding page_inv_def by metis
  show ?thesis
  proof (cases v)
    case Returns
    then have m: "m = eff name key r (memory (pg_producers s name))"
      using ok vm unfolding app_ok_def by (metis fst_conv snd_conv)
    let ?e = "e\<lparr>since := since e @ [(key, r)]\<rparr>"
    let ?p = "\<lparr>memory = m, offsets = AList.update key (r_offset r) (offsets (pg_producers s name))\<rparr>"
    have s': "res = HDone" "s' = set_entry name ?e (t\<lparr>pg_producers := (pg_producers t)(name := ?p)\<rparr>)"
      using h vm Returns by (auto simp: call_method_def t_def Let_def)
    have "entry_inv a eff name (P0 name) (X name @ [(key, r)]) (Some ?e) ?p"
      using inv1 new m e by (auto simp: entry_inv_def apply_calls_append
          fresh_calls_append [where p = "P0 name" and eff = eff and name = name])
    then have "entry_inv a eff nm (P0 nm) ((X(name := X name @ [(key, r)])) nm) (map_of (pg_entries s') nm) (pg_producers s' nm)" for nm
      using inv by (cases "nm = name") (auto simp: s' set_entry_def t_def page_inv_def)
    then have "page_inv a eff P0 (X(name := X name @ [(key, r)])) s'"
      using inv by (simp add: page_inv_def s' t_def set_entry_def dict_ok_update)
    moreover have "first_of (t\<lparr>pg_producers := (pg_producers t)(name := ?p)\<rparr>) = first_of s"
      by (simp add: first_of_def fun_eq_iff t_def)
    ultimately show ?thesis using s' fo e
      by (intro exI [of _ "X name @ [(key, r)]"]) (auto simp: t_def set_entry_def first_of_def fun_eq_iff)
  next
    case Cancels
    then show ?thesis using ok vm unfolding app_ok_def by (metis fst_conv)
  next
    case Raises
    then have "(res, s') = (case rewind a name e t of (HDone, s') \<Rightarrow> (HRaise, s') | res \<Rightarrow> res)"
      using h vm by (simp add: call_method_def t_def Let_def)
    with rw have 1: "re = HDone \<and> res = HRaise \<and> s' = s1 \<or> (\<exists>c. re = HRewindFailed c f) \<and> res = re \<and> s' = s1"
      using rwr by auto
    show ?thesis
    proof (cases "re = HDone")
      case True
      with 1 rwr show ?thesis by (intro exI [of _ "X name"]) simp
    next
      case False
      with 1 rwr show ?thesis by (intro exI [of _ "[]"]) simp
    qed
  next
    case RaisesReject
    then have hr: "(res, s') = (case rewind a name e t of
        (HDone, s') \<Rightarrow>
          (let p = pg_producers s' name in case state_copy a (memory p) of None \<Rightarrow> (HRaise, s')
          | Some st \<Rightarrow> (HReject, set_entry name (e\<lparr>base_state := st, base_offsets := offsets p, since := []\<rparr>) s'))
      | res \<Rightarrow> res)"
      using h vm by (simp add: call_method_def t_def)
    show ?thesis
    proof (cases "re = HDone")
      case False
      then have "(\<exists>c. re = HRewindFailed c f) \<and> res = re \<and> s' = s1"
        using rwr hr rw by (auto simp: Let_def)
      with False rwr show ?thesis by (intro exI [of _ "[]"]) simp
    next
      case True
      then have r1: "page_inv a eff P0 X s1" "pg_entries s1 = pg_entries s" "pg_producers s1 = pg_producers s"
        "first_of s1 = first_of s" "pg_failed s1 = pg_failed s" using rwr by auto
      let ?p = "pg_producers s1 name"
      have h': "(res, s') = (case state_copy a (memory ?p) of None \<Rightarrow> (HRaise, s1)
          | Some st \<Rightarrow> (HReject, set_entry name (e\<lparr>base_state := st, base_offsets := offsets ?p, since := []\<rparr>) s1))"
        using hr rw True by (simp add: Let_def)
      show ?thesis
      proof (cases "state_copy a (memory ?p)")
        case None
        then show ?thesis using h' r1 by (intro exI [of _ "X name"]) auto
      next
        case (Some st)
        then have s': "res = HReject" "s' = set_entry name (e\<lparr>base_state := st, base_offsets := offsets ?p, since := []\<rparr>) s1"
          using h' by auto
        have st: "st = snapshot a (memory ?p)" using Some by (auto simp: state_copy_def Let_def split: if_splits)
        have "entry_inv a eff nm (P0 nm) (X nm) (map_of (pg_entries s') nm) (pg_producers s' nm)" for nm
          using r1 inv1 inv e st by (cases "nm = name") (auto simp: s' set_entry_def page_inv_def entry_inv_def)
        then have "page_inv a eff P0 X s'" using r1(1) by (simp add: page_inv_def s' set_entry_def dict_ok_update)
        then show ?thesis using s' r1 fo e by (intro exI [of _ "X name"]) (auto simp: set_entry_def first_of_def fun_eq_iff)
      qed
    qed
  qed
qed

lemma page_handle_result:
  assumes ok: "app_ok a eff" and inv: "page_inv a eff P0 X s" and h: "page_handle a name key r s = (res, s')"
  shows "\<exists>xs. page_inv a eff P0 (X(name := xs)) s' \<and> pg_failed s' = pg_failed s
     \<and> (\<forall>nm. nm \<noteq> name \<longrightarrow> first_of s' nm = first_of s nm)
     \<and> (first_of s name \<noteq> None \<longrightarrow> first_of s' name = first_of s name)
     \<and> (first_of s name = None \<longrightarrow> first_of s' name = Some r
          \<or> first_of s' name = None \<and> xs = X name \<and> (res = HRaise
             \<or> res = HDone \<and> r_offset r \<le> handled_upto (offsets (pg_producers s name)) key))
     \<and> (res = HDone \<and> (xs = X name @ [(key, r)]
             \<or> xs = X name \<and> r_offset r \<le> handled_upto (offsets (pg_producers s name)) key)
        \<or> (res = HReject \<or> res = HRaise) \<and> xs = X name
        \<or> (\<exists>c f. res = HRewindFailed c f \<and> xs = [] \<and> first_of s' name = Some f))"
proof (cases "enter a name s")
  case None
  then show ?thesis using h inv by (intro exI [of _ "X name"]) (auto simp: page_handle_def)
next
  case (Some es)
  then obtain e s1 where es: "enter a name s = Some (e, s1)" by (cases es) auto
  note en = page_inv_enter [OF ok inv es]
  have fo: "first_of s1 = (first_of s)(name := first e)" "first_of s name \<noteq> None \<Longrightarrow> first_of s name = first e"
      "first_of s name = None \<Longrightarrow> first e = None"
    using en es by (auto simp: fun_eq_iff first_of_def enter_def set_entry_def state_copy_def Let_def
      split: option.splits if_splits)
  show ?thesis
  proof (cases "r_offset r \<le> handled_upto (offsets (pg_producers s1 name)) key")
    case True
    then have "res = HDone" "s' = s1" using h es by (auto simp: page_handle_def)
    then show ?thesis using True en fo by (intro exI [of _ "X name"]) auto
  next
    case False
    define e' where "e' = (if first e = None then e\<lparr>first := Some r\<rparr> else e)"
    define s2 where "s2 = set_entry name e' s1"
    obtain f where f: "first e' = Some f" "first e = None \<longrightarrow> f = r" "first e \<noteq> None \<longrightarrow> first e = Some f" by (cases "first e") (auto simp: e'_def)
    have h2: "call_method a name key r e' s2 = (res, s')"
      using h es False by (simp add: page_handle_def e'_def s2_def Let_def)
    have inv1: "entry_inv a eff name (P0 name) (X name) (Some e) (pg_producers s1 name)"
      using en unfolding page_inv_def by metis
    have e'_inv: "entry_inv a eff name (P0 name) (X name) (Some e') (pg_producers s1 name)"
      using inv1 by (auto simp: e'_def entry_inv_def)
    have "entry_inv a eff nm (P0 nm) (X nm) (map_of (pg_entries s2) nm) (pg_producers s2 nm)" for nm
      using en e'_inv by (cases "nm = name") (auto simp: s2_def set_entry_def page_inv_def)
    then have inv2: "page_inv a eff P0 X s2"
      using en by (simp add: page_inv_def s2_def set_entry_def dict_ok_update)
    have m2: "map_of (pg_entries s2) name = Some e'" by (simp add: s2_def set_entry_def)
    have fo2: "first_of s2 = (first_of s)(name := Some f)" using fo f by (simp add: s2_def fun_eq_iff)
    have pf: "pg_failed s2 = pg_failed s" "pg_producers s2 = pg_producers s1" using en by (simp_all add: s2_def set_entry_def)
    have old: "first_of s name \<noteq> None \<longrightarrow> first_of s name = Some f" using fo(2) f by (auto simp: e'_def)
    have new: "first_of s name = None \<longrightarrow> f = r" using fo(3) f by auto
    obtain xs where "page_inv a eff P0 (X(name := xs)) s' \<and> pg_failed s' = pg_failed s2 \<and> first_of s' = first_of s2
       \<and> (res = HDone \<and> xs = X name @ [(key, r)] \<or> (res = HReject \<or> res = HRaise) \<and> xs = X name
          \<or> (\<exists>c. res = HRewindFailed c f \<and> xs = []))"
      using call_method_result [OF ok inv2 m2 f(1) _ h2] False pf by auto
    then show ?thesis using fo2 pf old new by (intro exI [of _ xs]) auto
  qed
qed

section \<open>The end of the page\<close>

definition starts_at :: "'m app \<Rightarrow> (string \<Rightarrow> 'm producer) \<Rightarrow> (string, page_entry) dict \<Rightarrow> bool" where
  "starts_at a P0 es \<longleftrightarrow> (\<forall>(name, e) \<in> set es.
     start_state e = snapshot a (memory (P0 name)) \<and> start_offsets e = offsets (P0 name))"

lemma page_inv_starts_at: "page_inv a eff P0 X s \<Longrightarrow> starts_at a P0 (pg_entries s)"
  unfolding starts_at_def
proof safe
  fix name e assume inv: "page_inv a eff P0 X s" "(name, e) \<in> set (pg_entries s)"
  then have "map_of (pg_entries s) name = Some e" by (simp add: page_inv_def)
  with inv(1) have "entry_inv a eff name (P0 name) (X name) (Some e) (pg_producers s name)"
    unfolding page_inv_def by metis
  then show "start_state e = snapshot a (memory (P0 name))" "start_offsets e = offsets (P0 name)"
    by (simp_all add: entry_inv_def)
qed

lemma abandon_fold:
  assumes "app_ok a eff" "page_inv a eff P0 X s" "starts_at a P0 es"
  shows "page_inv a eff P0 (\<lambda>n. if n \<in> fst ` set es then [] else X n) (fold (\<lambda>(name, e) s. to_start a name (e\<lparr>first := None\<rparr>) s) es s)
     \<and> first_of (fold (\<lambda>(name, e) s. to_start a name (e\<lparr>first := None\<rparr>) s) es s)
         = (\<lambda>n. if n \<in> fst ` set es then None else first_of s n)
     \<and> pg_failed (fold (\<lambda>(name, e) s. to_start a name (e\<lparr>first := None\<rparr>) s) es s) = pg_failed s"
  using assms(2,3)
proof (induction es arbitrary: s X)
  case Nil
  then show ?case by simp
next
  case (Cons ne es)
  obtain name e where ne: "ne = (name, e)" by force
  let ?s = "to_start a name (e\<lparr>first := None\<rparr>) s"
  have inv: "page_inv a eff P0 (X(name := [])) ?s"
    using Cons.prems ne by (intro page_inv_to_start assms(1)) (auto simp: starts_at_def)
  have "starts_at a P0 es" using Cons.prems by (simp add: starts_at_def)
  note IH = Cons.IH [OF inv this]
  have "(\<lambda>n. if n \<in> fst ` set es then [] else (X(name := [])) n) = (\<lambda>n. if n \<in> fst ` set (ne # es) then [] else X n)"
    "(\<lambda>n. if n \<in> fst ` set es then None else first_of ?s n) = (\<lambda>n. if n \<in> fst ` set (ne # es) then None else first_of s n)"
    by (auto simp: ne fun_eq_iff)
  then show ?case using IH by (simp add: ne)
qed

lemma abandon_result:
  assumes "app_ok a eff" "page_inv a eff P0 X s"
  shows "page_inv a eff P0 (\<lambda>_. []) (abandon a c r s) \<and> first_of (abandon a c r s) = (\<lambda>_. None)
     \<and> (\<exists>c' g. pg_failed (abandon a c r s) = Some (c', g) \<and> r_offset g \<le> r_offset r
          \<and> (g = r \<or> pg_failed s = Some (c', g))
          \<and> (\<forall>c'' h. pg_failed s = Some (c'', h) \<longrightarrow> r_offset g \<le> r_offset h))"
proof -
  let ?s = "fold (\<lambda>(name, e) s. to_start a name (e\<lparr>first := None\<rparr>) s) (pg_entries s) s"
  note f = abandon_fold [OF assms page_inv_starts_at [OF assms(2)]]
  have no: "X n = []" "first_of s n = None" if "n \<notin> fst ` set (pg_entries s)" for n
  proof -
    have "map_of (pg_entries s) n = None" using that by (simp add: map_of_eq_None_iff)
    then show "X n = []" "first_of s n = None"
      using assms(2) by (auto simp: page_inv_def entry_inv_def first_of_def dest: spec [of _ n])
  qed
  have "(\<lambda>n. if n \<in> fst ` set (pg_entries s) then [] else X n) = (\<lambda>_. [])"
    "(\<lambda>n. if n \<in> fst ` set (pg_entries s) then None else first_of s n) = (\<lambda>_. None)" using no by auto
  with f have "page_inv a eff P0 (\<lambda>_. []) ?s" "first_of ?s = (\<lambda>_. None)" "pg_failed ?s = pg_failed s" by auto
  then show ?thesis
    by (auto simp: abandon_def Let_def page_inv_def first_of_def fun_eq_iff split: option.splits)
qed

text \<open>The row \<open>save_checkpoint\<close> writes.\<close>

definition checkpoint_row :: "'m app \<Rightarrow> string \<Rightarrow> int \<Rightarrow> 'm producer \<Rightarrow> checkpoint" where
  "checkpoint_row a name v p = \<lparr>cp_code_hash = code_hash a name, cp_version = v,
     cp_state = snapshot a (memory p), cp_positions = positions_json (offsets p)\<rparr>"

lemma save_producer_Inr:
  assumes "save_producer a ok name p b = Inr b'" "state_version a name = Some v"
  shows "checkpoint_of nm b' = (if nm = name then Some (checkpoint_row a name v p) else checkpoint_of nm b)
     \<and> db_points (work b') = db_points (work b) \<and> deferred b' = deferred b \<and> (0 < deferred b \<longrightarrow> disk b' = disk b)"
  using assms by (auto simp: save_producer_def save_checkpoint_def checkpoint_of_def checkpoint_row_def settle_def commit_def edit_def
      split: if_splits)

text \<open>What \<open>finish\<close> does to one producer, from the state \<open>p\<close> and the saved checkpoint \<open>c\<close>: nothing, its
  checkpoint, or the page's start and a failure no later than its first record.\<close>

definition finished_at :: "'m app \<Rightarrow> string \<Rightarrow> page_entry \<Rightarrow> 'm producer \<Rightarrow> checkpoint option \<Rightarrow> 'm page_run \<Rightarrow> buffer \<Rightarrow> bool" where
  "finished_at a name e p c s' b' \<longleftrightarrow>
     (case first e of
        None \<Rightarrow> pg_producers s' name = p \<and> checkpoint_of name b' = c
      | Some f \<Rightarrow>
          pg_producers s' name = p
            \<and> checkpoint_of name b' = Some (checkpoint_row a name (the (state_version a name)) p)
          \<or> pg_producers s' name = \<lparr>memory = restore a (start_state e) (memory p), offsets = start_offsets e\<rparr>
            \<and> checkpoint_of name b' = c
            \<and> (\<exists>d g. pg_failed s' = Some (d, g) \<and> r_offset g \<le> r_offset f))"

lemma finished_at_later:
  assumes "finished_at a name e p c s1 b1" "pg_producers s' name = pg_producers s1 name"
    "checkpoint_of name b' = checkpoint_of name b1"
    "\<forall>d g. pg_failed s1 = Some (d, g) \<longrightarrow> (\<exists>d' g'. pg_failed s' = Some (d', g') \<and> r_offset g' \<le> r_offset g)"
  shows "finished_at a name e p c s' b'"
  using assms by (auto simp: finished_at_def split: option.splits)

lemma finish_fold:
  assumes "distinct (map fst es)" "\<forall>ne \<in> set es. state_version a (fst ne) \<noteq> None"
    and "fold (finish_one a) es (s, b, n) = (s', b', n')"
  shows "(\<forall>name. name \<notin> fst ` set es \<longrightarrow>
        pg_producers s' name = pg_producers s name \<and> checkpoint_of name b' = checkpoint_of name b)
     \<and> (\<forall>(name, e) \<in> set es. finished_at a name e (pg_producers s name) (checkpoint_of name b) s' b')
     \<and> (\<forall>c g. pg_failed s = Some (c, g) \<longrightarrow> (\<exists>c' g'. pg_failed s' = Some (c', g') \<and> r_offset g' \<le> r_offset g))
     \<and> (pg_failed s' = pg_failed s \<or> (\<exists>(name, e) \<in> set es. \<exists>f c. first e = Some f \<and> pg_failed s' = Some (c, f)))
     \<and> db_points (work b') = db_points (work b) \<and> deferred b' = deferred b \<and> (0 < deferred b \<longrightarrow> disk b' = disk b)"
  using assms
proof (induction es arbitrary: s b n)
  case Nil
  then show ?case by auto
next
  case (Cons ne es)
  obtain name e where ne: "ne = (name, e)" by force
  obtain s1 b1 n1 where one: "finish_one a ne (s, b, n) = (s1, b1, n1)" by (metis surj_pair)
  obtain v where v: "state_version a name = Some v" using Cons.prems(2) ne by auto
  have new: "name \<notin> fst ` set es" using Cons.prems(1) ne by simp
  have other: "pg_producers s1 nm = pg_producers s nm \<and> checkpoint_of nm b1 = checkpoint_of nm b" if "nm \<noteq> name" for nm
    using one that v by (auto simp: ne finish_one_def to_start_def split: option.splits sum.splits dest: save_producer_Inr [where nm = nm])
  have buf: "db_points (work b1) = db_points (work b) \<and> deferred b1 = deferred b \<and> (0 < deferred b \<longrightarrow> disk b1 = disk b)"
    using one v by (auto simp: ne finish_one_def split: option.splits sum.splits dest: save_producer_Inr)
  have pf: "(\<forall>c g. pg_failed s = Some (c, g) \<longrightarrow> (\<exists>c' g'. pg_failed s1 = Some (c', g') \<and> r_offset g' \<le> r_offset g))
      \<and> (pg_failed s1 = pg_failed s \<or> (\<exists>f c. first e = Some f \<and> pg_failed s1 = Some (c, f)))"
    using one by (auto simp: ne finish_one_def split: option.splits sum.splits if_splits)
  have this_one: "finished_at a name e (pg_producers s name) (checkpoint_of name b) s1 b1"
    using one v by (auto simp: ne finish_one_def to_start_def finished_at_def split: option.splits sum.splits if_splits
        dest!: save_producer_Inr [where nm = name])
  have "fold (finish_one a) es (s1, b1, n1) = (s', b', n')" using Cons.prems(3) one by simp
  note IH = Cons.IH [OF _ _ this]
  have IH': "distinct (map fst es)" "\<forall>ne \<in> set es. state_version a (fst ne) \<noteq> None" using Cons.prems by auto
  note IH = IH [OF IH']
  have "finished_at a nm e' (pg_producers s nm) (checkpoint_of nm b) s' b'" if "(nm, e') \<in> set es" for nm e'
  proof -
    have "nm \<noteq> name" using that new by force
    with that IH other show ?thesis by fastforce
  qed
  moreover have "finished_at a name e (pg_producers s name) (checkpoint_of name b) s' b'"
    by (rule finished_at_later [OF this_one]) (use IH new in auto)
  moreover have "\<forall>nm. nm \<notin> fst ` set (ne # es) \<longrightarrow>
      pg_producers s' nm = pg_producers s nm \<and> checkpoint_of nm b' = checkpoint_of nm b"
    using IH other ne by auto
  moreover have "\<forall>c g. pg_failed s = Some (c, g) \<longrightarrow> (\<exists>c' g'. pg_failed s' = Some (c', g') \<and> r_offset g' \<le> r_offset g)"
    using IH pf by (meson order_trans)
  moreover have "pg_failed s' = pg_failed s \<or> (\<exists>(name, e) \<in> set (ne # es). \<exists>f c. first e = Some f \<and> pg_failed s' = Some (c, f))"
    using IH pf ne by auto
  ultimately show ?case using IH buf ne by auto
qed

lemma positions_roundtrip [simp]: "positions_of (positions_json d) = d"
  by (induction d) (auto simp: positions_json_def List.map_filter_def)

text \<open>A restart reads back what \<open>save_checkpoint\<close> wrote, if the code is the same.\<close>

lemma restore_checkpoint_row:
  assumes "app_ok a eff" "state_version a name = Some v" "checkpoint_of name b = Some (checkpoint_row a name v p)"
  shows "restore_checkpoint a name b q = (True, p)"
  using assms by (simp add: restore_checkpoint_def checkpoint_row_def app_ok_def)

section \<open>Properties\<close>

text \<open>The handler calls of one page, up to the first that ends it, with their results.\<close>

fun handle_all :: "'m app \<Rightarrow> (string \<times> string \<times> record_) list \<Rightarrow> 'm page_run
    \<Rightarrow> ((string \<times> string \<times> record_) \<times> handle_end) list \<times> 'm page_run" where
  "handle_all a [] s = ([], s)"
| "handle_all a ((name, key, r) # cs) s =
     (case page_handle a name key r s of (res, s1) \<Rightarrow>
        if res \<in> {HDone, HReject}
        then (case handle_all a cs s1 of (rs, s2) \<Rightarrow> (((name, key, r), res) # rs, s2))
        else ([((name, key, r), res)], s1))"

definition new_page :: "(string \<Rightarrow> 'm producer) \<Rightarrow> nat \<Rightarrow> 'm page_run" where
  "new_page P n = \<lparr>pg_producers = P, pg_entries = [], pg_failed = None, pg_calls = n\<rparr>"

lemma page_inv_new: "page_inv a eff P (\<lambda>_. []) (new_page P n)"
  by (simp add: page_inv_def entry_inv_def new_page_def)

text \<open>The calls of one producer that returned at a record its method had not handled.\<close>

fun counted :: "string \<Rightarrow> (string, int) dict \<Rightarrow> ((string \<times> string \<times> record_) \<times> handle_end) list \<Rightarrow> (string \<times> record_) list" where
  "counted name d [] = []"
| "counted name d (((nm, key, r), res) # zs) =
     (if nm = name \<and> res = HDone \<and> handled_upto d key < r_offset r
      then (key, r) # counted name (AList.update key (r_offset r) d) zs else counted name d zs)"

definition rewound_to_start :: "string \<Rightarrow> ((string \<times> string \<times> record_) \<times> handle_end) list \<Rightarrow> bool" where
  "rewound_to_start name rs \<longleftrightarrow> (\<exists>key r c f. ((name, key, r), HRewindFailed c f) \<in> set rs)"

lemma page_inv_producer: "page_inv a eff P X s \<Longrightarrow> pg_producers s nm = apply_calls eff nm (X nm) (P nm)"
  by (simp add: page_inv_def entry_inv_def)

lemma page_inv_fresh: "page_inv a eff P X s \<Longrightarrow> fresh_calls (offsets (P nm)) (X nm)"
  by (simp add: page_inv_def entry_inv_def)

lemma handle_all_result:
  assumes "app_ok a eff" "page_inv a eff P X s" "handle_all a cs s = (rs, s')"
  shows "pg_producers s' name =
     (if rewound_to_start name rs then P name
      else apply_calls eff name (counted name (offsets (pg_producers s name)) rs) (pg_producers s name))"
  using assms(2,3)
proof (induction cs arbitrary: s X rs)
  case Nil
  then show ?case by (simp add: rewound_to_start_def)
next
  case (Cons c cs)
  obtain nm key r where c: "c = (nm, key, r)" by (metis surj_pair)
  obtain res s1 where ph: "page_handle a nm key r s = (res, s1)" by force
  obtain xs where inv: "page_inv a eff P (X(nm := xs)) s1"
    and xs: "res = HDone \<and> (xs = X nm @ [(key, r)] \<or> xs = X nm \<and> r_offset r \<le> handled_upto (offsets (pg_producers s nm)) key)
        \<or> (res = HReject \<or> res = HRaise) \<and> xs = X nm \<or> (\<exists>c f. res = HRewindFailed c f \<and> xs = [])"
    using page_handle_result [OF assms(1) Cons.prems(1) ph] by blast
  have p1: "pg_producers s1 n = (if n = nm then apply_calls eff nm xs (P nm) else pg_producers s n)" for n
    using page_inv_producer [OF inv] page_inv_producer [OF Cons.prems(1)] by auto
  have ps: "pg_producers s nm = apply_calls eff nm (X nm) (P nm)" by (rule page_inv_producer [OF Cons.prems(1)])
  have one: "(\<exists>c f. res = HRewindFailed c f \<and> pg_producers s1 nm = P nm)
      \<or> (\<forall>c f. res \<noteq> HRewindFailed c f) \<and> pg_producers s1 nm
           = apply_calls eff nm (counted nm (offsets (pg_producers s nm)) [((nm, key, r), res)]) (pg_producers s nm)"
  proof (cases "res = HDone \<and> xs = X nm @ [(key, r)]")
    case True
    then have "handled_upto (offsets (pg_producers s nm)) key < r_offset r"
      using page_inv_fresh [OF inv, of nm] ps by (auto simp: fresh_calls_append [where p = "P nm" and eff = eff and name = nm])
    then show ?thesis using True p1 ps by (auto simp: apply_calls_append)
  qed (use xs p1 ps in auto)
  show ?case
  proof (cases "res \<in> {HDone, HReject}")
    case False
    then have "rs = [((nm, key, r), res)]" "s' = s1" using Cons.prems(2) ph c by auto
    then show ?thesis using one p1 False by (auto simp: rewound_to_start_def)
  next
    case True
    obtain rs' s2 where h: "handle_all a cs s1 = (rs', s2)" by force
    then have rs: "rs = ((nm, key, r), res) # rs'" "s2 = s'" using Cons.prems(2) ph c True by auto
    have rew: "rewound_to_start name rs = rewound_to_start name rs'" using True by (auto simp: rewound_to_start_def rs)
    have "counted name (offsets (pg_producers s name)) rs
        = counted name (offsets (pg_producers s name)) [((nm, key, r), res)] @ counted name (offsets (pg_producers s1 name)) rs'
      \<and> pg_producers s1 name = apply_calls eff name (counted name (offsets (pg_producers s name)) [((nm, key, r), res)]) (pg_producers s name)"
      using one p1 [of name] True rs by (cases "nm = name") (auto split: if_splits)
    then show ?thesis using Cons.IH [OF inv h [unfolded rs(2)]] rew rs by (auto simp: apply_calls_append)
  qed
qed

text \<open>C15: Within one page a checkpointed producer's state is exactly the effect of the handler calls that
  returned, each once and in order: a record already in its handled offsets is skipped, and a call that fails or
  rejects its record leaves no trace, whatever it did to the state. If the calls cannot be replayed, the producer is
  back at the page's start.\<close>

theorem page_state_exact:
  assumes "app_ok a eff" "handle_all a cs (new_page P n) = (rs, s')"
  shows "pg_producers s' name =
     (if rewound_to_start name rs then P name
      else apply_calls eff name (counted name (offsets (P name)) rs) (P name))"
  using handle_all_result [OF assms(1) page_inv_new assms(2)] by (simp add: new_page_def)

theorem page_state_exact_witness:
  "let r = (\<lambda>n. \<lparr>r_offset = n, r_topic = [], r_payload = JNull, r_ts = 0, r_actor_id = [], r_actor_label = [],
                  r_actor_kind = []\<rparr>);
       a = \<lparr>snapshot = JInt, restore = (\<lambda>j m. case j of JInt n \<Rightarrow> n | _ \<Rightarrow> m),
            invoke = (\<lambda>n name key rec m. if r_offset rec = 2 then (RaisesReject, 99) else (Returns, m + r_offset rec)),
            state_version = (\<lambda>_. Some 1), code_hash = (\<lambda>_. []), saves = (\<lambda>_. True)\<rparr>;
       s' = snd (handle_all a [(''p'', ''k'', r 1), (''p'', ''k'', r 2), (''p'', ''k'', r 3)]
                  (new_page (\<lambda>_. \<lparr>memory = 10, offsets = []\<rparr>) 0))
   in pg_producers s' ''p'' = \<lparr>memory = 14, offsets = [(''k'', 3)]\<rparr>"
proof -
  let ?r = "\<lambda>n. \<lparr>r_offset = n, r_topic = [], r_payload = JNull, r_ts = 0, r_actor_id = [], r_actor_label = [],
                  r_actor_kind = []\<rparr>"
  let ?a = "\<lparr>snapshot = JInt, restore = (\<lambda>j m. case j of JInt n \<Rightarrow> n | _ \<Rightarrow> m),
            invoke = (\<lambda>n name key rec m. if r_offset rec = 2 then (RaisesReject, 99) else (Returns, m + r_offset rec)),
            state_version = (\<lambda>_. Some 1), code_hash = (\<lambda>_. []), saves = (\<lambda>_. True)\<rparr>"
  let ?cs = "[(''p'', ''k'', ?r 1), (''p'', ''k'', ?r 2), (''p'', ''k'', ?r 3)]"
  have ok: "app_ok ?a (\<lambda>_ _ rec m. m + r_offset rec)" by (simp add: app_ok_def)
  obtain s' where h: "handle_all ?a ?cs (new_page (\<lambda>_. \<lparr>memory = 10, offsets = []\<rparr>) 0)
      = (zip ?cs [HDone, HReject, HDone], s')"
    by (simp add: new_page_def page_handle_def enter_def state_copy_def call_method_def rewind_def set_entry_def Let_def
        handled_upto_def)
  show ?thesis using page_state_exact [OF ok h, of "''p''"] h
    by (simp add: rewound_to_start_def handled_upto_def)
qed

end
