(* ===== verification/Chaski_Ingest.thy ===== *)
theory Chaski_Ingest
  imports Chaski_Checkpoints
begin

text \<open>
  The ingest loop of a DataOps service: \<open>src/chaski/dataops/ingest.py\<close>, with the handlers
  \<open>make_handler\<close> of \<open>src/chaski/dataops/service.py\<close> makes. One page is appended and dispatched inside
  one commit of the buffer, its writes settled, its checkpoints saved, and only then acknowledged; with
  read-ahead the next page is already being read and the acknowledgement goes out in the background.
  The node's answers are a \<open>world\<close> (of \<open>Chaski_Streams\<close>), the producers' code an \<open>app\<close> (of
  \<open>Chaski_Checkpoints\<close>). Handlers write to the node only, not to the buffer. A \<open>signal_id\<close> that is not
  a string and a timestamp that is not finite are not modelled. The filter and the dispatch table are
  fixed between two \<open>rebind\<close>s, no backfill holds a producer.
\<close>

section \<open>The environment\<close>

text \<open>\<open>dispatch\<close>: the handlers (producer and method) of each \<open>signal_id\<close>. \<open>decodes\<close>: \<open>decode_metric\<close> of
  the record returns. \<open>float_of\<close> is \<open>float(value)\<close>, \<open>None\<close> when it raises. \<open>rejects n\<close>: the \<open>n\<close>-th rejection
  is recorded (\<open>Service.reject\<close> returns). \<open>settles n\<close>: the writes of the \<open>n\<close>-th dispatched page, \<open>Some consumer\<close>
  when one was not confirmed. \<open>on_gap\<close>: \<open>None\<close> when the loop was built without.\<close>

record 'm ingest_env =
  the_app :: "'m app"
  dispatch :: "(string, (string \<times> string) list) dict"
  decodes :: "record_ \<Rightarrow> bool"
  float_of :: "json \<Rightarrow> real option"
  rejects :: "nat \<Rightarrow> bool"
  settles :: "nat \<Rightarrow> string option"
  on_gap :: "(gap \<Rightarrow> record_ list \<Rightarrow> bool) option"

definition field :: "string \<Rightarrow> record_ \<Rightarrow> json option" where
  "field k r = (case r_payload r of JObj kvs \<Rightarrow> map_of kvs k | _ \<Rightarrow> None)"

definition signal_id_of :: "record_ \<Rightarrow> string option" where
  "signal_id_of r = (case field ''signal_id'' r of Some (JStr s) \<Rightarrow> Some s | _ \<Rightarrow> None)"

definition timestamp_of :: "'m ingest_env \<Rightarrow> record_ \<Rightarrow> real option" where
  "timestamp_of env r =
     (case field ''timestamp'' r of
        None \<Rightarrow> Some (r_ts r / 1000)
      | Some JNull \<Rightarrow> Some (r_ts r / 1000)
      | Some v \<Rightarrow> float_of env v)"

definition value_of :: "record_ \<Rightarrow> json" where
  "value_of r = (case field ''value'' r of Some v \<Rightarrow> v | None \<Rightarrow> JNull)"

definition handlers_of :: "'m ingest_env \<Rightarrow> record_ \<Rightarrow> (string \<times> string) list" where
  "handlers_of env r =
     (case signal_id_of r of None \<Rightarrow> [] | Some sid \<Rightarrow> (case map_of (dispatch env) sid of Some hs \<Rightarrow> hs | None \<Rightarrow> []))"

section \<open>One page\<close>

text \<open>\<open>ps_handled\<close> lists the handler calls that came back without an error, \<open>ps_rejected\<close> the rejections
  recorded (both for good: the node and the rejection log keep them); \<open>ps_failed\<close> is \<open>self._failed\<close>;
  \<open>ps_tries\<close>, \<open>ps_saves\<close> and \<open>ps_pages\<close> count rejections, checkpoints and dispatched pages.\<close>

record 'm page_state =
  ps_run :: "'m page_run"
  ps_buffer :: buffer
  ps_handled :: "(string \<times> string \<times> record_) list"
  ps_rejected :: "(string \<times> string \<times> record_) list"
  ps_failed :: "(string \<times> record_) option"
  ps_first :: "record_ option"
  ps_tries :: nat
  ps_saves :: nat
  ps_pages :: nat

text \<open>\<open>None\<close> in place of a state: an exception that is no handler's.\<close>

definition point_of :: "'m ingest_env \<Rightarrow> record_ \<Rightarrow> (string \<times> real \<times> json) option option" where
  "point_of env r =
     (case signal_id_of r of
        None \<Rightarrow> Some None
      | Some sid \<Rightarrow> (case timestamp_of env r of None \<Rightarrow> None | Some ts \<Rightarrow> Some (Some (sid, ts, value_of r))))"

fun points_of :: "'m ingest_env \<Rightarrow> record_ list \<Rightarrow> (string \<times> real \<times> json) list option" where
  "points_of env [] = Some []"
| "points_of env (r # rs) =
     (case point_of env r of
        None \<Rightarrow> None
      | Some p \<Rightarrow> map_option (\<lambda>ps. (case p of None \<Rightarrow> [] | Some q \<Rightarrow> [q]) @ ps) (points_of env rs))"

definition append_records :: "'m ingest_env \<Rightarrow> record_ list \<Rightarrow> buffer \<Rightarrow> buffer option" where
  "append_records env rs b = map_option (\<lambda>ps. append_many ps b) (points_of env rs)"

definition append_record :: "'m ingest_env \<Rightarrow> record_ \<Rightarrow> buffer \<Rightarrow> buffer option" where
  "append_record env r b =
     (case point_of env r of
        None \<Rightarrow> None
      | Some None \<Rightarrow> Some b
      | Some (Some (sid, ts, v)) \<Rightarrow> Some (append sid ts v b))"

definition consumer_of :: "string \<Rightarrow> string \<Rightarrow> string" where
  "consumer_of name key = name @ ''.'' @ key"

text \<open>The handler \<open>make_handler\<close> makes: a checkpointed producer goes through the page.\<close>

definition run_one :: "'m ingest_env \<Rightarrow> string \<Rightarrow> string \<Rightarrow> record_ \<Rightarrow> 'm page_run \<Rightarrow> handle_end \<times> 'm page_run" where
  "run_one env name key r s =
     (if \<not> decodes env r then (HRaise, s)
      else if state_version (the_app env) name \<noteq> None \<and> 0 \<le> r_offset r then page_handle (the_app env) name key r s
      else (case invoke (the_app env) (pg_calls s) name key r (memory (pg_producers s name)) of (v, m) \<Rightarrow>
              ((case v of Returns \<Rightarrow> HDone | RaisesReject \<Rightarrow> HReject | Raises \<Rightarrow> HRaise | Cancels \<Rightarrow> HCancel),
               s\<lparr>pg_calls := pg_calls s + 1,
                 pg_producers := (pg_producers s)(name := (pg_producers s name)\<lparr>memory := m\<rparr>)\<rparr>)))"

text \<open>\<open>_handle\<close>: True when it returns.\<close>

fun handle_record :: "'m ingest_env \<Rightarrow> record_ \<Rightarrow> (string \<times> string) list \<Rightarrow> 'm page_state \<Rightarrow> bool \<times> 'm page_state" where
  "handle_record env r [] st = (True, st)"
| "handle_record env r ((name, key) # hs) st =
     (case run_one env name key r (ps_run st) of (res, run) \<Rightarrow>
        let st = st\<lparr>ps_run := run\<rparr> in
        case res of
          HDone \<Rightarrow> handle_record env r hs (st\<lparr>ps_handled := ps_handled st @ [(name, key, r)]\<rparr>)
        | HReject \<Rightarrow>
            (let n = ps_tries st; st = st\<lparr>ps_tries := n + 1\<rparr> in
             if rejects env n then handle_record env r hs (st\<lparr>ps_rejected := ps_rejected st @ [(name, key, r)]\<rparr>)
             else (False, st\<lparr>ps_failed := Some (consumer_of name key, r)\<rparr>))
        | HRaise \<Rightarrow> (False, st\<lparr>ps_failed := Some (consumer_of name key, r)\<rparr>)
        | HRewindFailed c f \<Rightarrow> (False, st\<lparr>ps_failed := Some (c, f)\<rparr>)
        | HCancel \<Rightarrow> (False, st))"

text \<open>The loop of \<open>_dispatch_page\<close>: records nobody handles wait in \<open>quiet\<close>.\<close>

definition append_quiet :: "'m ingest_env \<Rightarrow> record_ list \<Rightarrow> 'm page_state \<Rightarrow> bool \<times> 'm page_state" where
  "append_quiet env quiet st =
     (case append_records env quiet (ps_buffer st) of None \<Rightarrow> (False, st) | Some b \<Rightarrow> (True, st\<lparr>ps_buffer := b\<rparr>))"

definition dispatch_one :: "'m ingest_env \<Rightarrow> record_ list \<Rightarrow> record_ \<Rightarrow> 'm page_state \<Rightarrow> bool \<times> 'm page_state" where
  "dispatch_one env quiet r st =
     (case append_quiet env quiet st of
        (False, st) \<Rightarrow> (False, st)
      | (True, st) \<Rightarrow>
          (case append_record env r (ps_buffer st) of
             None \<Rightarrow> (False, st)
           | Some b \<Rightarrow>
               handle_record env r (handlers_of env r)
                 (st\<lparr>ps_buffer := b, ps_first := (if ps_first st = None then Some r else ps_first st)\<rparr>)))"

fun dispatch_loop :: "'m ingest_env \<Rightarrow> record_ list \<Rightarrow> record_ list \<Rightarrow> 'm page_state \<Rightarrow> bool \<times> 'm page_state" where
  "dispatch_loop env quiet [] st = append_quiet env quiet st"
| "dispatch_loop env quiet (r # rs) st =
     (if handlers_of env r = [] then dispatch_loop env (quiet @ [r]) rs st
      else (case dispatch_one env quiet r st of
              (True, st) \<Rightarrow> dispatch_loop env [] rs st
            | (False, st) \<Rightarrow> (False, st)))"

text \<open>\<open>batch.settle()\<close> when the loop is over, however it ended.\<close>

definition settle_writes :: "'m ingest_env \<Rightarrow> record_ list \<Rightarrow> 'm page_state \<Rightarrow> 'm page_state" where
  "settle_writes env records st =
     (case (settles env (ps_pages st), records) of
        (Some origin, r0 # _) \<Rightarrow>
          st\<lparr>ps_run := abandon (the_app env) origin (case ps_first st of Some r \<Rightarrow> r | None \<Rightarrow> r0) (ps_run st)\<rparr>
      | _ \<Rightarrow> st)"

text \<open>The \<open>finally\<close> blocks: \<open>page.finish()\<close>, then a late failure that comes before the one known.\<close>

definition note_late :: "'m page_state \<Rightarrow> 'm page_state" where
  "note_late st =
     (case pg_failed (ps_run st) of
        None \<Rightarrow> st
      | Some (c, f) \<Rightarrow>
          (case ps_failed st of
             None \<Rightarrow> st\<lparr>ps_failed := Some (c, f)\<rparr>
           | Some (_, g) \<Rightarrow> if r_offset f < r_offset g then st\<lparr>ps_failed := Some (c, f)\<rparr> else st))"

definition finish_page :: "'m ingest_env \<Rightarrow> 'm page_state \<Rightarrow> 'm page_state" where
  "finish_page env st =
     (case finish (the_app env) (ps_run st) (ps_buffer st) (ps_saves st) of (run, b, n) \<Rightarrow>
        note_late (st\<lparr>ps_run := run, ps_buffer := b, ps_saves := n, ps_pages := ps_pages st + 1\<rparr>))"

definition dispatch_page :: "'m ingest_env \<Rightarrow> record_ list \<Rightarrow> 'm page_state \<Rightarrow> bool \<times> 'm page_state" where
  "dispatch_page env records st =
     (case dispatch_loop env [] records st of (returned, st1) \<Rightarrow>
        let st2 = finish_page env (settle_writes env records st1)
        in (returned \<and> pg_failed (ps_run st2) = None, st2))"

text \<open>\<open>_process\<close> after the gap: append, or append and dispatch, in one commit, which ends (commits) also when
  the page failed.\<close>

definition process_records :: "'m ingest_env \<Rightarrow> record_ list \<Rightarrow> 'm page_state \<Rightarrow> bool \<times> 'm page_state" where
  "process_records env records st0 =
     (let st = st0\<lparr>ps_failed := None, ps_first := None, ps_buffer := enter_one_commit (ps_buffer st0),
            ps_run := new_page (pg_producers (ps_run st0)) (pg_calls (ps_run st0))\<rparr>;
          (ok, st') = (if \<exists>r \<in> set records. handlers_of env r \<noteq> [] then dispatch_page env records st
                       else append_quiet env records st)
      in (ok, st'\<lparr>ps_buffer := leave_one_commit (ps_buffer st')\<rparr>))"

section \<open>The loop\<close>

text \<open>\<open>ig_stream\<close> is the \<open>Stream\<close> and the node's cursor; \<open>ig_page\<close> holds what outlives a page: producers,
  buffer, counters. \<open>ig_ack_failed = Some error\<close>: an ack in the background failed. \<open>ig_passed\<close> lists the gaps the
  loop went past.\<close>

record 'm ingest =
  ig_page :: "'m page_state"
  ig_stream :: stream
  ig_read_ahead :: "bool option"
  ig_next_from :: "int option"
  ig_prefetch :: "page option"
  ig_ack_want :: "int option"
  ig_ack_failed :: bool
  ig_behind :: bool
  ig_gap_waiting :: bool
  ig_passed :: "gap list"

datatype step_end = Processed nat | AtHead | GapWaits gap | NoGapHandler | HandlerFailedAt record_ | StepFailed

text \<open>\<open>_send_acks\<close>: one round of the background task. A failed ack drops what is wanted after it.\<close>

definition send_ack :: "world \<Rightarrow> 'm ingest \<Rightarrow> 'm ingest" where
  "send_ack w s =
     (case ig_ack_want s of
        None \<Rightarrow> s
      | Some off \<Rightarrow>
          (case ack w off (ig_stream s) of
             (True, st) \<Rightarrow> s\<lparr>ig_stream := st, ig_ack_want := None\<rparr>
           | (False, st) \<Rightarrow> s\<lparr>ig_stream := st, ig_ack_want := None, ig_ack_failed := True\<rparr>))"

definition queue_ack :: "int \<Rightarrow> 'm ingest \<Rightarrow> 'm ingest" where
  "queue_ack off s = (if ig_ack_failed s then s else s\<lparr>ig_ack_want := Some off\<rparr>)"

text \<open>\<open>_restart_from_cursor\<close> waits for the background task before it forgets its failure.\<close>

definition restart_from_cursor :: "world \<Rightarrow> 'm ingest \<Rightarrow> 'm ingest" where
  "restart_from_cursor w s =
     (send_ack w (s\<lparr>ig_prefetch := None\<rparr>))\<lparr>ig_next_from := None, ig_ack_failed := False\<rparr>"

text \<open>\<open>stream.fetch(from_offset=...)\<close>: never behind the cursor.\<close>

definition fetch_from :: "world \<Rightarrow> int option \<Rightarrow> stream \<Rightarrow> page \<times> stream" where
  "fetch_from w from st =
     (fetch w (fetches st) (case from of None \<Rightarrow> cursor st | Some n \<Rightarrow> max (cursor st) n), st\<lparr>fetches := fetches st + 1\<rparr>)"

definition take_page :: "world \<Rightarrow> 'm ingest \<Rightarrow> page \<times> 'm ingest" where
  "take_page w s =
     (case ig_prefetch s of
        Some p \<Rightarrow> (p, s\<lparr>ig_prefetch := None\<rparr>)
      | None \<Rightarrow> (case fetch_from w (ig_next_from s) (ig_stream s) of (p, st) \<Rightarrow> (p, s\<lparr>ig_stream := st\<rparr>)))"

text \<open>\<open>_process\<close>: \<open>Inl\<close>: the gap ends the step; \<open>Inr ok\<close>.\<close>

definition process_page :: "'m ingest_env \<Rightarrow> page \<Rightarrow> 'm ingest \<Rightarrow> (step_end + bool) \<times> 'm ingest" where
  "process_page env p s =
     (let go = (\<lambda>s. case process_records env (p_records p) (ig_page s) of (ok, ps) \<Rightarrow> (Inr ok, s\<lparr>ig_page := ps\<rparr>))
      in case p_gap p of
           None \<Rightarrow> go s
         | Some g \<Rightarrow>
             (case on_gap env of
                None \<Rightarrow> (Inl NoGapHandler, s)
              | Some may_pass \<Rightarrow>
                  if \<not> may_pass g (p_records p) then (Inl (GapWaits g), s)
                  else go (s\<lparr>ig_gap_waiting := False, ig_passed := ig_passed s @ [g]\<rparr>)))"

text \<open>What the loop does when a step raises (\<open>_run\<close>, \<open>_handler_failed\<close>): it restarts from the cursor, which it
  first moves to the record before a failed one.\<close>

definition step_failed :: "world \<Rightarrow> 'm ingest \<Rightarrow> step_end \<times> 'm ingest" where
  "step_failed w s =
     (let s = restart_from_cursor w s in
      case ps_failed (ig_page s) of
        None \<Rightarrow> (StepFailed, s)
      | Some (c, r) \<Rightarrow>
          (HandlerFailedAt r,
           s\<lparr>ig_page := (ig_page s)\<lparr>ps_failed := None\<rparr>,
             ig_stream := (if 1 < r_offset r then snd (ack w (r_offset r - 1) (ig_stream s)) else ig_stream s)\<rparr>))"

definition note_start :: "page \<Rightarrow> 'm ingest \<Rightarrow> 'm ingest" where
  "note_start p s =
     (if p_start p = None then s\<lparr>ig_read_ahead := Some False\<rparr>
      else s\<lparr>ig_read_ahead := Some True, ig_next_from := Some (p_next p)\<rparr>)"

definition read_ahead :: "world \<Rightarrow> page \<Rightarrow> 'm ingest \<Rightarrow> 'm ingest" where
  "read_ahead w p s =
     (if ig_read_ahead s = Some True
      then (case fetch_from w (Some (p_next p)) (ig_stream s) of (q, st) \<Rightarrow> s\<lparr>ig_prefetch := Some q, ig_stream := st\<rparr>)
      else s)"

definition finish_step :: "world \<Rightarrow> page \<Rightarrow> int \<Rightarrow> 'm ingest \<Rightarrow> step_end \<times> 'm ingest" where
  "finish_step w p off s =
     (if ig_read_ahead s = Some True then (Processed (length (p_records p)), queue_ack off s)
      else (case ack w off (ig_stream s) of
              (True, st) \<Rightarrow> (Processed (length (p_records p)), s\<lparr>ig_stream := st\<rparr>)
            | (False, st) \<Rightarrow> step_failed w (s\<lparr>ig_stream := st\<rparr>)))"

text \<open>One round of \<open>_run\<close>: \<open>_step\<close> and what follows when it raises.\<close>

definition step :: "'m ingest_env \<Rightarrow> world \<Rightarrow> 'm ingest \<Rightarrow> step_end \<times> 'm ingest" where
  "step env w s0 =
     (if ig_ack_failed s0 then step_failed w s0
      else
        case take_page w s0 of (p, s) \<Rightarrow>
        let s = note_start p s in
        case ack_offset p of
          None \<Rightarrow> (AtHead, s\<lparr>ig_behind := False\<rparr>)
        | Some off \<Rightarrow>
            (case process_page env p (read_ahead w p (s\<lparr>ig_behind := True\<rparr>)) of
               (Inr True, s) \<Rightarrow> finish_step w p off s
             | (Inr False, s) \<Rightarrow> step_failed w s
             | (Inl (GapWaits g), s) \<Rightarrow> (GapWaits g, (restart_from_cursor w s)\<lparr>ig_gap_waiting := True\<rparr>)
             | (Inl e, s) \<Rightarrow> (e, restart_from_cursor w s)))"

section \<open>Restarts\<close>

text \<open>The process dies and starts again: the buffer file is opened, producers get their checkpoints back, the
  cursor is the node's. \<open>init\<close> is a producer's state after its constructor and \<open>setup\<close>.\<close>

definition reopen :: "'m ingest_env \<Rightarrow> (string \<Rightarrow> 'm) \<Rightarrow> 'm ingest \<Rightarrow> 'm ingest" where
  "reopen env init s =
     (let b = crash (ps_buffer (ig_page s));
          run = new_page (\<lambda>name. snd (restore_checkpoint (the_app env) name b \<lparr>memory = init name, offsets = []\<rparr>))
                  (pg_calls (ps_run (ig_page s)))
      in s\<lparr>ig_page := (ig_page s)\<lparr>ps_run := run, ps_buffer := b, ps_failed := None\<rparr>,
           ig_stream := (ig_stream s)\<lparr>acknowledged := 0\<rparr>,
           ig_read_ahead := None, ig_next_from := None, ig_prefetch := None, ig_ack_want := None, ig_ack_failed := False,
           ig_behind := False, ig_gap_waiting := False\<rparr>)"

text \<open>What happens to the loop: a round, a background ack, a fetch that fails, the process dying between two rounds,
  and dying inside a round before the page's commit: what its handlers did and the rejections it recorded stay, the
  buffer does not.\<close>

datatype happening = Round | AckRound | FetchFails | Dies | DiesInPage

definition dies_in_page :: "'m ingest_env \<Rightarrow> (string \<Rightarrow> 'm) \<Rightarrow> world \<Rightarrow> 'm ingest \<Rightarrow> 'm ingest" where
  "dies_in_page env init w s =
     (let after = ig_page (snd (step env w s)) in
      reopen env init (s\<lparr>ig_page := (ig_page s)\<lparr>ps_run := (ps_run (ig_page s))\<lparr>pg_calls := pg_calls (ps_run after)\<rparr>,
         ps_handled := ps_handled after, ps_rejected := ps_rejected after, ps_tries := ps_tries after\<rparr>\<rparr>))"

fun happen :: "'m ingest_env \<Rightarrow> (string \<Rightarrow> 'm) \<Rightarrow> world \<Rightarrow> happening \<Rightarrow> 'm ingest \<Rightarrow> 'm ingest" where
  "happen env init w Round s = snd (step env w s)"
| "happen env init w AckRound s = send_ack w s"
| "happen env init w FetchFails s = restart_from_cursor w s"
| "happen env init w Dies s = reopen env init s"
| "happen env init w DiesInPage s = dies_in_page env init w s"

end
