(* ===== verification/Chaski_Exactly_Once.thy ===== *)
theory Chaski_Exactly_Once
  imports Chaski_Ingest
begin

text \<open>
  What the ingest loop promises, over \<open>Chaski_Ingest\<close>: every record before the cursor was buffered and
  handled (or its rejection recorded, or it was lost in a gap the loop was allowed to pass), and the state
  of a checkpointed producer holds each record's effect exactly once, through failures, unconfirmed
  writes, redelivered pages and crashes.
\<close>

section \<open>Inside one page\<close>

definition checkpointed :: "'m ingest_env \<Rightarrow> string \<Rightarrow> bool" where
  "checkpointed env name \<longleftrightarrow> state_version (the_app env) name \<noteq> None"

definition calls_of :: "'m ingest_env \<Rightarrow> record_ list \<Rightarrow> (string \<times> string \<times> record_) list" where
  "calls_of env rs = concat (map (\<lambda>r. map (\<lambda>(n, k). (n, k, r)) (handlers_of env r)) rs)"

lemma calls_of_simps [simp]:
  "calls_of env [] = []"
  "calls_of env (rs @ rs') = calls_of env rs @ calls_of env rs'"
  "calls_of env [r] = map (\<lambda>(n, k). (n, k, r)) (handlers_of env r)"
  "(n, k, r) \<in> set (calls_of env rs) \<longleftrightarrow> r \<in> set rs \<and> (n, k) \<in> set (handlers_of env r)"
  by (auto simp: calls_of_def)

text \<open>A call is done: rejected, or counted in the page's calls \<open>X\<close> or before the page for a checkpointed producer,
  or it came back.\<close>

definition call_done :: "'m ingest_env \<Rightarrow> (string \<Rightarrow> 'm producer) \<Rightarrow> (string \<Rightarrow> (string \<times> record_) list)
    \<Rightarrow> 'm page_state \<Rightarrow> string \<Rightarrow> string \<Rightarrow> record_ \<Rightarrow> bool" where
  "call_done env P0 X st n k r \<longleftrightarrow> (n, k, r) \<in> set (ps_rejected st)
     \<or> (if checkpointed env n then r_offset r \<le> handled_upto (offsets (P0 n)) k \<or> (k, r) \<in> set (X n)
        else (n, k, r) \<in> set (ps_handled st))"

definition under :: "int option \<Rightarrow> int \<Rightarrow> bool" where
  "under q x \<longleftrightarrow> (case q of None \<Rightarrow> True | Some m \<Rightarrow> x < m)"

text \<open>\<open>cs\<close>: the calls made so far; \<open>q n = Some m\<close>: the producer \<open>n\<close> went back to the page's start, where every call
  before the offset \<open>m\<close> had been handled already.\<close>

definition page_ok_for :: "'m ingest_env \<Rightarrow> (string \<Rightarrow> string \<Rightarrow> record_ \<Rightarrow> 'm \<Rightarrow> 'm) \<Rightarrow> (string \<Rightarrow> 'm producer)
    \<Rightarrow> (string \<Rightarrow> (string \<times> record_) list) \<Rightarrow> 'm page_run \<Rightarrow> bool" where
  "page_ok_for env eff P0 X run \<longleftrightarrow>
     (\<exists>P. page_inv (the_app env) eff P X run \<and> (\<forall>n. checkpointed env n \<longrightarrow> P n = P0 n))
     \<and> (\<forall>n. map_of (pg_entries run) n \<noteq> None \<longrightarrow> checkpointed env n)"

definition made_of :: "(string \<times> string \<times> record_) list \<Rightarrow> (string \<Rightarrow> (string \<times> record_) list) \<Rightarrow> bool" where
  "made_of cs X \<longleftrightarrow> (\<forall>n k r. (k, r) \<in> set (X n) \<longrightarrow> (n, k, r) \<in> set cs)"

definition all_done :: "'m ingest_env \<Rightarrow> (string \<Rightarrow> 'm producer) \<Rightarrow> (string \<times> string \<times> record_) list
    \<Rightarrow> (string \<Rightarrow> (string \<times> record_) list) \<Rightarrow> (string \<Rightarrow> int option) \<Rightarrow> 'm page_state \<Rightarrow> bool" where
  "all_done env P0 cs X q st \<longleftrightarrow>
     (\<forall>n k r. (n, k, r) \<in> set cs \<and> under (q n) (r_offset r) \<longrightarrow> call_done env P0 X st n k r)"

definition before_first :: "'m ingest_env \<Rightarrow> (string \<Rightarrow> 'm producer) \<Rightarrow> (string \<times> string \<times> record_) list \<Rightarrow> 'm page_run \<Rightarrow> bool" where
  "before_first env P0 cs run \<longleftrightarrow>
     (\<forall>n k r. (n, k, r) \<in> set cs \<and> checkpointed env n \<and> under (map_option r_offset (first_of run n)) (r_offset r)
        \<longrightarrow> r_offset r \<le> handled_upto (offsets (P0 n)) k)"

definition gone_back :: "'m ingest_env \<Rightarrow> (string \<Rightarrow> int option) \<Rightarrow> (string \<Rightarrow> (string \<times> record_) list) \<Rightarrow> bool" where
  "gone_back env q X \<longleftrightarrow> (\<forall>n. q n \<noteq> None \<longrightarrow> X n = [] \<and> checkpointed env n)"

definition run_inv :: "'m ingest_env \<Rightarrow> (string \<Rightarrow> string \<Rightarrow> record_ \<Rightarrow> 'm \<Rightarrow> 'm) \<Rightarrow> (string \<Rightarrow> 'm producer)
    \<Rightarrow> (string \<times> string \<times> record_) list \<Rightarrow> (string \<Rightarrow> (string \<times> record_) list) \<Rightarrow> (string \<Rightarrow> int option)
    \<Rightarrow> 'm page_state \<Rightarrow> bool" where
  "run_inv env eff P0 cs X q st \<longleftrightarrow> page_ok_for env eff P0 X (ps_run st) \<and> gone_back env q X \<and> made_of cs X
     \<and> all_done env P0 cs X q st \<and> before_first env P0 cs (ps_run st)"

lemma run_invI:
  "\<lbrakk>page_ok_for env eff P0 X (ps_run st); gone_back env q X; made_of cs X; all_done env P0 cs X q st;
    before_first env P0 cs (ps_run st)\<rbrakk> \<Longrightarrow> run_inv env eff P0 cs X q st"
  by (simp add: run_inv_def)

lemma run_invD:
  assumes "run_inv env eff P0 cs X q st"
  shows "page_ok_for env eff P0 X (ps_run st)" "gone_back env q X" "made_of cs X" "all_done env P0 cs X q st"
    "before_first env P0 cs (ps_run st)"
  using assms by (simp_all add: run_inv_def)

definition firsts_upto :: "int \<Rightarrow> 'm page_state \<Rightarrow> bool" where
  "firsts_upto m st \<longleftrightarrow> (\<forall>n f. first_of (ps_run st) n = Some f \<longrightarrow> r_offset f \<le> m)"

text \<open>What a step of the page may change besides the run: the traces grow.\<close>

definition grows :: "'m page_state \<Rightarrow> 'm page_state \<Rightarrow> bool" where
  "grows st st' \<longleftrightarrow> set (ps_handled st) \<subseteq> set (ps_handled st') \<and> set (ps_rejected st) \<subseteq> set (ps_rejected st')
     \<and> pg_failed (ps_run st') = pg_failed (ps_run st)"

lemma grows_refl [simp, intro]: "grows st st" by (simp add: grows_def)

lemma grows_trans: "grows a b \<Longrightarrow> grows b c \<Longrightarrow> grows a c" by (auto simp: grows_def)

lemma call_done_mono:
  "\<lbrakk>call_done env P0 X st n k r; set (X n) \<subseteq> set (X' n); set (ps_handled st) \<subseteq> set (ps_handled st');
    set (ps_rejected st) \<subseteq> set (ps_rejected st')\<rbrakk> \<Longrightarrow> call_done env P0 X' st' n k r"
  by (auto simp: call_done_def split: if_splits)

lemma call_done_run [simp]: "call_done env P0 X (st\<lparr>ps_run := run\<rparr>) n k r = call_done env P0 X st n k r"
  by (simp add: call_done_def)

lemma all_done_run [simp]: "all_done env P0 cs X q (st\<lparr>ps_run := run\<rparr>) = all_done env P0 cs X q st"
  by (simp add: all_done_def)

text \<open>Which earlier offset a producer's record was skipped for.\<close>

lemma skipped_done:
  assumes "run_inv env eff P0 cs X q st" "checkpointed env n" "pg_producers (ps_run st) n = apply_calls eff n (X n) (P0 n)"
    and "r_offset r \<le> handled_upto (offsets (pg_producers (ps_run st) n)) k"
    and "\<forall>(n', k', r') \<in> set cs. r_offset r' \<le> r_offset r \<and> (r_offset r' = r_offset r \<longrightarrow> r' = r)"
  shows "r_offset r \<le> handled_upto (offsets (P0 n)) k \<or> (k, r) \<in> set (X n)"
proof (cases "filter (\<lambda>c. fst c = k) (X n)")
  case Nil
  then show ?thesis using assms(3,4) by (simp add: offsets_apply_calls)
next
  case (Cons c cs')
  let ?l = "last (filter (\<lambda>c. fst c = k) (X n))"
  have l: "?l \<in> set (filter (\<lambda>c. fst c = k) (X n))" using Cons by (intro last_in_set) simp
  obtain k' r' where kr: "?l = (k', r')" by force
  then have r': "?l = (k, r')" "(k, r') \<in> set (X n)" using l by auto
  then have "(n, k, r') \<in> set cs" using assms(1) by (simp add: run_inv_def made_of_def)
  moreover have "r_offset r \<le> r_offset r'" using assms(3,4) Cons r'(1) by (simp add: offsets_apply_calls)
  ultimately have "r' = r" using assms(5) by (metis (mono_tags, lifting) case_prodD order_antisym)
  then show ?thesis using r' by simp
qed

lemma run_inv_producer:
  assumes "run_inv env eff P0 cs X q st" "checkpointed env n"
  shows "pg_producers (ps_run st) n = apply_calls eff n (X n) (P0 n)"
  using run_invD(1) [OF assms(1)] assms(2) page_inv_producer unfolding page_ok_for_def by metis

definition env_ok :: "'m ingest_env \<Rightarrow> (string \<Rightarrow> string \<Rightarrow> record_ \<Rightarrow> 'm \<Rightarrow> 'm) \<Rightarrow> record_ list \<Rightarrow> bool" where
  "env_ok env eff lg \<longleftrightarrow> app_ok (the_app env) eff
     \<and> (\<forall>r \<in> set lg. 0 \<le> r_offset r \<and> timestamp_of env r \<noteq> None)
     \<and> sorted_wrt (<) (map r_offset lg)"

text \<open>Sequence numbers within a page: \<open>r\<close> comes after every call made.\<close>

definition next_after :: "(string \<times> string \<times> record_) list \<Rightarrow> record_ \<Rightarrow> bool" where
  "next_after cs r \<longleftrightarrow> (\<forall>(n, k, r') \<in> set cs. r_offset r' \<le> r_offset r \<and> (r_offset r' = r_offset r \<longrightarrow> r' = r))"

lemma run_inv_frame:
  assumes "run_inv env eff P0 cs X q st" "ps_run st' = ps_run st"
    "set (ps_handled st) \<subseteq> set (ps_handled st')" "set (ps_rejected st) \<subseteq> set (ps_rejected st')"
  shows "run_inv env eff P0 cs X q st'"
proof -
  note inv = run_invD [OF assms(1)]
  have "all_done env P0 cs X q st'"
    using inv(4) call_done_mono [where X = X and X' = X, OF _ _ assms(3,4)] unfolding all_done_def by blast
  with inv show ?thesis by (simp add: run_inv_def assms(2))
qed

text \<open>A call added to those made: it is done, and it does not come before a producer's first record.\<close>

lemma run_inv_add:
  assumes "run_inv env eff P0 cs X q st" "call_done env P0 X st n k r"
    and "checkpointed env n \<and> under (map_option r_offset (first_of (ps_run st) n)) (r_offset r)
          \<longrightarrow> r_offset r \<le> handled_upto (offsets (P0 n)) k"
  shows "run_inv env eff P0 (cs @ [(n, k, r)]) X q st"
  using assms unfolding run_inv_def made_of_def all_done_def before_first_def by auto

lemma run_one_plain:
  assumes ok: "app_ok (the_app env) eff" and inv: "run_inv env eff P0 cs X q st" and "\<not> checkpointed env name"
    and h: "run_one env name key r (ps_run st) = (res, run)"
  shows "res \<in> {HDone, HReject, HRaise} \<and> pg_failed run = pg_failed (ps_run st) \<and> first_of run = first_of (ps_run st)
     \<and> run_inv env eff P0 cs X q (st\<lparr>ps_run := run\<rparr>)"
proof (cases "decodes env r")
  case False
  then show ?thesis using h inv by (auto simp: run_one_def)
next
  case True
  obtain v m where v: "invoke (the_app env) (pg_calls (ps_run st)) name key r (memory (pg_producers (ps_run st) name)) = (v, m)"
    by force
  have run: "run = (ps_run st)\<lparr>pg_calls := pg_calls (ps_run st) + 1,
        pg_producers := (pg_producers (ps_run st))(name := (pg_producers (ps_run st) name)\<lparr>memory := m\<rparr>)\<rparr>"
    and res: "res = (case v of Returns \<Rightarrow> HDone | RaisesReject \<Rightarrow> HReject | Raises \<Rightarrow> HRaise | Cancels \<Rightarrow> HCancel)"
    using h v True assms(3) by (simp_all add: run_one_def checkpointed_def)
  have "v \<noteq> Cancels" using ok v unfolding app_ok_def by (metis fst_conv)
  then have "res \<in> {HDone, HReject, HRaise}" using res by (cases v) auto
  obtain P where P: "page_inv (the_app env) eff P X (ps_run st)" "\<forall>n. checkpointed env n \<longrightarrow> P n = P0 n"
    and none: "map_of (pg_entries (ps_run st)) name = None"
    using run_invD(1) [OF inv] assms(3) unfolding page_ok_for_def by blast
  then have x: "X name = []" using P(1) by (auto simp: page_inv_def entry_inv_def dest: spec [of _ name])
  let ?P = "P(name := (P name)\<lparr>memory := m\<rparr>)"
  have "pg_producers (ps_run st) name = P name" using page_inv_producer [OF P(1), of name] x by simp
  then have "page_inv (the_app env) eff ?P X run"
    using P(1) none x unfolding page_inv_def run by (auto simp: entry_inv_def split: option.splits)
  moreover have "\<forall>n. checkpointed env n \<longrightarrow> ?P n = P0 n" using P(2) assms(3) by auto
  moreover have fr: "first_of run = first_of (ps_run st)" "pg_entries run = pg_entries (ps_run st)" "pg_failed run = pg_failed (ps_run st)"
    by (simp_all add: run first_of_def fun_eq_iff)
  ultimately have "page_ok_for env eff P0 X run" using run_invD(1) [OF inv] unfolding page_ok_for_def by auto
  then show ?thesis using run_invD [OF inv] \<open>res \<in> _\<close> fr
    by (simp add: run_inv_def before_first_def)
qed

lemma rewind_entries:
  "rewind a name e s = (res, s') \<Longrightarrow> nm \<noteq> name \<Longrightarrow> map_of (pg_entries s') nm = map_of (pg_entries s) nm"
  by (auto simp: rewind_def to_start_def Let_def split: prod.splits call_end.splits option.splits)

lemma call_method_entries:
  "call_method a name key r e s = (res, s') \<Longrightarrow> nm \<noteq> name \<Longrightarrow> map_of (pg_entries s') nm = map_of (pg_entries s) nm"
  by (auto simp: call_method_def to_start_def set_entry_def Let_def
      split: prod.splits call_end.splits option.splits handle_end.splits dest!: rewind_entries)

lemma page_handle_entries:
  "page_handle a name key r s = (res, s') \<Longrightarrow> nm \<noteq> name \<Longrightarrow> map_of (pg_entries s') nm = map_of (pg_entries s) nm"
  by (auto simp: page_handle_def enter_def set_entry_def Let_def
      split: option.splits if_splits dest!: call_method_entries)

lemma under_None [simp]: "under None x" by (simp add: under_def)

text \<open>One call of a checkpointed producer, through \<open>page.handle\<close>.\<close>

lemma run_one_checkpointed:
  assumes ok: "app_ok (the_app env) eff" and inv: "run_inv env eff P0 cs X (\<lambda>_. None) st"
    and ck: "checkpointed env name" and off: "0 \<le> r_offset r" and nxt: "next_after cs r" and fu: "firsts_upto (r_offset r) st"
    and h: "run_one env name key r (ps_run st) = (res, run)"
  shows "\<exists>X'. pg_failed run = pg_failed (ps_run st) \<and> firsts_upto (r_offset r) (st\<lparr>ps_run := run\<rparr>)
     \<and> (res = HDone \<and> run_inv env eff P0 (cs @ [(name, key, r)]) X' (\<lambda>_. None) (st\<lparr>ps_run := run\<rparr>)
        \<or> (res = HReject \<or> res = HRaise) \<and> run_inv env eff P0 cs X' (\<lambda>_. None) (st\<lparr>ps_run := run\<rparr>)
        \<or> (\<exists>c f. res = HRewindFailed c f \<and> r_offset f \<le> r_offset r
             \<and> run_inv env eff P0 cs X' ((\<lambda>_. None)(name := Some (r_offset f))) (st\<lparr>ps_run := run\<rparr>)))"
proof (cases "decodes env r")
  case False
  then show ?thesis using h inv fu by (intro exI [of _ X]) (auto simp: run_one_def)
next
  case True
  note I = run_invD [OF inv]
  have ph: "page_handle (the_app env) name key r (ps_run st) = (res, run)"
    using h True ck off by (simp add: run_one_def checkpointed_def)
  obtain P where P: "page_inv (the_app env) eff P X (ps_run st)" "\<forall>n. checkpointed env n \<longrightarrow> P n = P0 n"
    using I(1) unfolding page_ok_for_def by blast
  obtain xs where inv': "page_inv (the_app env) eff P (X(name := xs)) run"
    and pf: "pg_failed run = pg_failed (ps_run st)"
    and fo: "\<forall>nm. nm \<noteq> name \<longrightarrow> first_of run nm = first_of (ps_run st) nm"
      "first_of (ps_run st) name \<noteq> None \<longrightarrow> first_of run name = first_of (ps_run st) name"
      "first_of (ps_run st) name = None \<longrightarrow> first_of run name = Some r
          \<or> first_of run name = None \<and> xs = X name \<and> (res = HRaise
             \<or> res = HDone \<and> r_offset r \<le> handled_upto (offsets (pg_producers (ps_run st) name)) key)"
    and xs: "res = HDone \<and> (xs = X name @ [(key, r)]
             \<or> xs = X name \<and> r_offset r \<le> handled_upto (offsets (pg_producers (ps_run st) name)) key)
        \<or> (res = HReject \<or> res = HRaise) \<and> xs = X name
        \<or> (\<exists>c f. res = HRewindFailed c f \<and> xs = [] \<and> first_of run name = Some f)"
    using page_handle_result [OF ok P(1) ph] by metis
  let ?X = "X(name := xs)" and ?st = "st\<lparr>ps_run := run\<rparr>"
  have ent: "map_of (pg_entries run) n \<noteq> None \<longrightarrow> checkpointed env n" for n
    using I(1) ck page_handle_entries [OF ph, of n] unfolding page_ok_for_def by (cases "n = name") auto
  have pg: "page_ok_for env eff P0 ?X run" using inv' P(2) ent unfolding page_ok_for_def by blast
  have firsts: "firsts_upto (r_offset r) ?st"
  proof -
    have "r_offset f \<le> r_offset r" if "first_of run n = Some f" for n f
      using fu fo that unfolding firsts_upto_def by (cases "n = name"; cases "first_of (ps_run st) name") auto
    then show ?thesis by (simp add: firsts_upto_def)
  qed
  have bf: "before_first env P0 cs run"
    using I(5) fo unfolding before_first_def by (metis option.map_disc_iff under_None)
  have old: "(name, k, r') \<in> set cs \<Longrightarrow> r_offset r' \<le> handled_upto (offsets (P0 name)) k"
    if "first_of (ps_run st) name = None" for k r'
    using I(5) ck that unfolding before_first_def by simp
  have ge: "\<not> under (map_option r_offset (first_of run name)) (r_offset r)" if "first_of run name \<noteq> None"
    using firsts that unfolding firsts_upto_def under_def by fastforce
  consider (new) "res = HDone" "xs = X name @ [(key, r)]"
    | (skip) "res = HDone" "xs = X name" "r_offset r \<le> handled_upto (offsets (pg_producers (ps_run st) name)) key"
    | (fail) "res = HReject \<or> res = HRaise" "xs = X name"
    | (rew) c f where "res = HRewindFailed c f" "xs = []" "first_of run name = Some f"
    using xs by blast
  then show ?thesis
  proof cases
    case new
    have "all_done env P0 cs ?X (\<lambda>_. None) ?st"
    proof -
      have "call_done env P0 ?X ?st n k r'" if "(n, k, r') \<in> set cs" for n k r'
        using call_done_mono [of env P0 X st n k r' ?X ?st] I(4) that by (cases "n = name") (auto simp: all_done_def new(2))
      then show ?thesis by (simp add: all_done_def)
    qed
    moreover have "made_of (cs @ [(name, key, r)]) ?X" using I(3) by (auto simp: made_of_def new(2))
    moreover have "before_first env P0 (cs @ [(name, key, r)]) run"
    proof -
      have "first_of run name \<noteq> None" using fo(2,3) new by auto
      then show ?thesis using bf ge unfolding before_first_def by auto
    qed
    moreover have "call_done env P0 ?X ?st name key r" using ck by (simp add: call_done_def new(2))
    ultimately have "run_inv env eff P0 (cs @ [(name, key, r)]) ?X (\<lambda>_. None) ?st"
      using pg by (auto simp: run_inv_def gone_back_def all_done_def)
    then show ?thesis using pf firsts new(1) by blast
  next
    case skip
    have same: "?X = X" using skip(2) by simp
    have inv2: "run_inv env eff P0 cs X (\<lambda>_. None) ?st" using I pg bf same by (simp add: run_inv_def)
    have sk: "r_offset r \<le> handled_upto (offsets (P0 name)) key \<or> (key, r) \<in> set (X name)"
      by (rule skipped_done [OF inv ck run_inv_producer [OF inv ck] skip(3)]) (use nxt in \<open>simp add: next_after_def\<close>)
    have "run_inv env eff P0 (cs @ [(name, key, r)]) X (\<lambda>_. None) ?st"
    proof (rule run_inv_add [OF inv2])
      show "call_done env P0 X ?st name key r" using sk ck by (simp add: call_done_def)
      show "checkpointed env name \<and> under (map_option r_offset (first_of (ps_run ?st) name)) (r_offset r)
          \<longrightarrow> r_offset r \<le> handled_upto (offsets (P0 name)) key"
        using ge sk I(3) old fo(2) by (cases "first_of run name") (auto simp: made_of_def)
    qed
    then show ?thesis using pf firsts skip(1) by blast
  next
    case fail
    have "?X = X" using fail(2) by simp
    then have "run_inv env eff P0 cs X (\<lambda>_. None) ?st" using I pg bf by (simp add: run_inv_def)
    then show ?thesis using pf firsts fail(1) by blast
  next
    case rew
    let ?q = "(\<lambda>_. None)(name := Some (r_offset f))"
    have "r_offset f \<le> r_offset r" using firsts rew(3) by (simp add: firsts_upto_def)
    moreover have "all_done env P0 cs ?X ?q ?st"
    proof -
      have "call_done env P0 ?X ?st n k r'" if "(n, k, r') \<in> set cs" "under (?q n) (r_offset r')" for n k r'
      proof (cases "n = name")
        case True
        then have "r_offset r' \<le> handled_upto (offsets (P0 name)) k"
          using bf that ck rew(3) unfolding before_first_def by (auto simp: under_def)
        then show ?thesis using ck True by (simp add: call_done_def)
      next
        case False
        have "call_done env P0 X st n k r'" using I(4) that(1) by (simp add: all_done_def)
        then show ?thesis using False by (cases "checkpointed env n") (simp_all add: call_done_def)
      qed
      then show ?thesis by (auto simp: all_done_def)
    qed
    moreover have "made_of cs ?X" "gone_back env ?q ?X" using I(3) ck rew(2) by (auto simp: made_of_def gone_back_def)
    ultimately show ?thesis using pf firsts rew(1) pg bf by (auto simp: run_inv_def)
  qed
qed

text \<open>One handler call and what \<open>_handle\<close> notes of it.\<close>

lemma run_one_result:
  assumes ok: "app_ok (the_app env) eff" and inv: "run_inv env eff P0 cs X (\<lambda>_. None) st"
    and off: "0 \<le> r_offset r" and nxt: "next_after cs r" and fu: "firsts_upto (r_offset r) st"
    and h: "run_one env name key r (ps_run st) = (res, run)"
  shows "\<exists>X'. pg_failed run = pg_failed (ps_run st) \<and> firsts_upto (r_offset r) (st\<lparr>ps_run := run\<rparr>)
     \<and> (res = HDone \<and> run_inv env eff P0 (cs @ [(name, key, r)]) X' (\<lambda>_. None)
            (st\<lparr>ps_run := run, ps_handled := ps_handled st @ [(name, key, r)]\<rparr>)
        \<or> res = HReject \<and> run_inv env eff P0 cs X' (\<lambda>_. None) (st\<lparr>ps_run := run\<rparr>)
           \<and> run_inv env eff P0 (cs @ [(name, key, r)]) X' (\<lambda>_. None)
               (st\<lparr>ps_run := run, ps_tries := ps_tries st + 1, ps_rejected := ps_rejected st @ [(name, key, r)]\<rparr>)
        \<or> res = HRaise \<and> run_inv env eff P0 cs X' (\<lambda>_. None) (st\<lparr>ps_run := run\<rparr>)
        \<or> (\<exists>c f. res = HRewindFailed c f \<and> r_offset f \<le> r_offset r
             \<and> run_inv env eff P0 cs X' ((\<lambda>_. None)(name := Some (r_offset f))) (st\<lparr>ps_run := run\<rparr>)))"
proof -
  let ?rej = "st\<lparr>ps_run := run, ps_tries := ps_tries st + 1, ps_rejected := ps_rejected st @ [(name, key, r)]\<rparr>"
  let ?han = "st\<lparr>ps_run := run, ps_handled := ps_handled st @ [(name, key, r)]\<rparr>"
  have rejected: "run_inv env eff P0 (cs @ [(name, key, r)]) X' (\<lambda>_. None) ?rej"
    if i: "run_inv env eff P0 cs X' (\<lambda>_. None) (st\<lparr>ps_run := run\<rparr>)"
      and f: "checkpointed env name \<longrightarrow> (\<forall>f. first_of run name = Some f \<longrightarrow> r_offset f \<le> r_offset r) \<and> first_of run name \<noteq> None" for X'
  proof (rule run_inv_add)
    show "run_inv env eff P0 cs X' (\<lambda>_. None) ?rej" by (rule run_inv_frame [OF i]) auto
    show "call_done env P0 X' ?rej name key r" by (simp add: call_done_def)
    show "checkpointed env name \<and> under (map_option r_offset (first_of (ps_run ?rej) name)) (r_offset r)
        \<longrightarrow> r_offset r \<le> handled_upto (offsets (P0 name)) key"
      using f by (cases "first_of run name") (auto simp: under_def)
  qed
  show ?thesis
  proof (cases "checkpointed env name")
    case True
    have rj: "res = HReject \<Longrightarrow> first_of run name \<noteq> None"
    proof -
      assume "res = HReject"
      obtain P where P: "page_inv (the_app env) eff P X (ps_run st)" using run_invD(1) [OF inv] unfolding page_ok_for_def by blast
      have "page_handle (the_app env) name key r (ps_run st) = (res, run)"
        using h True off \<open>res = HReject\<close> by (auto simp: run_one_def checkpointed_def split: if_splits)
      from page_handle_result [OF ok P this] \<open>res = HReject\<close> show ?thesis
        by (cases "first_of (ps_run st) name") auto
    qed
    obtain X' where X': "pg_failed run = pg_failed (ps_run st)" "firsts_upto (r_offset r) (st\<lparr>ps_run := run\<rparr>)"
      "res = HDone \<and> run_inv env eff P0 (cs @ [(name, key, r)]) X' (\<lambda>_. None) (st\<lparr>ps_run := run\<rparr>)
        \<or> (res = HReject \<or> res = HRaise) \<and> run_inv env eff P0 cs X' (\<lambda>_. None) (st\<lparr>ps_run := run\<rparr>)
        \<or> (\<exists>c f. res = HRewindFailed c f \<and> r_offset f \<le> r_offset r
             \<and> run_inv env eff P0 cs X' ((\<lambda>_. None)(name := Some (r_offset f))) (st\<lparr>ps_run := run\<rparr>))"
      using run_one_checkpointed [OF ok inv True off nxt fu h] by blast
    have "run_inv env eff P0 (cs @ [(name, key, r)]) X' (\<lambda>_. None) ?han"
      if "run_inv env eff P0 (cs @ [(name, key, r)]) X' (\<lambda>_. None) (st\<lparr>ps_run := run\<rparr>)"
      by (rule run_inv_frame [OF that]) auto
    moreover have "run_inv env eff P0 (cs @ [(name, key, r)]) X' (\<lambda>_. None) ?rej"
      if "run_inv env eff P0 cs X' (\<lambda>_. None) (st\<lparr>ps_run := run\<rparr>)" "res = HReject"
      using rejected [OF that(1)] X'(2) rj that(2) by (auto simp: firsts_upto_def)
    ultimately show ?thesis using X' by blast
  next
    case False
    note pl = run_one_plain [OF ok inv False h]
    then have i: "run_inv env eff P0 cs X (\<lambda>_. None) (st\<lparr>ps_run := run\<rparr>)" by blast
    have "run_inv env eff P0 (cs @ [(name, key, r)]) X (\<lambda>_. None) ?han"
    proof (rule run_inv_add)
      show "run_inv env eff P0 cs X (\<lambda>_. None) ?han" by (rule run_inv_frame [OF i]) auto
    qed (use False in \<open>auto simp: call_done_def\<close>)
    moreover have "firsts_upto (r_offset r) (st\<lparr>ps_run := run\<rparr>)" using fu pl by (simp add: firsts_upto_def)
    ultimately show ?thesis using pl i rejected [OF i] False by (intro exI [of _ X]) auto
  qed
qed

text \<open>The page ended inside the calls of \<open>r\<close>, with the record it resumes at in \<open>ps_failed\<close>.\<close>

definition failed_in :: "'m ingest_env \<Rightarrow> (string \<Rightarrow> string \<Rightarrow> record_ \<Rightarrow> 'm \<Rightarrow> 'm) \<Rightarrow> (string \<Rightarrow> 'm producer)
    \<Rightarrow> (string \<times> string \<times> record_) list \<Rightarrow> record_ \<Rightarrow> (string \<times> string) list \<Rightarrow> 'm page_state \<Rightarrow> bool" where
  "failed_in env eff P0 cs r hs st \<longleftrightarrow>
     (\<exists>hs' X q c f. set hs' \<subseteq> set hs \<and> run_inv env eff P0 (cs @ map (\<lambda>(n, k). (n, k, r)) hs') X q st
        \<and> ps_failed st = Some (c, f) \<and> r_offset f \<le> r_offset r \<and> (\<forall>n m. q n = Some m \<longrightarrow> r_offset f \<le> m))"

lemma failed_in_Cons:
  assumes "failed_in env eff P0 (cs @ [(n, k, r)]) r hs st"
  shows "failed_in env eff P0 cs r ((n, k) # hs) st"
proof -
  obtain hs' X q c f where "set hs' \<subseteq> set hs" "run_inv env eff P0 ((cs @ [(n, k, r)]) @ map (\<lambda>(n, k). (n, k, r)) hs') X q st"
    "ps_failed st = Some (c, f)" "r_offset f \<le> r_offset r" "\<forall>n m. q n = Some m \<longrightarrow> r_offset f \<le> m"
    using assms unfolding failed_in_def by blast
  then show ?thesis unfolding failed_in_def
    by (intro exI [of _ "(n, k) # hs'"] exI [of _ X] exI [of _ q] exI [of _ c] exI [of _ f]) auto
qed

lemma next_after_add: "next_after cs r \<Longrightarrow> next_after (cs @ [(n, k, r)]) r"
  by (auto simp: next_after_def)

lemma handle_record_result:
  assumes "app_ok (the_app env) eff" "run_inv env eff P0 cs X (\<lambda>_. None) st" "0 \<le> r_offset r" "next_after cs r"
    "firsts_upto (r_offset r) st" "handle_record env r hs st = (ret, st')"
  shows "ps_buffer st' = ps_buffer st \<and> ps_first st' = ps_first st \<and> grows st st' \<and> firsts_upto (r_offset r) st'
     \<and> (if ret then (\<exists>X'. run_inv env eff P0 (cs @ map (\<lambda>(n, k). (n, k, r)) hs) X' (\<lambda>_. None) st') \<and> ps_failed st' = ps_failed st
          else failed_in env eff P0 cs r hs st')"
  using assms(2,4-6)
proof (induction hs arbitrary: cs X st)
  case Nil
  then show ?case by auto
next
  case (Cons h hs)
  obtain name key where h: "h = (name, key)" by force
  obtain res run where ro: "run_one env name key r (ps_run st) = (res, run)" by force
  obtain X1 where pf: "pg_failed run = pg_failed (ps_run st)" and fu: "firsts_upto (r_offset r) (st\<lparr>ps_run := run\<rparr>)"
    and cases: "res = HDone \<and> run_inv env eff P0 (cs @ [(name, key, r)]) X1 (\<lambda>_. None)
            (st\<lparr>ps_run := run, ps_handled := ps_handled st @ [(name, key, r)]\<rparr>)
        \<or> res = HReject \<and> run_inv env eff P0 cs X1 (\<lambda>_. None) (st\<lparr>ps_run := run\<rparr>)
           \<and> run_inv env eff P0 (cs @ [(name, key, r)]) X1 (\<lambda>_. None)
               (st\<lparr>ps_run := run, ps_tries := ps_tries st + 1, ps_rejected := ps_rejected st @ [(name, key, r)]\<rparr>)
        \<or> res = HRaise \<and> run_inv env eff P0 cs X1 (\<lambda>_. None) (st\<lparr>ps_run := run\<rparr>)
        \<or> (\<exists>c f. res = HRewindFailed c f \<and> r_offset f \<le> r_offset r
             \<and> run_inv env eff P0 cs X1 ((\<lambda>_. None)(name := Some (r_offset f))) (st\<lparr>ps_run := run\<rparr>))"
    using run_one_result [OF assms(1) Cons.prems(1) assms(3) Cons.prems(2,3) ro] by blast
  let ?rej = "st\<lparr>ps_run := run, ps_tries := ps_tries st + 1, ps_rejected := ps_rejected st @ [(name, key, r)]\<rparr>"
  let ?han = "st\<lparr>ps_run := run, ps_handled := ps_handled st @ [(name, key, r)]\<rparr>"
  have go: "?case" if s1: "handle_record env r hs s1 = (ret, st')" "run_inv env eff P0 (cs @ [(name, key, r)]) X1 (\<lambda>_. None) s1"
      "s1 \<in> {?rej, ?han}" for s1
  proof -
    have s1': "firsts_upto (r_offset r) s1" "grows st s1" "ps_buffer s1 = ps_buffer st" "ps_first s1 = ps_first st" "ps_failed s1 = ps_failed st"
      using fu pf s1(3) by (auto simp: firsts_upto_def grows_def)
    note IH = Cons.IH [OF s1(2) next_after_add [OF Cons.prems(2)] s1'(1) s1(1)]
    show ?thesis using IH s1' h failed_in_Cons [of env eff P0 cs name key r hs st'] grows_trans [OF s1'(2), of st']
      by (cases ret) auto
  qed
  have stop: "?case" if s1: "\<not> ret" "ps_run st' = run" "ps_buffer st' = ps_buffer st" "ps_first st' = ps_first st"
      "ps_handled st' = ps_handled st" "ps_rejected st' = ps_rejected st"
      "ps_failed st' = Some (c, f)" "r_offset f \<le> r_offset r"
      "run_inv env eff P0 cs X1 q (st\<lparr>ps_run := run\<rparr>)" "\<forall>n m. q n = Some m \<longrightarrow> r_offset f \<le> m" for c f q
  proof -
    have "run_inv env eff P0 cs X1 q st'" using run_inv_frame [OF s1(9), of st'] s1 by simp
    then have "failed_in env eff P0 cs r (h # hs) st'" unfolding failed_in_def using s1
      by (intro exI [of _ "[]"] exI [of _ X1] exI [of _ q] exI [of _ c] exI [of _ f]) auto
    moreover have "grows st st'" "firsts_upto (r_offset r) st'" using s1 pf fu by (auto simp: grows_def firsts_upto_def)
    ultimately show ?thesis using s1 by simp
  qed
  have hr: "handle_record env r ((name, key) # hs) st = (ret, st')" using Cons.prems(4) h by simp
  from cases show ?case
  proof (elim disjE exE conjE)
    assume "res = HDone" "run_inv env eff P0 (cs @ [(name, key, r)]) X1 (\<lambda>_. None) ?han"
    then show ?case using hr ro by (intro go [of ?han]) auto
  next
    assume a: "res = HReject" "run_inv env eff P0 cs X1 (\<lambda>_. None) (st\<lparr>ps_run := run\<rparr>)"
      "run_inv env eff P0 (cs @ [(name, key, r)]) X1 (\<lambda>_. None) ?rej"
    show ?case
    proof (cases "rejects env (ps_tries st)")
      case True
      then show ?thesis using a hr ro by (intro go [of ?rej]) (auto simp: Let_def)
    next
      case False
      then have "\<not> ret \<and> st' = st\<lparr>ps_run := run, ps_tries := ps_tries st + 1, ps_failed := Some (consumer_of name key, r)\<rparr>"
        using a hr ro by (auto simp: Let_def)
      then show ?thesis using a by (intro stop [of "consumer_of name key" r "\<lambda>_. None"]) auto
    qed
  next
    assume a: "res = HRaise" "run_inv env eff P0 cs X1 (\<lambda>_. None) (st\<lparr>ps_run := run\<rparr>)"
    then have "\<not> ret \<and> st' = st\<lparr>ps_run := run, ps_failed := Some (consumer_of name key, r)\<rparr>" using hr ro by auto
    then show ?case using a by (intro stop [of "consumer_of name key" r "\<lambda>_. None"]) auto
  next
    fix c f assume a: "res = HRewindFailed c f" "r_offset f \<le> r_offset r"
      "run_inv env eff P0 cs X1 ((\<lambda>_. None)(name := Some (r_offset f))) (st\<lparr>ps_run := run\<rparr>)"
    then have "\<not> ret \<and> st' = st\<lparr>ps_run := run, ps_failed := Some (c, f)\<rparr>" using hr ro by auto
    then show ?case using a by (intro stop [of c f "(\<lambda>_. None)(name := Some (r_offset f))"]) (auto split: if_splits)
  qed
qed

section \<open>The buffer during a page\<close>

definition buffered :: "'m ingest_env \<Rightarrow> buffer \<Rightarrow> record_ \<Rightarrow> bool" where
  "buffered env b r \<longleftrightarrow>
     (\<forall>sid ts v. point_of env r = Some (Some (sid, ts, v)) \<longrightarrow> map_of (db_points (work b)) (sid, ts) \<noteq> None)"

text \<open>Points are only added, checkpoints stay.\<close>

definition appended_to :: "buffer \<Rightarrow> buffer \<Rightarrow> bool" where
  "appended_to b b' \<longleftrightarrow> deferred b' = deferred b \<and> (\<forall>n. checkpoint_of n b' = checkpoint_of n b)
     \<and> dom (map_of (db_points (work b))) \<subseteq> dom (map_of (db_points (work b')))"

lemma appended_to_refl [simp, intro]: "appended_to b b" by (simp add: appended_to_def)

lemma appended_to_trans: "appended_to a b \<Longrightarrow> appended_to b c \<Longrightarrow> appended_to a c"
  using order_trans [of "dom (map_of (db_points (work a)))" "dom (map_of (db_points (work b)))" "dom (map_of (db_points (work c)))"]
  by (simp add: appended_to_def)

lemma buffered_mono: "buffered env b r \<Longrightarrow> appended_to b b' \<Longrightarrow> buffered env b' r"
  unfolding buffered_def appended_to_def by blast

lemma settle_work [simp]: "work (settle b) = work b" "deferred (settle b) = deferred b"
  by (simp_all add: settle_def commit_def)

lemma edit_work [simp]: "work (edit f b) = f (work b)" "deferred (edit f b) = deferred b"
  by (simp_all add: edit_def)

lemma appended_append: "appended_to b (append sid ts v b)"
  by (auto simp: appended_to_def append_def checkpoint_of_def)

lemma fold_replace_dom:
  "dom (map_of (fold (\<lambda>(sid, ts, v). replace_row (sid, ts) v) ps d)) = dom (map_of d) \<union> (\<lambda>(sid, ts, v). (sid, ts)) ` set ps"
  by (induction ps arbitrary: d) (auto split: prod.splits)

lemma appended_append_many: "appended_to b (append_many ps b)"
  by (auto simp: appended_to_def append_many_def checkpoint_of_def fold_replace_dom simp del: domIff)

lemma point_of_Some: "timestamp_of env r \<noteq> None \<Longrightarrow> \<exists>p. point_of env r = Some p"
  by (cases "signal_id_of r") (auto simp: point_of_def)

lemma points_of_result:
  assumes "\<forall>r \<in> set rs. timestamp_of env r \<noteq> None"
  shows "\<exists>ps. points_of env rs = Some ps \<and> (\<forall>r \<in> set rs. \<forall>p. point_of env r = Some (Some p) \<longrightarrow> p \<in> set ps)"
  using assms
proof (induction rs)
  case (Cons r rs)
  then obtain ps where "points_of env rs = Some ps" "\<forall>r \<in> set rs. \<forall>p. point_of env r = Some (Some p) \<longrightarrow> p \<in> set ps" by auto
  moreover obtain p where "point_of env r = Some p" using Cons.prems point_of_Some [of env r] by auto
  ultimately show ?case by (auto split: option.splits)
qed simp

lemma append_quiet_result:
  assumes "\<forall>r \<in> set quiet. timestamp_of env r \<noteq> None" "append_quiet env quiet st = (ret, st')"
  shows "ret \<and> (\<exists>b. st' = st\<lparr>ps_buffer := b\<rparr> \<and> appended_to (ps_buffer st) b \<and> (\<forall>r \<in> set quiet. buffered env b r))"
proof -
  obtain ps where ps: "points_of env quiet = Some ps"
      "\<forall>r \<in> set quiet. \<forall>p. point_of env r = Some (Some p) \<longrightarrow> p \<in> set ps"
    using points_of_result [OF assms(1)] by blast
  have "buffered env (append_many ps (ps_buffer st)) r" if "r \<in> set quiet" for r
    unfolding buffered_def
  proof (intro allI impI)
    fix sid ts v assume "point_of env r = Some (Some (sid, ts, v))"
    then have m: "(sid, ts, v) \<in> set ps" using ps that by blast
    then have "(sid, ts) \<in> dom (map_of (db_points (work (append_many ps (ps_buffer st)))))"
      by (auto simp: append_many_def fold_replace_dom image_iff simp del: domIff)
    then show "map_of (db_points (work (append_many ps (ps_buffer st)))) (sid, ts) \<noteq> None" by (simp add: domIff)
  qed
  then show ?thesis using assms(2) ps appended_append_many by (auto simp: append_quiet_def append_records_def)
qed

lemma append_record_result:
  assumes "timestamp_of env r \<noteq> None"
  shows "\<exists>b'. append_record env r b = Some b' \<and> appended_to b b' \<and> buffered env b' r"
proof -
  obtain p where p: "point_of env r = Some p" using point_of_Some [OF assms] by blast
  show ?thesis
  proof (cases p)
    case None
    then show ?thesis using p by (auto simp: append_record_def buffered_def)
  next
    case (Some q)
    obtain sid ts v where "q = (sid, ts, v)" by (cases q)
    then show ?thesis using p Some by (auto simp: append_record_def buffered_def appended_append) (simp add: append_def)
  qed
qed

section \<open>The records of a page\<close>

definition first_handled :: "'m ingest_env \<Rightarrow> record_ list \<Rightarrow> 'm page_state \<Rightarrow> bool" where
  "first_handled env pre st \<longleftrightarrow>
     (case ps_first st of
        None \<Rightarrow> \<forall>x \<in> set pre. handlers_of env x = []
      | Some f \<Rightarrow> f \<in> set pre \<and> (\<forall>x \<in> set pre. r_offset x < r_offset f \<longrightarrow> handlers_of env x = []))"

text \<open>No record a producer could go back to lies past the page.\<close>

definition upto_page :: "record_ list \<Rightarrow> record_ \<Rightarrow> bool" where
  "upto_page records f \<longleftrightarrow> (\<exists>r \<in> set records. r_offset f \<le> r_offset r)"

definition firsts_in :: "record_ list \<Rightarrow> 'm page_state \<Rightarrow> bool" where
  "firsts_in records st \<longleftrightarrow> (\<forall>n f. first_of (ps_run st) n = Some f \<longrightarrow> upto_page records f)"

definition within_page :: "record_ list \<Rightarrow> 'm page_state \<Rightarrow> bool" where
  "within_page records st \<longleftrightarrow> firsts_in records st
     \<and> (\<forall>c f. pg_failed (ps_run st) = Some (c, f) \<longrightarrow> upto_page records f)
     \<and> (\<forall>c f. ps_failed st = Some (c, f) \<longrightarrow> upto_page records f)
     \<and> (\<forall>f. ps_first st = Some f \<longrightarrow> upto_page records f)"

text \<open>How \<open>dispatch_loop\<close> leaves a page of \<open>records\<close>.\<close>

definition loop_done :: "'m ingest_env \<Rightarrow> (string \<Rightarrow> string \<Rightarrow> record_ \<Rightarrow> 'm \<Rightarrow> 'm) \<Rightarrow> (string \<Rightarrow> 'm producer)
    \<Rightarrow> record_ list \<Rightarrow> 'm page_state \<Rightarrow> bool" where
  "loop_done env eff P0 records st \<longleftrightarrow> (\<exists>X. run_inv env eff P0 (calls_of env records) X (\<lambda>_. None) st)
     \<and> first_handled env records st \<and> firsts_in records st \<and> (\<forall>x \<in> set records. buffered env (ps_buffer st) x)"

definition loop_failed :: "'m ingest_env \<Rightarrow> (string \<Rightarrow> string \<Rightarrow> record_ \<Rightarrow> 'm \<Rightarrow> 'm) \<Rightarrow> (string \<Rightarrow> 'm producer)
    \<Rightarrow> record_ list \<Rightarrow> 'm page_state \<Rightarrow> bool" where
  "loop_failed env eff P0 records st \<longleftrightarrow>
     (\<exists>pre r post. records = pre @ r # post \<and> failed_in env eff P0 (calls_of env pre) r (handlers_of env r) st
        \<and> firsts_upto (r_offset r) st \<and> first_handled env (pre @ [r]) st
        \<and> (\<forall>x \<in> set pre. buffered env (ps_buffer st) x))"

lemma dispatch_one_result:
  assumes "app_ok (the_app env) eff" "run_inv env eff P0 (calls_of env pre) X (\<lambda>_. None) st" "firsts_upto (r_offset r) st"
    and "sorted_wrt (<) (map r_offset (pre @ [r]))" "0 \<le> r_offset r" "\<forall>x \<in> set (pre @ [r]). timestamp_of env x \<noteq> None"
    and "handlers_of env r \<noteq> []" "set quiet \<subseteq> set pre" "\<forall>x \<in> set pre - set quiet. buffered env (ps_buffer st) x"
    and "first_handled env pre st" "dispatch_one env quiet r st = (ret, st')"
  shows "appended_to (ps_buffer st) (ps_buffer st') \<and> grows st st' \<and> firsts_upto (r_offset r) st'
     \<and> first_handled env (pre @ [r]) st' \<and> (\<forall>x \<in> set (pre @ [r]). buffered env (ps_buffer st') x)
     \<and> (if ret then (\<exists>X. run_inv env eff P0 (calls_of env (pre @ [r])) X (\<lambda>_. None) st') \<and> ps_failed st' = ps_failed st
        else failed_in env eff P0 (calls_of env pre) r (handlers_of env r) st')"
proof -
  obtain b1 where b1: "append_quiet env quiet st = (True, st\<lparr>ps_buffer := b1\<rparr>)" "appended_to (ps_buffer st) b1"
      "\<forall>x \<in> set quiet. buffered env b1 x"
  proof -
    obtain ok0 s0 where aq: "append_quiet env quiet st = (ok0, s0)" by force
    have "\<forall>x \<in> set quiet. timestamp_of env x \<noteq> None" using assms(6,8) by auto
    from append_quiet_result [OF this aq] show ?thesis using that aq by auto
  qed
  obtain b2 where b2: "append_record env r b1 = Some b2" "appended_to b1 b2" "buffered env b2 r"
    using append_record_result [of env r b1] assms(6) by auto
  have buf: "appended_to (ps_buffer st) b2" "\<forall>x \<in> set (pre @ [r]). buffered env b2 x"
    using b1 b2 assms(9) by (auto intro: appended_to_trans buffered_mono)
  define st2 where "st2 = st\<lparr>ps_buffer := b2, ps_first := (if ps_first st = None then Some r else ps_first st)\<rparr>"
  have h: "handle_record env r (handlers_of env r) st2 = (ret, st')"
    using assms(11) b1(1) b2(1) by (cases "ps_first st") (auto simp: dispatch_one_def st2_def)
  have inv2: "run_inv env eff P0 (calls_of env pre) X (\<lambda>_. None) st2"
    by (rule run_inv_frame [OF assms(2)]) (auto simp: st2_def)
  have "next_after (calls_of env pre) r" using assms(4) by (fastforce simp: next_after_def sorted_wrt_append)
  moreover have "firsts_upto (r_offset r) st2" using assms(3) by (simp add: firsts_upto_def st2_def)
  ultimately have hr: "ps_buffer st' = b2 \<and> ps_first st' = ps_first st2 \<and> grows st2 st' \<and> firsts_upto (r_offset r) st'
     \<and> (if ret then (\<exists>X'. run_inv env eff P0 (calls_of env pre @ map (\<lambda>(n, k). (n, k, r)) (handlers_of env r)) X' (\<lambda>_. None) st')
            \<and> ps_failed st' = ps_failed st2
          else failed_in env eff P0 (calls_of env pre) r (handlers_of env r) st')"
    using handle_record_result [OF assms(1) inv2 assms(5) _ _ h] by (simp add: st2_def)
  have fh: "first_handled env (pre @ [r]) st'"
    using hr assms(10,4) by (auto simp: first_handled_def st2_def sorted_wrt_append split: option.splits)
  have gr: "grows st st'" using hr by (simp add: grows_def st2_def)
  have "ps_failed st2 = ps_failed st" by (simp add: st2_def)
  then show ?thesis using hr fh buf gr by simp
qed

lemma dispatch_loop_result:
  assumes "app_ok (the_app env) eff" "sorted_wrt (<) (map r_offset (pre @ rs))"
    and "\<forall>x \<in> set (pre @ rs). timestamp_of env x \<noteq> None \<and> 0 \<le> r_offset x"
    and "run_inv env eff P0 (calls_of env pre) X (\<lambda>_. None) st" "\<forall>x \<in> set rs. firsts_upto (r_offset x) st"
    and "set quiet \<subseteq> set pre" "\<forall>x \<in> set pre - set quiet. buffered env (ps_buffer st) x" "first_handled env pre st"
    and "firsts_in pre st" "dispatch_loop env quiet rs st = (ret, st')"
  shows "appended_to (ps_buffer st) (ps_buffer st') \<and> grows st st'
     \<and> (if ret then loop_done env eff P0 (pre @ rs) st' \<and> ps_failed st' = ps_failed st
        else loop_failed env eff P0 (pre @ rs) st')"
  using assms(2-)
proof (induction rs arbitrary: pre quiet X st)
  case Nil
  obtain b where b: "ret" "st' = st\<lparr>ps_buffer := b\<rparr>" "appended_to (ps_buffer st) b" "\<forall>x \<in> set quiet. buffered env b x"
    using append_quiet_result [of quiet env st ret st'] Nil.prems by auto
  have "run_inv env eff P0 (calls_of env pre) X (\<lambda>_. None) st'"
    by (rule run_inv_frame [OF Nil.prems(3)]) (auto simp: b)
  moreover have "\<forall>x \<in> set pre. buffered env b x" using b Nil.prems(6) buffered_mono by blast
  ultimately show ?case using b Nil.prems(7,8) by (auto simp: loop_done_def grows_def first_handled_def firsts_in_def)
next
  case (Cons r rs)
  have split: "(pre @ [r]) @ rs = pre @ r # rs" by simp
  show ?case
  proof (cases "handlers_of env r = []")
    case True
    have "calls_of env (pre @ [r]) = calls_of env pre" using True by simp
    then have inv: "run_inv env eff P0 (calls_of env (pre @ [r])) X (\<lambda>_. None) st" using Cons.prems(3) by simp
    have d: "dispatch_loop env (quiet @ [r]) rs st = (ret, st')" using Cons.prems(9) True by simp
    have fi: "firsts_in (pre @ [r]) st" using Cons.prems(8) by (auto simp: firsts_in_def upto_page_def)
    have fh: "first_handled env (pre @ [r]) st" using Cons.prems(7) True by (auto simp: first_handled_def split: option.splits)
    have "sorted_wrt (<) (map r_offset ((pre @ [r]) @ rs))" "\<forall>x \<in> set ((pre @ [r]) @ rs). timestamp_of env x \<noteq> None \<and> 0 \<le> r_offset x"
      "\<forall>x \<in> set rs. firsts_upto (r_offset x) st" "set (quiet @ [r]) \<subseteq> set (pre @ [r])"
      "\<forall>x \<in> set (pre @ [r]) - set (quiet @ [r]). buffered env (ps_buffer st) x"
      using Cons.prems(1,2,4,5,6) by auto
    from Cons.IH [OF this(1,2) inv this(3-5) fh fi d] show ?thesis unfolding split .
  next
    case False
    obtain ret1 st1 where d1: "dispatch_one env quiet r st = (ret1, st1)" by force
    have so: "sorted_wrt (<) (map r_offset (pre @ [r]))" using Cons.prems(1) by (simp add: sorted_wrt_append)
    have pr: "firsts_upto (r_offset r) st" "0 \<le> r_offset r" "\<forall>x \<in> set (pre @ [r]). timestamp_of env x \<noteq> None"
      using Cons.prems(2,4) by auto
    note one = dispatch_one_result [OF assms(1) Cons.prems(3) pr(1) so pr(2,3) False Cons.prems(5,6,7) d1]
    show ?thesis
    proof (cases ret1)
      case False
      then have "ret = False" "st' = st1" using Cons.prems(9) d1 \<open>handlers_of env r \<noteq> []\<close> by auto
      then show ?thesis using one False by (auto simp: loop_failed_def)
    next
      case True
      then obtain X1 where X1: "run_inv env eff P0 (calls_of env (pre @ [r])) X1 (\<lambda>_. None) st1" using one by auto
      have d: "dispatch_loop env [] rs st1 = (ret, st')" using Cons.prems(9) d1 True \<open>handlers_of env r \<noteq> []\<close> by simp
      have fu: "\<forall>x \<in> set rs. firsts_upto (r_offset x) st1"
        using one Cons.prems(1) by (fastforce simp: firsts_upto_def sorted_wrt_append)
      have "\<forall>x \<in> set ((pre @ [r]) @ rs). timestamp_of env x \<noteq> None \<and> 0 \<le> r_offset x"
        "sorted_wrt (<) (map r_offset ((pre @ [r]) @ rs))"
        "set [] \<subseteq> set (pre @ [r])" "\<forall>x \<in> set (pre @ [r]) - set []. buffered env (ps_buffer st1) x"
        "first_handled env (pre @ [r]) st1" using Cons.prems(1,2) one by auto
      note facts = this
      have fi: "firsts_in (pre @ [r]) st1" using one by (auto simp: firsts_in_def upto_page_def firsts_upto_def)
      note IH = Cons.IH [OF facts(2,1) X1 fu facts(3-5) fi d]
      then show ?thesis using one True by (auto simp: split intro: appended_to_trans grows_trans split: if_splits)
    qed
  qed
qed

section \<open>The end of a page\<close>

definition fails_by :: "'m page_state \<Rightarrow> int \<Rightarrow> bool" where
  "fails_by st m \<longleftrightarrow> (\<exists>c f. (ps_failed st = Some (c, f) \<or> pg_failed (ps_run st) = Some (c, f)) \<and> r_offset f \<le> m)"

definition resumes_at :: "'m page_state \<Rightarrow> int option" where
  "resumes_at st = map_option (\<lambda>(c, f). r_offset f) (ps_failed st)"

lemma under_mono: "under (Some a) x \<Longrightarrow> a \<le> b \<Longrightarrow> under (Some b) x" by (simp add: under_def)

text \<open>The producers when the page is over: the calls that count for each, and its checkpoint.\<close>

definition producers_after :: "'m ingest_env \<Rightarrow> (string \<Rightarrow> string \<Rightarrow> record_ \<Rightarrow> 'm \<Rightarrow> 'm) \<Rightarrow> (string \<Rightarrow> 'm producer) \<Rightarrow> buffer
    \<Rightarrow> (string \<times> string \<times> record_) list \<Rightarrow> (string \<Rightarrow> (string \<times> record_) list) \<Rightarrow> 'm page_state \<Rightarrow> bool" where
  "producers_after env eff P0 b0 cs X st \<longleftrightarrow>
     (\<forall>n. checkpointed env n \<longrightarrow>
        pg_producers (ps_run st) n = apply_calls eff n (X n) (P0 n) \<and> fresh_calls (offsets (P0 n)) (X n)
        \<and> (checkpoint_of n (ps_buffer st)
              = Some (checkpoint_row (the_app env) n (the (state_version (the_app env) n)) (pg_producers (ps_run st) n))
           \<or> X n = [] \<and> checkpoint_of n (ps_buffer st) = checkpoint_of n b0))
     \<and> made_of cs X
     \<and> (\<forall>n k r. (n, k, r) \<in> set cs \<and> (X n \<noteq> [] \<or> under (resumes_at st) (r_offset r)) \<longrightarrow> call_done env P0 X st n k r)"

lemma note_late_simps [simp]:
  "ps_run (note_late st) = ps_run st" "ps_buffer (note_late st) = ps_buffer st" "ps_handled (note_late st) = ps_handled st"
  "ps_rejected (note_late st) = ps_rejected st"
  by (auto simp: note_late_def split: option.splits)

lemma note_late_resumes: "fails_by st m \<Longrightarrow> under (resumes_at (note_late st)) x \<Longrightarrow> x < m"
  by (auto simp: fails_by_def resumes_at_def note_late_def under_def split: option.splits if_splits)

lemma note_late_none: "ps_failed (note_late st) = None \<longleftrightarrow> ps_failed st = None \<and> pg_failed (ps_run st) = None"
  by (auto simp: note_late_def split: option.splits)

text \<open>What is left of \<open>run_inv\<close> when the calls are over: an abandoned page has no first records.\<close>

definition run_over :: "'m ingest_env \<Rightarrow> (string \<Rightarrow> string \<Rightarrow> record_ \<Rightarrow> 'm \<Rightarrow> 'm) \<Rightarrow> (string \<Rightarrow> 'm producer)
    \<Rightarrow> (string \<times> string \<times> record_) list \<Rightarrow> (string \<Rightarrow> (string \<times> record_) list) \<Rightarrow> (string \<Rightarrow> int option)
    \<Rightarrow> 'm page_state \<Rightarrow> bool" where
  "run_over env eff P0 cs X q st \<longleftrightarrow> page_ok_for env eff P0 X (ps_run st) \<and> gone_back env q X \<and> made_of cs X
     \<and> all_done env P0 cs X q st
     \<and> (\<forall>n k r f. (n, k, r) \<in> set cs \<and> checkpointed env n \<and> first_of (ps_run st) n = Some f \<and> r_offset r < r_offset f
          \<longrightarrow> r_offset r \<le> handled_upto (offsets (P0 n)) k)"

lemma run_inv_over: "run_inv env eff P0 cs X q st \<Longrightarrow> run_over env eff P0 cs X q st"
  unfolding run_inv_def run_over_def before_first_def by (auto simp: under_def)

lemma finish_page_result:
  assumes ok: "app_ok (the_app env) eff" and inv: "run_over env eff P0 cs X q st"
    and gone: "\<forall>n m. q n = Some m \<longrightarrow> fails_by st m" and def: "0 < deferred (ps_buffer st)"
    and b0: "\<forall>n. checkpoint_of n (ps_buffer st) = checkpoint_of n b0" and st': "st' = finish_page env st"
  shows "(\<exists>X'. producers_after env eff P0 b0 cs X' st')
     \<and> ps_handled st' = ps_handled st \<and> ps_rejected st' = ps_rejected st
     \<and> db_points (work (ps_buffer st')) = db_points (work (ps_buffer st)) \<and> deferred (ps_buffer st') = deferred (ps_buffer st)
     \<and> (ps_failed st' = None \<longleftrightarrow> ps_failed st = None \<and> pg_failed (ps_run st') = None)
     \<and> (\<forall>records. within_page records st \<longrightarrow> (\<forall>c f. ps_failed st' = Some (c, f) \<longrightarrow> upto_page records f))
     \<and> (\<forall>x. under (resumes_at st') x \<longrightarrow> under (resumes_at st) x)"
proof -
  let ?a = "the_app env" and ?es = "pg_entries (ps_run st)"
  have I: "page_ok_for env eff P0 X (ps_run st)" "gone_back env q X" "made_of cs X" "all_done env P0 cs X q st"
    "\<And>n k r f. \<lbrakk>(n, k, r) \<in> set cs; checkpointed env n; first_of (ps_run st) n = Some f; r_offset r < r_offset f\<rbrakk>
       \<Longrightarrow> r_offset r \<le> handled_upto (offsets (P0 n)) k"
    using inv unfolding run_over_def by blast+
  obtain P where P: "page_inv ?a eff P X (ps_run st)" "\<forall>n. checkpointed env n \<longrightarrow> P n = P0 n"
    using I(1) unfolding page_ok_for_def by blast
  have ents: "map_of ?es n = Some e \<longleftrightarrow> (n, e) \<in> set ?es" for n e using P(1) by (simp add: page_inv_def map_of_eq_Some_iff)
  have d: "distinct (map fst ?es)" "\<forall>ne \<in> set ?es. state_version ?a (fst ne) \<noteq> None"
    using P(1) I(1) ents unfolding page_ok_for_def checkpointed_def page_inv_def by force+
  obtain s2 b2 n2 where f: "fold (finish_one ?a) ?es (ps_run st, ps_buffer st, ps_saves st) = (s2, b2, n2)" by (metis surj_pair)
  note ff = finish_fold [OF d f]
  define st1 where "st1 = st\<lparr>ps_run := s2\<lparr>pg_entries := []\<rparr>, ps_buffer := b2, ps_saves := n2, ps_pages := ps_pages st + 1\<rparr>"
  have st'1: "st' = note_late st1" using st' f by (simp add: finish_page_def finish_def st1_def)
  define went where "went = (\<lambda>n. \<exists>e fr. map_of ?es n = Some e \<and> first e = Some fr
      \<and> \<not> (pg_producers s2 n = pg_producers (ps_run st) n \<and> checkpoint_of n b2
          = Some (checkpoint_row ?a n (the (state_version ?a n)) (pg_producers (ps_run st) n))))"
  define X' where "X' = (\<lambda>n. if went n then [] else X n)"
  have pf: "pg_failed (ps_run st) = Some (c, g) \<Longrightarrow> \<exists>c' g'. pg_failed s2 = Some (c', g') \<and> r_offset g' \<le> r_offset g" for c g
    using ff by blast
  have fb: "fails_by st m \<Longrightarrow> fails_by st1 m" for m
    using pf unfolding fails_by_def st1_def by simp (metis order_trans)
  have went: "pg_producers s2 n = P0 n \<and> checkpoint_of n b2 = checkpoint_of n (ps_buffer st)
      \<and> (\<exists>fr. first_of (ps_run st) n = Some fr \<and> fails_by st1 (r_offset fr))" if "went n" "checkpointed env n" for n
  proof -
    obtain e fr where e: "map_of ?es n = Some e" "first e = Some fr" using \<open>went n\<close> unfolding went_def by blast
    then have fin: "finished_at ?a n e (pg_producers (ps_run st) n) (checkpoint_of n (ps_buffer st)) s2 b2"
      using ff ents by fastforce
    have se: "start_state e = snapshot ?a (memory (P0 n))" "start_offsets e = offsets (P0 n)"
      using page_inv_starts_at [OF P(1)] ents e(1) P(2) that(2) by (fastforce simp: starts_at_def)+
    have "pg_producers s2 n = \<lparr>memory = restore ?a (start_state e) (memory (pg_producers (ps_run st) n)), offsets = start_offsets e\<rparr>
        \<and> checkpoint_of n b2 = checkpoint_of n (ps_buffer st) \<and> (\<exists>c g. pg_failed s2 = Some (c, g) \<and> r_offset g \<le> r_offset fr)"
      using fin e \<open>went n\<close> unfolding finished_at_def went_def by auto
    then show ?thesis using se e ok by (auto simp: app_ok_def first_of_def fails_by_def st1_def)
  qed
  have kept: "pg_producers s2 n = pg_producers (ps_run st) n \<and> (checkpoint_of n b2
        = Some (checkpoint_row ?a n (the (state_version ?a n)) (pg_producers s2 n)) \<or> X n = [] \<and> checkpoint_of n b2 = checkpoint_of n (ps_buffer st))"
    if "\<not> went n" "checkpointed env n" for n
  proof (cases "map_of ?es n")
    case None
    then have "n \<notin> fst ` set ?es" by (simp add: map_of_eq_None_iff)
    moreover have "X n = []" using P(1) None by (auto simp: page_inv_def entry_inv_def dest: spec [of _ n])
    ultimately show ?thesis using ff by auto
  next
    case (Some e)
    then have fin: "finished_at ?a n e (pg_producers (ps_run st) n) (checkpoint_of n (ps_buffer st)) s2 b2"
      using ff ents by fastforce
    show ?thesis
    proof (cases "first e")
      case None
      have "entry_inv ?a eff n (P n) (X n) (Some e) (pg_producers (ps_run st) n)" using P(1) Some unfolding page_inv_def by metis
      then have "X n = []" using None by (simp add: entry_inv_def)
      then show ?thesis using fin None by (simp add: finished_at_def)
    next
      case (Some fr)
      then show ?thesis using \<open>\<not> went n\<close> \<open>map_of ?es n = Some e\<close> unfolding went_def by auto
    qed
  qed
  have prod: "pg_producers (ps_run st) n = apply_calls eff n (X n) (P0 n) \<and> fresh_calls (offsets (P0 n)) (X n)" if "checkpointed env n" for n
    using page_inv_producer [OF P(1), of n] page_inv_fresh [OF P(1), of n] P(2) that by simp
  have cdone: "call_done env P0 X' st' n k r" if c: "(n, k, r) \<in> set cs" "X' n \<noteq> [] \<or> under (resumes_at st') (r_offset r)" for n k r
  proof -
    have same: "call_done env P0 X' st' n k r = call_done env P0 X' st n k r" by (simp add: call_done_def st'1 st1_def)
    show ?thesis
    proof (cases "went n \<and> checkpointed env n")
      case True
      then obtain fr where fr: "first_of (ps_run st) n = Some fr" "fails_by st1 (r_offset fr)" using went by blast
      have "X' n = []" using True by (simp add: X'_def)
      then have "r_offset r < r_offset fr" using c(2) note_late_resumes [OF fr(2)] by (simp add: st'1)
      then have "r_offset r \<le> handled_upto (offsets (P0 n)) k"
        using I(5) c(1) True fr(1) by blast
      then show ?thesis using True unfolding same by (simp add: call_done_def)
    next
      case False
      have "under (q n) (r_offset r)"
      proof (cases "q n")
        case (Some m)
        then have "X n = []" "fails_by st1 m" using I(2) gone fb by (auto simp: gone_back_def)
        then show ?thesis using c(2) Some note_late_resumes [of st1 m] by (auto simp: X'_def st'1 under_def split: if_splits)
      qed simp
      then have "call_done env P0 X st n k r" using I(4) c(1) unfolding all_done_def by blast
      then show ?thesis using False unfolding same by (cases "checkpointed env n") (auto simp: call_done_def X'_def)
    qed
  qed
  have "producers_after env eff P0 b0 cs X' st'"
    unfolding producers_after_def
  proof (intro conjI allI impI)
    fix n assume ck: "checkpointed env n"
    have ru: "ps_run st' = s2\<lparr>pg_entries := []\<rparr>" "ps_buffer st' = b2" by (simp_all add: st'1 st1_def)
    show "pg_producers (ps_run st') n = apply_calls eff n (X' n) (P0 n)" "fresh_calls (offsets (P0 n)) (X' n)"
      "checkpoint_of n (ps_buffer st') = Some (checkpoint_row ?a n (the (state_version ?a n)) (pg_producers (ps_run st') n))
         \<or> X' n = [] \<and> checkpoint_of n (ps_buffer st') = checkpoint_of n b0"
      using ck went [OF _ ck] kept [OF _ ck] prod [OF ck] b0 by (auto simp: X'_def ru)
  qed (use I(3) cdone in \<open>auto simp: made_of_def X'_def\<close>)
  moreover have "under (resumes_at st') x \<Longrightarrow> under (resumes_at st) x" for x
    using note_late_resumes [of st1] fb [of "the (resumes_at st)"]
    by (cases "ps_failed st") (auto simp: st'1 resumes_at_def fails_by_def under_def)
  moreover have "upto_page records g" if w: "within_page records st" and g: "ps_failed st' = Some (c, g)" for records c g
  proof -
    have "ps_failed st = Some (c, g) \<or> pg_failed s2 = Some (c, g)"
      using g by (auto simp: st'1 note_late_def st1_def split: option.splits if_splits)
    moreover have "pg_failed s2 = Some (c, g) \<Longrightarrow> pg_failed (ps_run st) = Some (c, g) \<or> (\<exists>n. first_of (ps_run st) n = Some g)"
    proof -
      assume "pg_failed s2 = Some (c, g)"
      moreover have "pg_failed s2 = pg_failed (ps_run st) \<or> (\<exists>(n, e) \<in> set ?es. \<exists>f c. first e = Some f \<and> pg_failed s2 = Some (c, f))"
        using ff by blast
      ultimately consider "pg_failed (ps_run st) = Some (c, g)" | n e where "(n, e) \<in> set ?es" "first e = Some g" by auto
      then show ?thesis
      proof cases
        case 2
        then have "map_of ?es n = Some e" using ents by blast
        with 2 have "first_of (ps_run st) n = Some g" by (simp add: first_of_def)
        then show ?thesis by blast
      qed blast
    qed
    ultimately show ?thesis using w unfolding within_page_def firsts_in_def by blast
  qed
  ultimately show ?thesis using ff by (auto simp: st'1 note_late_none) (auto simp: st1_def)
qed

lemma abandon_entries:
  "map_of (pg_entries (abandon a c r s)) n \<noteq> None \<Longrightarrow> map_of (pg_entries s) n \<noteq> None"
proof -
  have "map_of (pg_entries (fold (\<lambda>(name, e) s. to_start a name (e\<lparr>first := None\<rparr>) s) es s)) n \<noteq> None
      \<Longrightarrow> n \<in> fst ` set es \<or> map_of (pg_entries s) n \<noteq> None" for es and s :: "'a page_run"
    by (induction es arbitrary: s) (fastforce simp: to_start_def split: if_splits)+
  from this [of "pg_entries s" s] show "map_of (pg_entries (abandon a c r s)) n \<noteq> None \<Longrightarrow> ?thesis"
    by (auto simp: abandon_def Let_def map_of_eq_None_iff)
qed

lemma settle_writes_result:
  assumes ok: "app_ok (the_app env) eff" and inv: "run_inv env eff P0 cs X q st" and pf: "pg_failed (ps_run st) = None"
    and gone: "\<forall>n m. q n = Some m \<longrightarrow> fails_by st m"
    and fh: "\<forall>(n, k, r) \<in> set cs. \<exists>f. ps_first st = Some f \<and> r_offset f \<le> r_offset r"
    and st': "st' = settle_writes env records st"
  shows "(\<exists>X q. run_over env eff P0 cs X q st' \<and> (\<forall>n m. q n = Some m \<longrightarrow> fails_by st' m))
     \<and> ps_buffer st' = ps_buffer st \<and> ps_failed st' = ps_failed st \<and> ps_handled st' = ps_handled st \<and> ps_rejected st' = ps_rejected st
     \<and> (within_page records st \<longrightarrow> within_page records st')"
proof (cases "st' = st")
  case True
  then show ?thesis using run_inv_over [OF inv] gone by auto
next
  case False
  then obtain origin f where st'1: "st' = st\<lparr>ps_run := abandon (the_app env) origin f (ps_run st)\<rparr>"
      and f: "\<forall>g. ps_first st = Some g \<longrightarrow> f = g" "ps_first st = None \<longrightarrow> f \<in> set records"
    using st' by (auto simp: settle_writes_def split: option.splits list.splits)
  note I = run_invD [OF inv]
  obtain P where P: "page_inv (the_app env) eff P X (ps_run st)" "\<forall>n. checkpointed env n \<longrightarrow> P n = P0 n"
    using I(1) unfolding page_ok_for_def by blast
  have ab: "page_inv (the_app env) eff P (\<lambda>_. []) (ps_run st')" "first_of (ps_run st') = (\<lambda>_. None)"
    "\<exists>c. pg_failed (ps_run st') = Some (c, f)"
    using abandon_result [OF ok P(1), of origin f] pf by (auto simp: st'1)
  define q' where "q' = (\<lambda>n. if checkpointed env n then Some (r_offset f) else None)"
  have "all_done env P0 cs (\<lambda>_. []) q' st'"
    unfolding all_done_def
  proof (intro allI impI, elim conjE)
    fix n k r assume c: "(n, k, r) \<in> set cs" "under (q' n) (r_offset r)"
    show "call_done env P0 (\<lambda>_. []) st' n k r"
    proof (cases "checkpointed env n")
      case True
      then show ?thesis using c fh f by (fastforce simp: q'_def under_def)
    next
      case False
      then have "q n = None" using I(2) by (auto simp: gone_back_def)
      then have "call_done env P0 X st n k r" using I(4) c by (simp add: all_done_def)
      then show ?thesis using False by (simp add: call_done_def st'1)
    qed
  qed
  moreover have "page_ok_for env eff P0 (\<lambda>_. []) (ps_run st')"
    using ab(1) P(2) I(1) abandon_entries [of "the_app env" origin f "ps_run st"] unfolding page_ok_for_def st'1 by auto
  moreover have "gone_back env q' (\<lambda>_. [])" by (auto simp: gone_back_def q'_def)
  moreover have "\<forall>n m. q' n = Some m \<longrightarrow> fails_by st' m" using ab(3) by (auto simp: q'_def fails_by_def)
  ultimately have "run_over env eff P0 cs (\<lambda>_. []) q' st' \<and> (\<forall>n m. q' n = Some m \<longrightarrow> fails_by st' m)"
    using ab(2) by (auto simp: run_over_def made_of_def)
  moreover have "within_page records st \<Longrightarrow> within_page records st'"
    using ab(2,3) f by (cases "ps_first st") (auto simp: within_page_def firsts_in_def upto_page_def st'1)
  ultimately show ?thesis by (auto simp: st'1)
qed

text \<open>The calls of a page whose loop is over.\<close>

definition loop_calls :: "'m ingest_env \<Rightarrow> record_ list \<Rightarrow> (string \<times> string \<times> record_) list \<Rightarrow> 'm page_state \<Rightarrow> bool" where
  "loop_calls env records cs st \<longleftrightarrow> set cs \<subseteq> set (calls_of env records)
     \<and> (\<forall>n k r' k' r. (n, k, r') \<in> set cs \<and> r \<in> set records \<and> r_offset r < r_offset r' \<and> (n, k') \<in> set (handlers_of env r)
          \<longrightarrow> (n, k', r) \<in> set cs)
     \<and> (\<forall>n k r. (n, k, r) \<in> set (calls_of env records) \<and> under (resumes_at st) (r_offset r) \<longrightarrow> (n, k, r) \<in> set cs)"

lemma loop_done_calls:
  assumes "loop_done env eff P0 records st" "ps_failed st = None"
  shows "\<exists>cs X. run_inv env eff P0 cs X (\<lambda>_. None) st \<and> loop_calls env records cs st
     \<and> (\<forall>(n, k, r) \<in> set cs. \<exists>f. ps_first st = Some f \<and> r_offset f \<le> r_offset r)
     \<and> (\<forall>r \<in> set records. buffered env (ps_buffer st) r) \<and> (pg_failed (ps_run st) = None \<longrightarrow> within_page records st)"
proof -
  have wp: "pg_failed (ps_run st) = None \<longrightarrow> within_page records st" using assms
    by (auto simp: within_page_def loop_done_def first_handled_def upto_page_def)
  obtain X where X: "run_inv env eff P0 (calls_of env records) X (\<lambda>_. None) st" using assms unfolding loop_done_def by blast
  have "\<exists>f. ps_first st = Some f \<and> r_offset f \<le> r_offset r" if "(n, k, r) \<in> set (calls_of env records)" for n k r
  proof -
    have r: "r \<in> set records" "handlers_of env r \<noteq> []" using that by auto
    then have fh: "first_handled env records st" using assms unfolding loop_done_def by blast
    show ?thesis
    proof (cases "ps_first st")
      case None
      then show ?thesis using fh r by (simp add: first_handled_def)
    next
      case (Some f)
      then show ?thesis using fh r by (auto simp: first_handled_def not_less [symmetric])
    qed
  qed
  with X assms wp show ?thesis by (intro exI [of _ "calls_of env records"] exI [of _ X]) (auto simp: loop_calls_def loop_done_def)
qed

lemma loop_failed_calls:
  assumes "loop_failed env eff P0 records st" "sorted_wrt (<) (map r_offset records)"
  shows "\<exists>cs X q. run_inv env eff P0 cs X q st \<and> loop_calls env records cs st
     \<and> (\<forall>n m. q n = Some m \<longrightarrow> fails_by st m)
     \<and> (\<forall>(n, k, r) \<in> set cs. \<exists>f. ps_first st = Some f \<and> r_offset f \<le> r_offset r)
     \<and> (\<forall>r \<in> set records. under (resumes_at st) (r_offset r) \<longrightarrow> buffered env (ps_buffer st) r) \<and> ps_failed st \<noteq> None
     \<and> (pg_failed (ps_run st) = None \<longrightarrow> within_page records st)"
proof -
  obtain pre r post where p: "records = pre @ r # post" and fi: "failed_in env eff P0 (calls_of env pre) r (handlers_of env r) st"
    and fu: "firsts_upto (r_offset r) st"
    and fh: "first_handled env (pre @ [r]) st" and bu: "\<forall>x \<in> set pre. buffered env (ps_buffer st) x"
    using assms(1) unfolding loop_failed_def by blast
  obtain hs' X q c f where hs: "set hs' \<subseteq> set (handlers_of env r)"
    and inv: "run_inv env eff P0 (calls_of env pre @ map (\<lambda>(n, k). (n, k, r)) hs') X q st"
    and f: "ps_failed st = Some (c, f)" "r_offset f \<le> r_offset r" "\<forall>n m. q n = Some m \<longrightarrow> r_offset f \<le> m"
    using fi unfolding failed_in_def by blast
  let ?cs = "calls_of env pre @ map (\<lambda>(n, k). (n, k, r)) hs'"
  have early: "x \<in> set pre" if "x \<in> set records" "r_offset x < r_offset r" for x
    using that assms(2) p by (fastforce simp: sorted_wrt_append)
  have cs: "(n, k, x) \<in> set ?cs \<Longrightarrow> x \<in> set (pre @ [r]) \<and> (n, k) \<in> set (handlers_of env x)" for n k x using hs by auto
  have le: "x \<in> set (pre @ [r]) \<Longrightarrow> r_offset x \<le> r_offset r" for x using assms(2) p by (fastforce simp: sorted_wrt_append)
  have fst: "\<exists>g. ps_first st = Some g \<and> r_offset g \<le> r_offset x" if "(n, k, x) \<in> set ?cs" for n k x
  proof (cases "ps_first st")
    case None
    then show ?thesis using fh cs [OF that] by (auto simp: first_handled_def)
  next
    case (Some g)
    then show ?thesis using fh cs [OF that] by (auto simp: first_handled_def not_less [symmetric])
  qed
  have lc: "loop_calls env records ?cs st"
    unfolding loop_calls_def
  proof (intro conjI allI impI)
    show "set ?cs \<subseteq> set (calls_of env records)" using hs p by (auto simp: calls_of_def)
  next
    fix n k r' k' x assume a: "(n, k, r') \<in> set ?cs \<and> x \<in> set records \<and> r_offset x < r_offset r' \<and> (n, k') \<in> set (handlers_of env x)"
    then have "r_offset x < r_offset r" using le cs by (meson less_le_trans)
    then show "(n, k', x) \<in> set ?cs" using early a by simp
  next
    fix n k x assume a: "(n, k, x) \<in> set (calls_of env records) \<and> under (resumes_at st) (r_offset x)"
    then have "r_offset x < r_offset r" using f by (simp add: resumes_at_def under_def)
    then show "(n, k, x) \<in> set ?cs" using early a by simp
  qed
  have "\<forall>x \<in> set records. under (resumes_at st) (r_offset x) \<longrightarrow> buffered env (ps_buffer st) x"
    using bu early f by (auto simp: resumes_at_def under_def)
  moreover have "\<forall>n m. q n = Some m \<longrightarrow> fails_by st m" using f by (auto simp: fails_by_def)
  moreover have "pg_failed (ps_run st) = None \<longrightarrow> within_page records st"
    using fu f fh p by (auto simp: within_page_def firsts_in_def firsts_upto_def upto_page_def first_handled_def)
  ultimately show ?thesis using inv lc fst f(1) by (intro exI [of _ ?cs] exI [of _ X] exI [of _ q]) blast
qed

text \<open>What a page leaves, whether its loop returned or failed. \<open>records\<close> are all its records.\<close>

definition page_over :: "'m ingest_env \<Rightarrow> (string \<Rightarrow> string \<Rightarrow> record_ \<Rightarrow> 'm \<Rightarrow> 'm) \<Rightarrow> 'm page_state \<Rightarrow> record_ list
    \<Rightarrow> 'm page_state \<Rightarrow> bool" where
  "page_over env eff st0 records st \<longleftrightarrow>
     (\<exists>cs X. producers_after env eff (pg_producers (ps_run st0)) (ps_buffer st0) cs X st \<and> loop_calls env records cs st)
     \<and> (\<forall>r \<in> set records. under (resumes_at st) (r_offset r) \<longrightarrow> buffered env (ps_buffer st) r)
     \<and> set (ps_handled st0) \<subseteq> set (ps_handled st) \<and> set (ps_rejected st0) \<subseteq> set (ps_rejected st)
     \<and> dom (map_of (db_points (work (ps_buffer st0)))) \<subseteq> dom (map_of (db_points (work (ps_buffer st))))
     \<and> deferred (ps_buffer st) = deferred (ps_buffer st0)
     \<and> (\<forall>c f. ps_failed st = Some (c, f) \<longrightarrow> upto_page records f)"

lemma finish_page_failed: "ps_failed st \<noteq> None \<Longrightarrow> ps_failed (note_late st) \<noteq> None"
  by (auto simp: note_late_def split: option.splits)

lemma dispatch_page_result:
  assumes ok: "app_ok (the_app env) eff" and so: "sorted_wrt (<) (map r_offset records)"
    and rs: "\<forall>x \<in> set records. timestamp_of env x \<noteq> None \<and> 0 \<le> r_offset x"
    and st: "ps_run st = new_page (pg_producers (ps_run st)) n0" "ps_failed st = None" "ps_first st = None" "0 < deferred (ps_buffer st)"
    and h: "dispatch_page env records st = (ret, st')"
  shows "page_over env eff st records st' \<and> (ret \<longleftrightarrow> ps_failed st' = None)"
proof -
  let ?P0 = "pg_producers (ps_run st)"
  obtain ret1 st1 where l: "dispatch_loop env [] records st = (ret1, st1)" by force
  define st2 where "st2 = settle_writes env records st1"
  have fin: "st' = finish_page env st2" "ret = (ret1 \<and> pg_failed (ps_run st') = None)"
    using h l by (auto simp: dispatch_page_def Let_def st2_def)
  have fo: "first_of (ps_run st) = (\<lambda>_. None)" using st(1) by (metis (mono_tags, lifting) bind_eq_None_conv ext first_of_def map_of.simps(1) new_page_def page_run.select_convs(2))
  have inv0: "run_inv env eff ?P0 (calls_of env []) (\<lambda>_. []) (\<lambda>_. None) st"
    using page_inv_new [of "the_app env" eff ?P0 n0] st(1)
    by (auto simp: run_inv_def page_ok_for_def gone_back_def made_of_def all_done_def before_first_def) (metis new_page_def option.distinct(1) map_of.simps(1) page_run.select_convs(2))+
  have fu0: "\<forall>x \<in> set records. firsts_upto (r_offset x) st" by (simp add: firsts_upto_def fo)
  have fh0: "first_handled env [] st" using st(3) by (simp add: first_handled_def)
  have pre: "sorted_wrt (<) (map r_offset ([] @ records))" "\<forall>x \<in> set ([] @ records). timestamp_of env x \<noteq> None \<and> 0 \<le> r_offset x"
    "set [] \<subseteq> set []" "\<forall>x \<in> set [] - set []. buffered env (ps_buffer st) x" using so rs by auto
  have fi0: "firsts_in [] st" by (simp add: firsts_in_def fo)
  note loop = dispatch_loop_result [OF ok pre(1,2) inv0 fu0 pre(3,4) fh0 fi0 l]
  have a1: "appended_to (ps_buffer st) (ps_buffer st1)" "grows st st1" using loop by auto
  obtain cs X q where cs: "run_inv env eff ?P0 cs X q st1" "loop_calls env records cs st1"
    "\<forall>n m. q n = Some m \<longrightarrow> fails_by st1 m"
    "\<forall>(n, k, r) \<in> set cs. \<exists>f. ps_first st1 = Some f \<and> r_offset f \<le> r_offset r"
    "\<forall>r \<in> set records. under (resumes_at st1) (r_offset r) \<longrightarrow> buffered env (ps_buffer st1) r" "ret1 \<longleftrightarrow> ps_failed st1 = None"
    "pg_failed (ps_run st1) = None \<longrightarrow> within_page records st1"
  proof (cases ret1)
    case True
    then have "loop_done env eff ?P0 records st1" "ps_failed st1 = None" using loop st(2) by auto
    from loop_done_calls [OF this] that True this(2) show ?thesis by fastforce
  next
    case False
    then have "loop_failed env eff ?P0 records st1" using loop by auto
    from loop_failed_calls [OF this so] that False show ?thesis by fastforce
  qed
  have pf: "pg_failed (ps_run st1) = None" using a1(2) st(1) by (metis grows_def new_page_def page_run.select_convs(3))
  from settle_writes_result [OF ok cs(1) pf cs(3,4) st2_def]
  obtain X2 q2 where s2: "run_over env eff ?P0 cs X2 q2 st2" "\<forall>n m. q2 n = Some m \<longrightarrow> fails_by st2 m"
    "ps_buffer st2 = ps_buffer st1" "ps_failed st2 = ps_failed st1" "ps_handled st2 = ps_handled st1" "ps_rejected st2 = ps_rejected st1"
    "within_page records st2" using cs(7) pf by blast
  have "0 < deferred (ps_buffer st2)" "\<forall>n. checkpoint_of n (ps_buffer st2) = checkpoint_of n (ps_buffer st)"
    using a1(1) st(4) s2(3) by (auto simp: appended_to_def)
  note fp = finish_page_result [OF ok s2(1,2) this fin(1)]
  have un: "under (resumes_at st') x \<Longrightarrow> under (resumes_at st1) x" for x using fp s2(4) by (auto simp: resumes_at_def)
  have "loop_calls env records cs st'" using cs(2) un unfolding loop_calls_def by blast
  moreover have "\<forall>r \<in> set records. under (resumes_at st') (r_offset r) \<longrightarrow> buffered env (ps_buffer st') r"
    using cs(5) un fp s2(3) by (auto simp: buffered_def)
  moreover have "\<forall>c f. ps_failed st' = Some (c, f) \<longrightarrow> upto_page records f" using fp s2(7) by blast
  ultimately show ?thesis using fp s2(3-6) cs(6) a1 fin(2) unfolding page_over_def by (auto simp: grows_def appended_to_def)
qed

end
