(* ===== verification/Chaski_Ingest_Lives.thy ===== *)
theory Chaski_Ingest_Lives
  imports Chaski_Exactly_Once
begin

text \<open>
  The ingest loop over rounds, background acks, failed fetches and crashes: what \<open>Chaski_Exactly_Once\<close>
  shows of one page, carried along any history of the loop of \<open>Chaski_Ingest\<close>.
\<close>

section \<open>What the node promises\<close>

text \<open>\<open>lg\<close> is every record the filter selects, in stream order. A page read from \<open>p\<close> holds those from \<open>p\<close> up to
  its \<open>next\<close>, but for those in the gap it reports, which reaches down to its \<open>next\<close> at least.\<close>

definition in_gap :: "gap \<Rightarrow> record_ \<Rightarrow> bool" where
  "in_gap g r \<longleftrightarrow> g_from g \<le> r_offset r \<and> r_offset r \<le> g_to g"

definition ingest_page_ok :: "record_ list \<Rightarrow> int \<Rightarrow> page \<Rightarrow> bool" where
  "ingest_page_ok lg p pg \<longleftrightarrow>
     p \<le> p_next pg \<and> (p_start pg = None \<or> p_start pg = Some p)
     \<and> p_records pg = filter (\<lambda>r. p \<le> r_offset r \<and> r_offset r < p_next pg \<and> \<not> (\<exists>g. p_gap pg = Some g \<and> in_gap g r)) lg
     \<and> (\<forall>g. p_gap pg = Some g \<longrightarrow> g_from g \<le> p_next pg)"

definition ingest_node_ok :: "record_ list \<Rightarrow> world \<Rightarrow> bool" where
  "ingest_node_ok lg w \<longleftrightarrow> (\<forall>n p. ingest_page_ok lg p (fetch w n p))"

section \<open>The invariant\<close>

definition lost_in :: "gap list \<Rightarrow> record_ \<Rightarrow> bool" where
  "lost_in gs r \<longleftrightarrow> (\<exists>g \<in> set gs. in_gap g r)"

text \<open>A record is dealt with by a handler: it rejected it, or it is counted in the producer's handled offsets, or
  it came back from it.\<close>

definition dealt_with :: "'m ingest_env \<Rightarrow> 'm page_state \<Rightarrow> string \<Rightarrow> string \<Rightarrow> record_ \<Rightarrow> bool" where
  "dealt_with env st n k r \<longleftrightarrow> (n, k, r) \<in> set (ps_rejected st)
     \<or> (if checkpointed env n then r_offset r \<le> handled_upto (offsets (pg_producers (ps_run st) n)) k
        else (n, k, r) \<in> set (ps_handled st))"

definition passed_ok :: "'m ingest_env \<Rightarrow> record_ list \<Rightarrow> int \<Rightarrow> gap list \<Rightarrow> 'm page_state \<Rightarrow> int \<Rightarrow> bool" where
  "passed_ok env lg p0 gs st x \<longleftrightarrow>
     (\<forall>r \<in> set lg. p0 \<le> r_offset r \<and> r_offset r < x \<longrightarrow>
        lost_in gs r \<or> buffered env (ps_buffer st) r \<and> (\<forall>(n, k) \<in> set (handlers_of env r). dealt_with env st n k r))"

text \<open>\<open>L n\<close>: the calls a checkpointed producer's state holds, over all its lives.\<close>

definition counts_ok :: "'m ingest_env \<Rightarrow> (string \<Rightarrow> string \<Rightarrow> record_ \<Rightarrow> 'm \<Rightarrow> 'm) \<Rightarrow> (string \<Rightarrow> 'm) \<Rightarrow> record_ list
    \<Rightarrow> int \<Rightarrow> gap list \<Rightarrow> (string \<Rightarrow> (string \<times> record_) list) \<Rightarrow> 'm page_state \<Rightarrow> bool" where
  "counts_ok env eff init lg p0 gs L st \<longleftrightarrow>
     (\<forall>n. checkpointed env n \<longrightarrow>
        pg_producers (ps_run st) n = apply_calls eff n (L n) \<lparr>memory = init n, offsets = []\<rparr>
        \<and> fresh_calls [] (L n)
        \<and> (checkpoint_of n (ps_buffer st)
              = Some (checkpoint_row (the_app env) n (the (state_version (the_app env) n)) (pg_producers (ps_run st) n))
           \<or> L n = [] \<and> checkpoint_of n (ps_buffer st) = None)
        \<and> (\<forall>(k, r) \<in> set (L n). r \<in> set lg \<and> (n, k) \<in> set (handlers_of env r))
        \<and> (\<forall>r \<in> set lg. \<forall>k. (n, k) \<in> set (handlers_of env r) \<and> p0 \<le> r_offset r
             \<and> r_offset r \<le> handled_upto (offsets (pg_producers (ps_run st) n)) k
             \<longrightarrow> (k, r) \<in> set (L n) \<or> (n, k, r) \<in> set (ps_rejected st) \<or> lost_in gs r))"

section \<open>Lemmas on counted calls\<close>

lemma handled_upto_mono:
  "fresh_calls (offsets p) xs \<Longrightarrow> handled_upto (offsets p) k \<le> handled_upto (offsets (apply_calls eff n xs p)) k"
proof (induction xs arbitrary: p)
  case (Cons x xs)
  obtain key r where x: "x = (key, r)" by force
  let ?p = "\<lparr>memory = eff n key r (memory p), offsets = AList.update key (r_offset r) (offsets p)\<rparr>"
  have "handled_upto (offsets ?p) k \<le> handled_upto (offsets (apply_calls eff n xs ?p)) k"
    using Cons x by (intro Cons.IH) auto
  then show ?case using Cons.prems x by (auto split: if_splits)
qed simp

lemma counted_upto:
  "\<lbrakk>fresh_calls (offsets p) xs; (k, r) \<in> set xs\<rbrakk> \<Longrightarrow> r_offset r \<le> handled_upto (offsets (apply_calls eff n xs p)) k"
proof (induction xs arbitrary: p)
  case (Cons x xs)
  obtain key r' where x: "x = (key, r')" by force
  let ?p = "\<lparr>memory = eff n key r' (memory p), offsets = AList.update key (r_offset r') (offsets p)\<rparr>"
  have f: "fresh_calls (offsets ?p) xs" using Cons.prems x by simp
  show ?case
  proof (cases "(k, r) \<in> set xs")
    case True
    then show ?thesis using Cons.IH [OF f True] x by simp
  next
    case False
    then have "handled_upto (offsets ?p) k = r_offset r" using Cons.prems x by auto
    then show ?thesis using handled_upto_mono [OF f, of k eff n] x by simp
  qed
qed simp

lemma counted_last:
  assumes "handled_upto (offsets p) k < m" "m \<le> handled_upto (offsets (apply_calls eff n xs p)) k"
  shows "\<exists>r. (k, r) \<in> set xs \<and> m \<le> r_offset r"
proof (cases "filter (\<lambda>c. fst c = k) xs")
  case Nil
  then show ?thesis using assms by (simp add: offsets_apply_calls)
next
  case (Cons c cs)
  have l: "last (filter (\<lambda>c. fst c = k) xs) \<in> set (filter (\<lambda>c. fst c = k) xs)" using Cons by (intro last_in_set) simp
  obtain k' r where kr: "last (filter (\<lambda>c. fst c = k) xs) = (k', r)" by force
  then have "(k, r) \<in> set xs" using l by auto
  moreover have "m \<le> r_offset r" using assms(2) kr Cons by (simp add: offsets_apply_calls)
  ultimately show ?thesis by blast
qed

lemma sorted_offsets_eq:
  "\<lbrakk>sorted_wrt (<) (map r_offset lg); x \<in> set lg; y \<in> set lg; r_offset x = r_offset y\<rbrakk> \<Longrightarrow> x = y"
  by (induction lg) auto

section \<open>One page\<close>

lemma call_done_buffer [simp]: "call_done env P0 X (st\<lparr>ps_buffer := b\<rparr>) n k r = call_done env P0 X st n k r"
  by (simp add: call_done_def)

lemma process_records_result:
  assumes env: "env_ok env eff lg" and recs: "set records \<subseteq> set lg" "sorted_wrt (<) (map r_offset records)"
    and d: "deferred (ps_buffer st0) = 0" and h: "process_records env records st0 = (ret, st')"
  shows "page_over env eff st0 records st' \<and> (ret \<longleftrightarrow> ps_failed st' = None) \<and> disk (ps_buffer st') = work (ps_buffer st')"
proof -
  let ?st = "st0\<lparr>ps_failed := None, ps_first := None, ps_buffer := enter_one_commit (ps_buffer st0),
            ps_run := new_page (pg_producers (ps_run st0)) (pg_calls (ps_run st0))\<rparr>"
  have env': "app_ok (the_app env) eff" "\<forall>x \<in> set records. timestamp_of env x \<noteq> None \<and> 0 \<le> r_offset x"
    using env recs(1) by (auto simp: env_ok_def)
  obtain st1 where st1: "st' = st1\<lparr>ps_buffer := leave_one_commit (ps_buffer st1)\<rparr>"
      "(ret, st1) = (if \<exists>r \<in> set records. handlers_of env r \<noteq> [] then dispatch_page env records ?st
                     else append_quiet env records ?st)"
    using h by (auto simp: process_records_def Let_def split: prod.splits if_splits)
  have p: "page_over env eff ?st records st1 \<and> (ret \<longleftrightarrow> ps_failed st1 = None)"
  proof (cases "\<exists>r \<in> set records. handlers_of env r \<noteq> []")
    case True
    then have "dispatch_page env records ?st = (ret, st1)" using st1(2) by simp
    from dispatch_page_result [OF env'(1) recs(2) env'(2) _ _ _ _ this] show ?thesis
      by (simp add: new_page_def enter_one_commit_def)
  next
    case False
    then have "append_quiet env records ?st = (ret, st1)" using st1(2) by simp
    from append_quiet_result [OF _ this] env'(2) obtain b where b: "ret" "st1 = ?st\<lparr>ps_buffer := b\<rparr>"
      "appended_to (ps_buffer ?st) b" "\<forall>r \<in> set records. buffered env b r" by blast
    have "producers_after env eff (pg_producers (ps_run ?st)) (ps_buffer ?st) [] (\<lambda>_. []) st1"
      using b(3) by (auto simp: producers_after_def made_of_def b(2) new_page_def appended_to_def)
    moreover have "loop_calls env records [] st1" using False by (auto simp: loop_calls_def)
    ultimately have "page_over env eff ?st records st1" using b unfolding page_over_def by (auto simp: appended_to_def)
    then show ?thesis using b by simp
  qed
  then have df: "deferred (ps_buffer st1) = 1" using d by (simp add: page_over_def enter_one_commit_def)
  have "checkpoint_of n (enter_one_commit b) = checkpoint_of n b" "work (enter_one_commit b) = work b" for n b
    by (simp_all add: enter_one_commit_def checkpoint_of_def)
  moreover have "work (leave_one_commit (ps_buffer st1)) = work (ps_buffer st1)" "disk (leave_one_commit (ps_buffer st1)) = work (ps_buffer st1)"
      "checkpoint_of n (leave_one_commit (ps_buffer st1)) = checkpoint_of n (ps_buffer st1)"
      "deferred (leave_one_commit (ps_buffer st1)) = 0" for n
    using df by (simp_all add: leave_one_commit_def settle_def commit_def checkpoint_of_def)
  ultimately show ?thesis using p d
    by (simp add: page_over_def producers_after_def st1(1) loop_calls_def resumes_at_def buffered_def new_page_def)
qed

lemma buffered_mono_dom:
  "\<lbrakk>buffered env b r; dom (map_of (db_points (work b))) \<subseteq> dom (map_of (db_points (work b')))\<rbrakk> \<Longrightarrow> buffered env b' r"
  unfolding buffered_def by blast

text \<open>What a page read from \<open>pos\<close> does to the history: its records are dealt with up to where it resumes.\<close>

lemma page_over_result:
  assumes env: "env_ok env eff lg"
    and cnt: "counts_ok env eff init lg p0 gs L st0" and pos: "passed_ok env lg p0 gs st0 pos"
    and recs: "set records = {r \<in> set lg. pos \<le> r_offset r \<and> r_offset r < nxt \<and> \<not> pruned r}"
    and lost: "\<forall>r. pruned r \<longrightarrow> lost_in gs r"
    and over: "page_over env eff st0 records st"
  shows "(\<exists>L. counts_ok env eff init lg p0 gs L st) \<and> (\<forall>x. passed_ok env lg p0 gs st0 x \<longrightarrow> passed_ok env lg p0 gs st x)
     \<and> (ps_failed st = None \<longrightarrow> passed_ok env lg p0 gs st nxt)
     \<and> (\<forall>c f. ps_failed st = Some (c, f) \<longrightarrow> passed_ok env lg p0 gs st (r_offset f))"
proof -
  let ?Q = "pg_producers (ps_run st0)" and ?R = "pg_producers (ps_run st)"
  obtain cs X where pa: "producers_after env eff ?Q (ps_buffer st0) cs X st" and lc: "loop_calls env records cs st"
    and bu: "\<forall>r \<in> set records. under (resumes_at st) (r_offset r) \<longrightarrow> buffered env (ps_buffer st) r"
    and gr: "set (ps_handled st0) \<subseteq> set (ps_handled st)" "set (ps_rejected st0) \<subseteq> set (ps_rejected st)"
      "dom (map_of (db_points (work (ps_buffer st0)))) \<subseteq> dom (map_of (db_points (work (ps_buffer st))))"
    and up: "\<forall>c f. ps_failed st = Some (c, f) \<longrightarrow> upto_page records f"
    using over unfolding page_over_def by blast
  have prod: "?R n = apply_calls eff n (X n) (?Q n)" "fresh_calls (offsets (?Q n)) (X n)" if "checkpointed env n" for n
    using pa that unfolding producers_after_def by blast+
  have mono: "dealt_with env st n k r" if "dealt_with env st0 n k r" for n k r
  proof (cases "checkpointed env n")
    case True
    then have "handled_upto (offsets (?Q n)) k \<le> handled_upto (offsets (?R n)) k"
      using handled_upto_mono [OF prod(2) [OF True], of k eff] prod(1) [OF True] by simp
    then show ?thesis using that gr(2) True by (auto simp: dealt_with_def)
  next
    case False
    then show ?thesis using that gr(1,2) by (auto simp: dealt_with_def)
  qed
  have keep: "passed_ok env lg p0 gs st x" if "passed_ok env lg p0 gs st0 x" for x
    using that mono buffered_mono_dom [OF _ gr(3)] unfolding passed_ok_def by blast
  have dlt: "dealt_with env st n k r" if "(n, k, r) \<in> set cs" "X n \<noteq> [] \<or> under (resumes_at st) (r_offset r)" for n k r
  proof -
    have "call_done env ?Q X st n k r" using pa that unfolding producers_after_def by blast
    then show ?thesis
    proof (cases "checkpointed env n")
      case True
      have "r_offset r \<le> handled_upto (offsets (?Q n)) k \<or> (k, r) \<in> set (X n) \<Longrightarrow> r_offset r \<le> handled_upto (offsets (?R n)) k"
        using order_trans [OF _ handled_upto_mono [OF prod(2) [OF True], of k eff n]] counted_upto [OF prod(2) [OF True], of k r eff n]
          prod(1) [OF True] by auto
      then show ?thesis using \<open>call_done env ?Q X st n k r\<close> True by (auto simp: call_done_def dealt_with_def)
    next
      case False
      then show ?thesis using \<open>call_done env ?Q X st n k r\<close> by (simp add: call_done_def dealt_with_def)
    qed
  qed
  have upto: "passed_ok env lg p0 gs st x"
    if x: "\<forall>r \<in> set records. r_offset r < x \<longrightarrow> under (resumes_at st) (r_offset r)" "x \<le> nxt" for x
    unfolding passed_ok_def
  proof (intro ballI impI)
    fix r assume r: "r \<in> set lg" "p0 \<le> r_offset r \<and> r_offset r < x"
    show "lost_in gs r \<or> buffered env (ps_buffer st) r \<and> (\<forall>(n, k) \<in> set (handlers_of env r). dealt_with env st n k r)"
    proof (cases "r_offset r < pos \<or> pruned r")
      case True
      then show ?thesis using keep [OF pos] lost r unfolding passed_ok_def by auto
    next
      case False
      then have rr: "r \<in> set records" "under (resumes_at st) (r_offset r)" using recs r x by auto
      then have "(n, k, r) \<in> set cs" if "(n, k) \<in> set (handlers_of env r)" for n k
        using lc that unfolding loop_calls_def by simp
      then show ?thesis using dlt rr bu by blast
    qed
  qed
  have cnt': "counts_ok env eff init lg p0 gs (\<lambda>n. L n @ X n) st"
    unfolding counts_ok_def
  proof (intro allI impI)
    fix n assume ck: "checkpointed env n"
    let ?init = "\<lparr>memory = init n, offsets = []\<rparr>"
    have c: "?Q n = apply_calls eff n (L n) ?init" "fresh_calls [] (L n)"
      "checkpoint_of n (ps_buffer st0) = Some (checkpoint_row (the_app env) n (the (state_version (the_app env) n)) (?Q n))
         \<or> L n = [] \<and> checkpoint_of n (ps_buffer st0) = None"
      "\<And>k r. (k, r) \<in> set (L n) \<Longrightarrow> r \<in> set lg \<and> (n, k) \<in> set (handlers_of env r)"
      "\<And>k r. \<lbrakk>r \<in> set lg; (n, k) \<in> set (handlers_of env r); p0 \<le> r_offset r; r_offset r \<le> handled_upto (offsets (?Q n)) k\<rbrakk>
         \<Longrightarrow> (k, r) \<in> set (L n) \<or> (n, k, r) \<in> set (ps_rejected st0) \<or> lost_in gs r"
      using cnt ck unfolding counts_ok_def by fast+
    have "?R n = apply_calls eff n (L n @ X n) ?init" using prod(1) [OF ck] c(1) by (simp add: apply_calls_append)
    moreover have "fresh_calls [] (L n @ X n)"
      using fresh_calls_append [of ?init "L n" "X n" eff n] c(1,2) prod(2) [OF ck] by simp
    moreover have "checkpoint_of n (ps_buffer st) = Some (checkpoint_row (the_app env) n (the (state_version (the_app env) n)) (?R n))
         \<or> L n @ X n = [] \<and> checkpoint_of n (ps_buffer st) = None"
    proof -
      have "checkpoint_of n (ps_buffer st) = Some (checkpoint_row (the_app env) n (the (state_version (the_app env) n)) (?R n))
         \<or> X n = [] \<and> checkpoint_of n (ps_buffer st) = checkpoint_of n (ps_buffer st0)"
        using pa ck unfolding producers_after_def by blast
      then show ?thesis using c(3) prod(1) [OF ck] by auto
    qed
    moreover have "\<forall>(k, r) \<in> set (L n @ X n). r \<in> set lg \<and> (n, k) \<in> set (handlers_of env r)"
    proof -
      have "r \<in> set lg \<and> (n, k) \<in> set (handlers_of env r)" if "(k, r) \<in> set (X n)" for k r
      proof -
        have "(n, k, r) \<in> set cs" using pa that unfolding producers_after_def made_of_def by blast
        then show ?thesis using lc recs by (auto simp: loop_calls_def)
      qed
      then show ?thesis using c(4) by auto
    qed
    moreover have "(k, r) \<in> set (L n @ X n) \<or> (n, k, r) \<in> set (ps_rejected st) \<or> lost_in gs r"
      if r: "r \<in> set lg" "(n, k) \<in> set (handlers_of env r)" "p0 \<le> r_offset r" "r_offset r \<le> handled_upto (offsets (?R n)) k" for k r
    proof (cases "r_offset r \<le> handled_upto (offsets (?Q n)) k")
      case True
      then show ?thesis using c(5) r gr(2) by auto
    next
      case False
      then obtain r' where r': "(k, r') \<in> set (X n)" "r_offset r \<le> r_offset r'"
        using counted_last [of "?Q n" k "r_offset r" eff n "X n"] r(4) prod(1) [OF ck] by auto
      then have cr': "(n, k, r') \<in> set cs" using pa unfolding producers_after_def made_of_def by blast
      then have "r' \<in> set records" using lc by (auto simp: loop_calls_def)
      show ?thesis
      proof (cases "r_offset r < pos \<or> pruned r")
        case True
        then show ?thesis
        proof
          assume "r_offset r < pos"
          then have "lost_in gs r \<or> dealt_with env st0 n k r" using pos r unfolding passed_ok_def by fast
          then show ?thesis using False ck gr(2) by (auto simp: dealt_with_def)
        qed (use lost in blast)
      next
        case False2: False
        then have rr: "r \<in> set records" using recs r r'(2) \<open>r' \<in> set records\<close> by auto
        have "(n, k, r) \<in> set cs"
        proof (cases "r_offset r = r_offset r'")
          case True
          then have "r = r'" using sorted_offsets_eq [of lg r r'] env r(1) \<open>r' \<in> set records\<close> recs by (auto simp: env_ok_def)
          then show ?thesis using cr' by simp
        next
          case False
          then show ?thesis using lc cr' rr r(2) r'(2) unfolding loop_calls_def by (metis order.not_eq_order_implies_strict)
        qed
        moreover have "X n \<noteq> []" using r'(1) by auto
        ultimately have "call_done env ?Q X st n k r" using pa unfolding producers_after_def by blast
        then show ?thesis using ck False by (auto simp: call_done_def)
      qed
    qed
    ultimately show "pg_producers (ps_run st) n = apply_calls eff n (L n @ X n) ?init \<and> fresh_calls [] (L n @ X n)
        \<and> (checkpoint_of n (ps_buffer st) = Some (checkpoint_row (the_app env) n (the (state_version (the_app env) n)) (?R n))
           \<or> L n @ X n = [] \<and> checkpoint_of n (ps_buffer st) = None)
        \<and> (\<forall>(k, r) \<in> set (L n @ X n). r \<in> set lg \<and> (n, k) \<in> set (handlers_of env r))
        \<and> (\<forall>r \<in> set lg. \<forall>k. (n, k) \<in> set (handlers_of env r) \<and> p0 \<le> r_offset r \<and> r_offset r \<le> handled_upto (offsets (?R n)) k
             \<longrightarrow> (k, r) \<in> set (L n @ X n) \<or> (n, k, r) \<in> set (ps_rejected st) \<or> lost_in gs r)" by blast
  qed
  have "ps_failed st = None \<Longrightarrow> passed_ok env lg p0 gs st nxt" by (intro upto) (auto simp: resumes_at_def)
  moreover have "passed_ok env lg p0 gs st (r_offset f)" if "ps_failed st = Some (c, f)" for c f
  proof (rule upto)
    show "r_offset f \<le> nxt" using up that recs by (fastforce simp: upto_page_def)
  qed (use that in \<open>auto simp: resumes_at_def under_def\<close>)
  ultimately show ?thesis using cnt' keep by blast
qed

section \<open>The loop\<close>

lemma passed_ok_mono:
  assumes "passed_ok env lg p0 gs st x" "set gs \<subseteq> set gs'" "ps_buffer st' = ps_buffer st"
    "\<forall>n. checkpointed env n \<longrightarrow> pg_producers (ps_run st') n = pg_producers (ps_run st) n"
    "set (ps_handled st) \<subseteq> set (ps_handled st')" "set (ps_rejected st) \<subseteq> set (ps_rejected st')"
  shows "passed_ok env lg p0 gs' st' x"
proof -
  have "dealt_with env st n k r \<Longrightarrow> dealt_with env st' n k r" for n k r
    using assms(4-6) by (cases "checkpointed env n") (auto simp: dealt_with_def)
  moreover have "lost_in gs r \<Longrightarrow> lost_in gs' r" for r using assms(2) by (auto simp: lost_in_def)
  ultimately show ?thesis using assms(1,3) unfolding passed_ok_def by fastforce
qed

lemma counts_ok_mono:
  assumes "counts_ok env eff init lg p0 gs L st" "set gs \<subseteq> set gs'" "ps_buffer st' = ps_buffer st"
    "\<forall>n. checkpointed env n \<longrightarrow> pg_producers (ps_run st') n = pg_producers (ps_run st) n"
    "set (ps_rejected st) \<subseteq> set (ps_rejected st')"
  shows "counts_ok env eff init lg p0 gs' L st'"
proof -
  have lost: "lost_in gs r \<Longrightarrow> lost_in gs' r" for r using assms(2) by (auto simp: lost_in_def)
  show ?thesis
    unfolding counts_ok_def
  proof (intro allI impI)
    fix n assume ck: "checkpointed env n"
    have same: "pg_producers (ps_run st') n = pg_producers (ps_run st) n" using assms(4) ck by blast
    from assms(1) [unfolded counts_ok_def, rule_format, OF ck]
    show "pg_producers (ps_run st') n = apply_calls eff n (L n) \<lparr>memory = init n, offsets = []\<rparr>
        \<and> fresh_calls [] (L n)
        \<and> (checkpoint_of n (ps_buffer st')
              = Some (checkpoint_row (the_app env) n (the (state_version (the_app env) n)) (pg_producers (ps_run st') n))
           \<or> L n = [] \<and> checkpoint_of n (ps_buffer st') = None)
        \<and> (\<forall>(k, r) \<in> set (L n). r \<in> set lg \<and> (n, k) \<in> set (handlers_of env r))
        \<and> (\<forall>r \<in> set lg. \<forall>k. (n, k) \<in> set (handlers_of env r) \<and> p0 \<le> r_offset r
             \<and> r_offset r \<le> handled_upto (offsets (pg_producers (ps_run st') n)) k
             \<longrightarrow> (k, r) \<in> set (L n) \<or> (n, k, r) \<in> set (ps_rejected st') \<or> lost_in gs' r)"
      unfolding same assms(3) using assms(5) lost by blast
  qed
qed

lemma passed_ok_le: "passed_ok env lg p0 gs st x \<Longrightarrow> y \<le> x \<Longrightarrow> passed_ok env lg p0 gs st y"
  by (auto simp: passed_ok_def)

lemma passed_ok_max: "passed_ok env lg p0 gs st x \<Longrightarrow> passed_ok env lg p0 gs st y \<Longrightarrow> passed_ok env lg p0 gs st (max x y)"
  by (simp add: max_def)

definition loop_inv :: "'m ingest_env \<Rightarrow> (string \<Rightarrow> string \<Rightarrow> record_ \<Rightarrow> 'm \<Rightarrow> 'm) \<Rightarrow> (string \<Rightarrow> 'm) \<Rightarrow> record_ list
    \<Rightarrow> int \<Rightarrow> 'm ingest \<Rightarrow> bool" where
  "loop_inv env eff init lg p0 s \<longleftrightarrow>
     deferred (ps_buffer (ig_page s)) = 0 \<and> disk (ps_buffer (ig_page s)) = work (ps_buffer (ig_page s))
     \<and> ps_failed (ig_page s) = None
     \<and> (\<exists>L. counts_ok env eff init lg p0 (ig_passed s) L (ig_page s))
     \<and> passed_ok env lg p0 (ig_passed s) (ig_page s) (cursor (ig_stream s))
     \<and> (\<forall>x. ig_next_from s = Some x \<longrightarrow> passed_ok env lg p0 (ig_passed s) (ig_page s) x)
     \<and> (\<forall>x. ig_ack_want s = Some x \<longrightarrow> passed_ok env lg p0 (ig_passed s) (ig_page s) (x + 1))
     \<and> (\<forall>p. ig_prefetch s = Some p \<longrightarrow> (\<exists>pos. ingest_page_ok lg pos p \<and> passed_ok env lg p0 (ig_passed s) (ig_page s) pos))"

lemma ack_passed:
  assumes "passed_ok env lg p0 gs st (cursor s)" "passed_ok env lg p0 gs st (x + 1)"
  shows "passed_ok env lg p0 gs st (cursor (snd (ack w x s)))"
  using ack_cursor(1) [of w x s] assms passed_ok_max [OF assms] by auto

lemma loop_inv_send_ack:
  assumes "loop_inv env eff init lg p0 s" shows "loop_inv env eff init lg p0 (send_ack w s)"
proof (cases "ig_ack_want s")
  case (Some x)
  have "passed_ok env lg p0 (ig_passed s) (ig_page s) (cursor (snd (ack w x (ig_stream s))))"
    using assms Some by (intro ack_passed) (auto simp: loop_inv_def)
  then show ?thesis using assms Some
    by (cases "ack w x (ig_stream s)") (auto simp: loop_inv_def send_ack_def split: bool.splits)
qed (use assms in \<open>simp add: send_ack_def\<close>)

lemma send_ack_simps [simp]:
  "ig_page (send_ack w s) = ig_page s" "ig_passed (send_ack w s) = ig_passed s" "ig_prefetch (send_ack w s) = ig_prefetch s"
  "ig_next_from (send_ack w s) = ig_next_from s" "ig_ack_want (send_ack w s) = None"
  by (auto simp: send_ack_def split: option.splits prod.splits bool.splits)

lemma restart_simps [simp]:
  "ig_page (restart_from_cursor w s) = ig_page s" "ig_passed (restart_from_cursor w s) = ig_passed s"
  by (simp_all add: restart_from_cursor_def)

text \<open>What a restart needs is only what the acks in flight stand on.\<close>

definition resting :: "'m ingest_env \<Rightarrow> (string \<Rightarrow> string \<Rightarrow> record_ \<Rightarrow> 'm \<Rightarrow> 'm) \<Rightarrow> (string \<Rightarrow> 'm) \<Rightarrow> record_ list
    \<Rightarrow> int \<Rightarrow> 'm ingest \<Rightarrow> bool" where
  "resting env eff init lg p0 s \<longleftrightarrow>
     deferred (ps_buffer (ig_page s)) = 0 \<and> disk (ps_buffer (ig_page s)) = work (ps_buffer (ig_page s))
     \<and> (\<exists>L. counts_ok env eff init lg p0 (ig_passed s) L (ig_page s))
     \<and> passed_ok env lg p0 (ig_passed s) (ig_page s) (cursor (ig_stream s))
     \<and> (\<forall>x. ig_ack_want s = Some x \<longrightarrow> passed_ok env lg p0 (ig_passed s) (ig_page s) (x + 1))"

lemma loop_inv_resting: "loop_inv env eff init lg p0 s \<Longrightarrow> resting env eff init lg p0 s"
  by (simp add: loop_inv_def resting_def)

lemma resting_restart:
  assumes "resting env eff init lg p0 s"
  shows "resting env eff init lg p0 (restart_from_cursor w s)
     \<and> (ps_failed (ig_page s) = None \<longrightarrow> loop_inv env eff init lg p0 (restart_from_cursor w s))"
proof -
  have "passed_ok env lg p0 (ig_passed s) (ig_page s) (cursor (ig_stream (send_ack w (s\<lparr>ig_prefetch := None\<rparr>))))"
  proof (cases "ig_ack_want s")
    case None
    then show ?thesis using assms by (simp add: resting_def send_ack_def)
  next
    case (Some x)
    have "passed_ok env lg p0 (ig_passed s) (ig_page s) (cursor (snd (ack w x (ig_stream s))))"
      using assms Some by (intro ack_passed) (auto simp: resting_def)
    then show ?thesis using Some by (cases "ack w x (ig_stream s)") (auto simp: send_ack_def split: bool.splits)
  qed
  then show ?thesis using assms by (simp add: resting_def loop_inv_def restart_from_cursor_def)
qed

lemma step_failed_inv:
  assumes "resting env eff init lg p0 s"
    and "\<forall>c f. ps_failed (ig_page s) = Some (c, f) \<longrightarrow> passed_ok env lg p0 (ig_passed s) (ig_page s) (r_offset f)"
  shows "loop_inv env eff init lg p0 (snd (step_failed w s))
     \<and> ps_handled (ig_page (snd (step_failed w s))) = ps_handled (ig_page s)
     \<and> ps_rejected (ig_page (snd (step_failed w s))) = ps_rejected (ig_page s)"
proof -
  let ?s = "restart_from_cursor w s"
  note r = resting_restart [OF assms(1), of w]
  show ?thesis
  proof (cases "ps_failed (ig_page s)")
    case None
    then show ?thesis using r by (simp add: step_failed_def Let_def)
  next
    case (Some cf)
    obtain c f where cf: "cf = (c, f)" by force
    let ?st = "(ig_page s)\<lparr>ps_failed := None\<rparr>"
    let ?str = "if 1 < r_offset f then snd (ack w (r_offset f - 1) (ig_stream ?s)) else ig_stream ?s"
    have eq: "snd (step_failed w s) = ?s\<lparr>ig_page := ?st, ig_stream := ?str\<rparr>" using Some cf by (simp add: step_failed_def Let_def)
    have p: "passed_ok env lg p0 (ig_passed s) ?st x" if "passed_ok env lg p0 (ig_passed s) (ig_page s) x" for x
      by (rule passed_ok_mono [OF that]) auto
    have "passed_ok env lg p0 (ig_passed s) (ig_page s) (cursor ?str)"
      using ack_passed [of env lg p0 "ig_passed s" "ig_page s" "ig_stream ?s" "r_offset f - 1" w] r assms(2) Some cf
      by (auto simp: resting_def)
    then have "passed_ok env lg p0 (ig_passed s) ?st (cursor ?str)" by (rule p)
    moreover have "\<exists>L. counts_ok env eff init lg p0 (ig_passed s) L ?st"
      using assms(1) counts_ok_mono [of env eff init lg p0 "ig_passed s" _ "ig_page s" "ig_passed s" ?st]
      by (auto simp: resting_def)
    ultimately have "loop_inv env eff init lg p0 (?s\<lparr>ig_page := ?st, ig_stream := ?str\<rparr>)"
      using assms(1) by (simp add: loop_inv_def resting_def restart_from_cursor_def)
    then show ?thesis by (simp add: eq)
  qed
qed

lemma take_page_result:
  assumes "ingest_node_ok lg w" "loop_inv env eff init lg p0 s" "take_page w s = (p, s')"
  shows "\<exists>pos. ingest_page_ok lg pos p \<and> passed_ok env lg p0 (ig_passed s) (ig_page s) pos
     \<and> loop_inv env eff init lg p0 s' \<and> ig_prefetch s' = None \<and> ig_page s' = ig_page s \<and> ig_passed s' = ig_passed s"
proof (cases "ig_prefetch s")
  case (Some q)
  then have "q = p" "s' = s\<lparr>ig_prefetch := None\<rparr>" using assms(3) by (auto simp: take_page_def)
  moreover obtain pos where "ingest_page_ok lg pos q" "passed_ok env lg p0 (ig_passed s) (ig_page s) pos"
    using assms(2) Some unfolding loop_inv_def by blast
  moreover have "loop_inv env eff init lg p0 (s\<lparr>ig_prefetch := None\<rparr>)" using assms(2) by (simp add: loop_inv_def)
  ultimately show ?thesis by (intro exI [of _ pos]) simp
next
  case None
  let ?pos = "case ig_next_from s of None \<Rightarrow> cursor (ig_stream s) | Some n \<Rightarrow> max (cursor (ig_stream s)) n"
  have p: "p = fetch w (fetches (ig_stream s)) ?pos" "s' = s\<lparr>ig_stream := (ig_stream s)\<lparr>fetches := fetches (ig_stream s) + 1\<rparr>\<rparr>"
    using assms(3) None by (auto simp: take_page_def fetch_from_def)
  have "passed_ok env lg p0 (ig_passed s) (ig_page s) ?pos"
    using assms(2) by (auto simp: loop_inv_def intro: passed_ok_max split: option.splits)
  moreover have "ingest_page_ok lg ?pos p" using assms(1) by (simp add: ingest_node_ok_def p)
  moreover have "loop_inv env eff init lg p0 s'" using assms(2) None by (simp add: loop_inv_def p)
  ultimately show ?thesis using None p(2) by auto
qed

text \<open>Where a page is acknowledged: up to its \<open>next\<close>, or to the end of its gap.\<close>

lemma ack_offset_passed:
  assumes "ingest_page_ok lg pos p" "ack_offset p = Some x" "passed_ok env lg p0 gs st (p_next p)"
    and "\<forall>g. p_gap p = Some g \<longrightarrow> g \<in> set gs"
  shows "passed_ok env lg p0 gs st (x + 1)"
proof -
  have "x + 1 = p_next p \<or> (\<exists>g. p_gap p = Some g \<and> (x = g_to g \<or> x + 1 = p_next p))"
  proof (cases "p_records p = []")
    case True
    then show ?thesis using assms(2) by (auto simp: ack_offset_def max_def split: if_splits option.splits)
  next
    case False
    then have "last (p_records p) \<in> set (p_records p)" by simp
    then have "r_offset (last (p_records p)) < p_next p" using assms(1) by (auto simp: ingest_page_ok_def)
    then show ?thesis using assms(2) False by (simp add: ack_offset_def)
  qed
  then show ?thesis
  proof (elim disjE exE conjE)
    fix g assume g: "p_gap p = Some g" "x = g_to g"
    then have "lost_in gs r" if "p_next p \<le> r_offset r" "r_offset r < x + 1" for r
    proof -
      have "g_from g \<le> p_next p" "g \<in> set gs" using g assms(1,4) by (simp_all add: ingest_page_ok_def)
      then show ?thesis using that g(2) unfolding lost_in_def in_gap_def by force
    qed
    then show ?thesis using assms(3) unfolding passed_ok_def by (metis not_le)
  qed (use assms(3) in auto)
qed

text \<open>The traces of what handlers did only grow.\<close>

definition traces_grow :: "'m ingest \<Rightarrow> 'm ingest \<Rightarrow> bool" where
  "traces_grow s s' \<longleftrightarrow> set (ps_handled (ig_page s)) \<subseteq> set (ps_handled (ig_page s'))
     \<and> set (ps_rejected (ig_page s)) \<subseteq> set (ps_rejected (ig_page s'))"

lemma traces_grow_trans: "traces_grow a b \<Longrightarrow> traces_grow b c \<Longrightarrow> traces_grow a c"
  unfolding traces_grow_def by (meson order_trans)

lemma note_start_simps [simp]:
  "ig_page (note_start p s) = ig_page s" "ig_passed (note_start p s) = ig_passed s" "ig_stream (note_start p s) = ig_stream s"
  "ig_ack_want (note_start p s) = ig_ack_want s"
  by (simp_all add: note_start_def)

lemma read_ahead_simps [simp]:
  "ig_page (read_ahead w p s) = ig_page s" "ig_passed (read_ahead w p s) = ig_passed s" "ig_ack_want (read_ahead w p s) = ig_ack_want s"
  "cursor (ig_stream (read_ahead w p s)) = cursor (ig_stream s)" "ig_next_from (read_ahead w p s) = ig_next_from s"
  "ig_read_ahead (read_ahead w p s) = ig_read_ahead s" "ig_ack_failed (read_ahead w p s) = ig_ack_failed s"
  by (auto simp: read_ahead_def fetch_from_def)

lemma read_ahead_prefetch:
  "ig_prefetch s = None \<Longrightarrow> ig_prefetch (read_ahead w p s) = Some q \<Longrightarrow>
     \<exists>n. q = fetch w n (max (cursor (ig_stream s)) (p_next p))"
  by (auto simp: read_ahead_def fetch_from_def split: if_splits)

text \<open>After the records of a page: the step ends with an ack, or the loop restarts.\<close>

lemma finish_step_inv:
  assumes "loop_inv env eff init lg p0 s" "passed_ok env lg p0 (ig_passed s) (ig_page s) (x + 1)"
  shows "loop_inv env eff init lg p0 (snd (finish_step w p x s)) \<and> traces_grow s (snd (finish_step w p x s))"
proof (cases "ig_read_ahead s = Some True")
  case True
  then show ?thesis using assms by (auto simp: finish_step_def queue_ack_def loop_inv_def traces_grow_def)
next
  case False
  obtain ok st where a: "ack w x (ig_stream s) = (ok, st)" by force
  have "cursor st = cursor (snd (ack w x (ig_stream s)))" by (simp add: a)
  then have st: "passed_ok env lg p0 (ig_passed s) (ig_page s) (cursor st)"
    using ack_passed [of env lg p0 "ig_passed s" "ig_page s" "ig_stream s" x w] assms by (simp add: loop_inv_def)
  then have inv: "loop_inv env eff init lg p0 (s\<lparr>ig_stream := st\<rparr>)" using assms(1) by (simp add: loop_inv_def)
  show ?thesis
  proof (cases ok)
    case True
    then show ?thesis using a False inv by (simp add: finish_step_def traces_grow_def)
  next
    case False2: False
    have "ps_failed (ig_page (s\<lparr>ig_stream := st\<rparr>)) = None" using assms(1) by (simp add: loop_inv_def)
    then show ?thesis using step_failed_inv [OF loop_inv_resting [OF inv]] a False False2
      by (simp add: finish_step_def traces_grow_def)
  qed
qed

lemma process_page_same:
  assumes "process_page env p s = (res, s')"
  shows "ig_stream s' = ig_stream s" "ig_ack_want s' = ig_ack_want s" "ig_next_from s' = ig_next_from s" "ig_prefetch s' = ig_prefetch s"
  using assms by (auto simp: process_page_def Let_def split: option.splits prod.splits if_splits)

lemma process_page_inv:
  assumes env: "env_ok env eff lg" and p: "ingest_page_ok lg pos p" and s: "resting env eff init lg p0 s"
    and pos: "passed_ok env lg p0 (ig_passed s) (ig_page s) pos"
    and h: "process_page env p s = (Inr ok, s')"
  shows "resting env eff init lg p0 s' \<and> traces_grow s s'
     \<and> (\<forall>g. p_gap p = Some g \<longrightarrow> g \<in> set (ig_passed s'))
     \<and> (\<forall>x. passed_ok env lg p0 (ig_passed s) (ig_page s) x \<longrightarrow> passed_ok env lg p0 (ig_passed s') (ig_page s') x)
     \<and> (if ok then ps_failed (ig_page s') = None \<and> passed_ok env lg p0 (ig_passed s') (ig_page s') (p_next p)
        else \<exists>c f. ps_failed (ig_page s') = Some (c, f) \<and> passed_ok env lg p0 (ig_passed s') (ig_page s') (r_offset f))"
proof -
  let ?gs = "ig_passed s @ (case p_gap p of None \<Rightarrow> [] | Some g \<Rightarrow> [g])"
  obtain st' where pr: "process_records env (p_records p) (ig_page s) = (ok, st')"
    and s': "ig_page s' = st'" "ig_passed s' = ?gs"
    using h by (auto simp: process_page_def Let_def split: option.splits prod.splits if_splits)
  let ?pruned = "\<lambda>r. \<exists>g. p_gap p = Some g \<and> in_gap g r"
  have recs: "p_records p = filter (\<lambda>r. pos \<le> r_offset r \<and> r_offset r < p_next p \<and> \<not> ?pruned r) lg"
    using p by (simp add: ingest_page_ok_def)
  have so: "sorted_wrt (<) (map r_offset (p_records p))"
    using env unfolding recs env_ok_def by (auto simp: sorted_wrt_map intro: sorted_wrt_filter)
  have sub: "set (p_records p) \<subseteq> set lg" by (auto simp: recs)
  have d: "deferred (ps_buffer (ig_page s)) = 0" using s by (simp add: resting_def)
  note po = process_records_result [OF env sub so d pr]
  obtain L where L: "counts_ok env eff init lg p0 (ig_passed s) L (ig_page s)" using s by (auto simp: resting_def)
  have cnt: "counts_ok env eff init lg p0 ?gs L (ig_page s)" by (rule counts_ok_mono [OF L]) auto
  have lift: "passed_ok env lg p0 ?gs (ig_page s) x" if "passed_ok env lg p0 (ig_passed s) (ig_page s) x" for x
    by (rule passed_ok_mono [OF that]) auto
  have set: "set (p_records p) = {r \<in> set lg. pos \<le> r_offset r \<and> r_offset r < p_next p \<and> \<not> ?pruned r}" by (auto simp: recs)
  have lost: "\<forall>r. ?pruned r \<longrightarrow> lost_in ?gs r" by (auto simp: lost_in_def)
  have over: "page_over env eff (ig_page s) (p_records p) st'" using po by blast
  note res = page_over_result [OF env cnt lift [OF pos] set lost over]
  have keep: "passed_ok env lg p0 ?gs st' x" if "passed_ok env lg p0 (ig_passed s) (ig_page s) x" for x
    using res lift [OF that] by blast
  have "resting env eff init lg p0 s'"
  proof -
    have "deferred (ps_buffer st') = 0" "disk (ps_buffer st') = work (ps_buffer st')" using po d by (simp_all add: page_over_def)
    moreover have "\<exists>L. counts_ok env eff init lg p0 ?gs L st'" using res by blast
    ultimately show ?thesis using s keep s' process_page_same [OF h] by (simp add: resting_def)
  qed
  moreover have "traces_grow s s'" using over s'(1) by (simp add: traces_grow_def page_over_def)
  moreover have "\<forall>g. p_gap p = Some g \<longrightarrow> g \<in> set (ig_passed s')" using s'(2) by auto
  moreover have "if ok then ps_failed (ig_page s') = None \<and> passed_ok env lg p0 (ig_passed s') (ig_page s') (p_next p)
        else \<exists>c f. ps_failed (ig_page s') = Some (c, f) \<and> passed_ok env lg p0 (ig_passed s') (ig_page s') (r_offset f)"
    using po res s' by (cases "ps_failed st'") auto
  ultimately show ?thesis using s' keep by simp
qed

text \<open>One round.\<close>

lemma step_inv:
  assumes env: "env_ok env eff lg" and node: "ingest_node_ok lg w" and inv: "loop_inv env eff init lg p0 s"
  shows "loop_inv env eff init lg p0 (snd (step env w s)) \<and> traces_grow s (snd (step env w s))"
proof (cases "ig_ack_failed s")
  case True
  have "ps_failed (ig_page s) = None" using inv by (simp add: loop_inv_def)
  then show ?thesis using step_failed_inv [OF loop_inv_resting [OF inv]] True by (simp add: step_def traces_grow_def)
next
  case False
  obtain p s1 where tp: "take_page w s = (p, s1)" by force
  obtain pos where pos: "ingest_page_ok lg pos p" "passed_ok env lg p0 (ig_passed s) (ig_page s) pos"
      and inv1: "loop_inv env eff init lg p0 s1" and s1: "ig_prefetch s1 = None" "ig_page s1 = ig_page s" "ig_passed s1 = ig_passed s"
    using take_page_result [OF node inv tp] by blast
  let ?s2 = "note_start p s1"
  show ?thesis
  proof (cases "ack_offset p")
    case None
    have "p_start p = None \<or> p_next p = pos"
      using None pos(1) by (auto simp: ack_offset_def ingest_page_ok_def split: if_splits)
    then have "\<forall>x. ig_next_from ?s2 = Some x \<longrightarrow> passed_ok env lg p0 (ig_passed s) (ig_page s) x"
      using inv1 pos(2) s1 by (auto simp: note_start_def loop_inv_def)
    then have "loop_inv env eff init lg p0 (?s2\<lparr>ig_behind := False\<rparr>)"
      using inv1 s1 by (auto simp: loop_inv_def note_start_def)
    moreover have "snd (step env w s) = ?s2\<lparr>ig_behind := False\<rparr>" using False tp None by (simp add: step_def Let_def)
    ultimately show ?thesis using s1 by (simp add: traces_grow_def)
  next
    case (Some x)
    define s3 where "s3 = read_ahead w p (?s2\<lparr>ig_behind := True\<rparr>)"
    obtain res s4 where pp: "process_page env p s3 = (res, s4)" by force
    have s3: "ig_page s3 = ig_page s" "ig_passed s3 = ig_passed s" "cursor (ig_stream s3) = cursor (ig_stream s1)"
      "ig_ack_want s3 = ig_ack_want s1" by (simp_all add: s3_def s1)
    have r3: "resting env eff init lg p0 s3" using inv1 s1 s3 by (auto simp: loop_inv_def resting_def)
    have step: "step env w s = (case (res, s4) of
               (Inr True, s) \<Rightarrow> finish_step w p x s
             | (Inr False, s) \<Rightarrow> step_failed w s
             | (Inl (GapWaits g), s) \<Rightarrow> (GapWaits g, (restart_from_cursor w s)\<lparr>ig_gap_waiting := True\<rparr>)
             | (Inl e, s) \<Rightarrow> (e, restart_from_cursor w s))"
      using False tp Some pp by (simp add: step_def Let_def s3_def)
    show ?thesis
    proof (cases res)
      case (Inl e)
      then have s4: "s4 = s3" using pp by (auto simp: process_page_def Let_def split: option.splits prod.splits if_splits)
      have "loop_inv env eff init lg p0 (restart_from_cursor w s3)"
        using resting_restart [OF r3] inv s3 by (simp add: loop_inv_def)
      then have "loop_inv env eff init lg p0 (snd (step env w s)) \<and> ig_page (snd (step env w s)) = ig_page s3"
        unfolding step Inl s4 by (cases e) (auto simp: loop_inv_def)
      then show ?thesis using s3 by (simp add: traces_grow_def)
    next
      case (Inr ok)
      have pos3: "passed_ok env lg p0 (ig_passed s3) (ig_page s3) pos" using pos(2) s3 by simp
      note pi = process_page_inv [OF env pos(1) r3 pos3 pp [unfolded Inr]]
      note same = process_page_same [OF pp]
      show ?thesis
      proof (cases ok)
        case False2: False
        have "loop_inv env eff init lg p0 (snd (step_failed w s4)) \<and> ps_handled (ig_page (snd (step_failed w s4))) = ps_handled (ig_page s4)
            \<and> ps_rejected (ig_page (snd (step_failed w s4))) = ps_rejected (ig_page s4)"
          by (rule step_failed_inv) (use pi False2 in auto)
        then show ?thesis using pi False2 s3 by (simp add: step Inr traces_grow_def)
      next
        case True
        have nxt: "passed_ok env lg p0 (ig_passed s4) (ig_page s4) (p_next p)" "ps_failed (ig_page s4) = None" using pi True by auto
        have old: "passed_ok env lg p0 (ig_passed s) (ig_page s) y \<Longrightarrow> passed_ok env lg p0 (ig_passed s4) (ig_page s4) y" for y
          using pi s3 by simp
        have "passed_ok env lg p0 (ig_passed s4) (ig_page s4) y" if "ig_next_from s4 = Some y" for y
          using that nxt old inv1 s1 same(3) by (auto simp: s3_def note_start_def loop_inv_def split: if_splits)
        moreover have "\<exists>pos. ingest_page_ok lg pos q \<and> passed_ok env lg p0 (ig_passed s4) (ig_page s4) pos"
          if q: "ig_prefetch s4 = Some q" for q
        proof -
          have "ig_prefetch (?s2\<lparr>ig_behind := True\<rparr>) = None" using s1(1) by (simp add: note_start_def)
          from read_ahead_prefetch [OF this, of w p q] obtain n where "q = fetch w n (max (cursor (ig_stream s1)) (p_next p))"
            using q same(4) by (auto simp: s3_def)
          moreover have "passed_ok env lg p0 (ig_passed s4) (ig_page s4) (max (cursor (ig_stream s1)) (p_next p))"
            using nxt old inv1 s1 by (intro passed_ok_max) (auto simp: loop_inv_def)
          ultimately show ?thesis using node by (auto simp: ingest_node_ok_def)
        qed
        ultimately have i4: "loop_inv env eff init lg p0 s4" using pi nxt unfolding loop_inv_def resting_def by simp
        have "passed_ok env lg p0 (ig_passed s4) (ig_page s4) (x + 1)"
          by (rule ack_offset_passed [OF pos(1) Some nxt(1)]) (use pi in blast)
        note fin = finish_step_inv [OF i4 this, of w p]
        have "snd (step env w s) = snd (finish_step w p x s4)" using True by (simp add: step Inr)
        moreover have "traces_grow s s4" using pi s3(1) by (simp add: traces_grow_def)
        ultimately show ?thesis using fin traces_grow_trans [of s s4] by simp
      qed
    qed
  qed
qed

text \<open>Death: what is on disk is what the loop stood on, and a restart reads it back.\<close>

lemma loop_inv_page:
  assumes "loop_inv env eff init lg p0 s" "ps_buffer pg = ps_buffer (ig_page s)" "ps_failed pg = None"
    "\<forall>n. checkpointed env n \<longrightarrow> pg_producers (ps_run pg) n = pg_producers (ps_run (ig_page s)) n"
    "set (ps_handled (ig_page s)) \<subseteq> set (ps_handled pg)" "set (ps_rejected (ig_page s)) \<subseteq> set (ps_rejected pg)"
  shows "loop_inv env eff init lg p0 (s\<lparr>ig_page := pg\<rparr>)"
proof -
  have p: "passed_ok env lg p0 (ig_passed s) pg x" if "passed_ok env lg p0 (ig_passed s) (ig_page s) x" for x
    using that assms(2,4-6) by (intro passed_ok_mono [OF that]) auto
  have c: "counts_ok env eff init lg p0 (ig_passed s) L pg" if "counts_ok env eff init lg p0 (ig_passed s) L (ig_page s)" for L
    using that assms(2,4,6) by (intro counts_ok_mono [OF that]) auto
  show ?thesis using assms(1-3) p c unfolding loop_inv_def by simp blast
qed

lemma restore_counted:
  assumes "env_ok env eff lg" "counts_ok env eff init lg p0 gs L st" "checkpointed env n"
  shows "snd (restore_checkpoint (the_app env) n (ps_buffer st) \<lparr>memory = init n, offsets = []\<rparr>) = pg_producers (ps_run st) n"
proof -
  obtain v where v: "state_version (the_app env) n = Some v" using assms(3) by (auto simp: checkpointed_def)
  then have L: "pg_producers (ps_run st) n = apply_calls eff n (L n) \<lparr>memory = init n, offsets = []\<rparr>"
    "checkpoint_of n (ps_buffer st) = Some (checkpoint_row (the_app env) n v (pg_producers (ps_run st) n))
       \<or> L n = [] \<and> checkpoint_of n (ps_buffer st) = None"
    using assms(2,3) unfolding counts_ok_def by auto
  from L(2) show ?thesis
  proof
    assume "checkpoint_of n (ps_buffer st) = Some (checkpoint_row (the_app env) n v (pg_producers (ps_run st) n))"
    then show ?thesis using restore_checkpoint_row [of "the_app env" eff n v] v assms(1) by (simp add: env_ok_def)
  qed (simp add: L(1) restore_checkpoint_def v)
qed

lemma reopen_inv:
  assumes env: "env_ok env eff lg" and inv: "loop_inv env eff init lg p0 s"
  shows "loop_inv env eff init lg p0 (reopen env init s)
     \<and> ps_handled (ig_page (reopen env init s)) = ps_handled (ig_page s)
     \<and> ps_rejected (ig_page (reopen env init s)) = ps_rejected (ig_page s)"
proof -
  let ?b = "ps_buffer (ig_page s)"
  have b: "crash ?b = ?b" using inv by (simp add: loop_inv_def crash_def)
  let ?P = "\<lambda>name. snd (restore_checkpoint (the_app env) name ?b \<lparr>memory = init name, offsets = []\<rparr>)"
  have P: "?P n = pg_producers (ps_run (ig_page s)) n" if "checkpointed env n" for n
    using restore_counted [OF env _ that] inv unfolding loop_inv_def by blast
  let ?pg = "(ig_page s)\<lparr>ps_run := new_page ?P (pg_calls (ps_run (ig_page s))), ps_failed := None\<rparr>"
  have "loop_inv env eff init lg p0 (s\<lparr>ig_page := ?pg\<rparr>)"
    by (rule loop_inv_page [OF inv]) (simp_all add: new_page_def P)
  moreover have "ig_page (reopen env init s) = ?pg" by (simp add: reopen_def Let_def b)
  moreover have "cursor (ig_stream (reopen env init s)) = cursor (ig_stream s)" "ig_passed (reopen env init s) = ig_passed s"
    "ig_next_from (reopen env init s) = None" "ig_ack_want (reopen env init s) = None" "ig_prefetch (reopen env init s) = None"
    by (simp_all add: reopen_def Let_def)
  ultimately show ?thesis by (simp add: loop_inv_def)
qed

lemma happen_inv:
  assumes env: "env_ok env eff lg" and node: "ingest_node_ok lg w" and inv: "loop_inv env eff init lg p0 s"
  shows "loop_inv env eff init lg p0 (happen env init w h s)"
proof (cases h)
  case FetchFails
  have "ps_failed (ig_page s) = None" using inv by (simp add: loop_inv_def)
  then show ?thesis using resting_restart [OF loop_inv_resting [OF inv]] FetchFails by simp
next
  case DiesInPage
  let ?pg = "(ig_page s)\<lparr>ps_run := (ps_run (ig_page s))\<lparr>pg_calls := pg_calls (ps_run (ig_page (snd (step env w s))))\<rparr>,
         ps_handled := ps_handled (ig_page (snd (step env w s))), ps_rejected := ps_rejected (ig_page (snd (step env w s))),
         ps_tries := ps_tries (ig_page (snd (step env w s)))\<rparr>"
  have "loop_inv env eff init lg p0 (s\<lparr>ig_page := ?pg\<rparr>)"
    using step_inv [OF env node inv] inv by (intro loop_inv_page) (auto simp: traces_grow_def loop_inv_def)
  from reopen_inv [OF env this] show ?thesis using DiesInPage by (simp add: dies_in_page_def Let_def)
qed (use step_inv [OF env node inv] loop_inv_send_ack [OF inv] reopen_inv [OF env inv] in auto)

section \<open>The lives of a service\<close>

text \<open>A loop that starts over a buffer with no checkpoint, its cursor at \<open>p0\<close>.\<close>

definition new_ingest :: "(string \<Rightarrow> 'm) \<Rightarrow> buffer \<Rightarrow> int \<Rightarrow> 'm ingest" where
  "new_ingest init b p0 =
     \<lparr>ig_page = \<lparr>ps_run = new_page (\<lambda>name. \<lparr>memory = init name, offsets = []\<rparr>) 0, ps_buffer = b, ps_handled = [],
        ps_rejected = [], ps_failed = None, ps_first = None, ps_tries = 0, ps_saves = 0, ps_pages = 0\<rparr>,
      ig_stream = \<lparr>acknowledged = 0, cursor = p0, moved = 0, fetches = 0, calls = 0, acks = 0, processed = []\<rparr>, ig_read_ahead = None, ig_next_from = None,
      ig_prefetch = None, ig_ack_want = None, ig_ack_failed = False, ig_behind = False, ig_gap_waiting = False, ig_passed = []\<rparr>"

definition service_lives :: "'m ingest_env \<Rightarrow> (string \<Rightarrow> 'm) \<Rightarrow> world \<Rightarrow> buffer \<Rightarrow> int \<Rightarrow> happening list \<Rightarrow> 'm ingest" where
  "service_lives env init w b p0 hs = fold (happen env init w) hs (new_ingest init b p0)"

lemma new_ingest_inv:
  assumes "env_ok env eff lg" "deferred b = 0" "disk b = work b" "db_checkpoints (work b) = []"
  shows "loop_inv env eff init lg p0 (new_ingest init b p0)"
proof -
  have "counts_ok env eff init lg p0 [] (\<lambda>_. []) (ig_page (new_ingest init b p0))"
    using assms(1,4) by (auto simp: counts_ok_def new_ingest_def new_page_def checkpoint_of_def handled_upto_def env_ok_def)
  moreover have "passed_ok env lg p0 [] (ig_page (new_ingest init b p0)) p0" by (auto simp: passed_ok_def)
  ultimately show ?thesis using assms(2,3) by (auto simp: loop_inv_def new_ingest_def)
qed

lemma service_lives_inv:
  assumes "env_ok env eff lg" "ingest_node_ok lg w" "deferred b = 0" "disk b = work b" "db_checkpoints (work b) = []"
  shows "loop_inv env eff init lg p0 (service_lives env init w b p0 hs)"
proof -
  have "loop_inv env eff init lg p0 s \<Longrightarrow> loop_inv env eff init lg p0 (fold (happen env init w) hs s)" for s
    by (induction hs arbitrary: s) (simp_all add: happen_inv [OF assms(1,2)])
  then show ?thesis unfolding service_lives_def using new_ingest_inv [OF assms(1,3-5)] by blast
qed

text \<open>An example: one producer adds up offsets, its first call fails; the node retains offset 1 as lost.\<close>

definition example_record :: "int \<Rightarrow> record_" where
  "example_record n = \<lparr>r_offset = n, r_topic = [], r_payload = JObj [(''signal_id'', JStr ''s'')], r_ts = 0, r_actor_id = [],
     r_actor_label = [], r_actor_kind = []\<rparr>"

definition example_env :: "int ingest_env" where
  "example_env =
     \<lparr>the_app = \<lparr>snapshot = JInt, restore = (\<lambda>j m. case j of JInt n \<Rightarrow> n | _ \<Rightarrow> m),
        invoke = (\<lambda>n name key r m. if n = 0 then (Raises, 99) else (Returns, m + r_offset r)),
        state_version = (\<lambda>_. Some 1), code_hash = (\<lambda>_. []), saves = (\<lambda>_. True)\<rparr>,
      dispatch = [(''s'', [(''p'', ''k'')])], decodes = (\<lambda>_. True), float_of = (\<lambda>_. None), rejects = (\<lambda>_. True),
      settles = (\<lambda>_. None), on_gap = Some (\<lambda>_ _. True)\<rparr>"

definition example_effect :: "string \<Rightarrow> string \<Rightarrow> record_ \<Rightarrow> int \<Rightarrow> int" where
  "example_effect name key r m = m + r_offset r"

definition example_log :: "record_ list" where
  "example_log = map example_record [1, 2, 3]"

definition example_node :: world where
  "example_node =
     \<lparr>fetch = (\<lambda>_ p. \<lparr>p_records = filter (\<lambda>r. p \<le> r_offset r \<and> r_offset r < max p 4 \<and> \<not> r_offset r \<le> 1) example_log,
        p_next = max p 4, p_gap = (if p \<le> 1 then Some \<lparr>g_from = p, g_to = 1\<rparr> else None), p_start = Some p\<rparr>),
      fate = (\<lambda>n. if n = 0 then AnswerLost else Answered_ok), handler = (\<lambda>_ _. Handles), stops = (\<lambda>_. False)\<rparr>"

definition example_lives :: "happening list" where
  "example_lives = [Round, DiesInPage, Round, AckRound, Dies, Round, AckRound]"

lemma example_env_ok: "env_ok example_env example_effect example_log"
  by (simp add: env_ok_def app_ok_def example_env_def example_effect_def example_log_def example_record_def timestamp_of_def field_def)

lemma example_node_ok: "ingest_node_ok example_log example_node"
  by (auto simp: ingest_node_ok_def ingest_page_ok_def example_node_def example_log_def example_record_def in_gap_def)

definition example_buffer :: buffer where
  "example_buffer = \<lparr>work = empty_db, disk = empty_db, deferred = 0\<rparr>"

definition example_end :: "int ingest" where
  "example_end = service_lives example_env (\<lambda>_. 10) example_node example_buffer 1 example_lives"

lemma example_end_run:
  "(let s = example_end in
    (cursor (ig_stream s), ps_rejected (ig_page s), ig_passed s, pg_producers (ps_run (ig_page s)) ''p''))
   = (4, [], [\<lparr>g_from = 1, g_to = 1\<rparr>], \<lparr>memory = 15, offsets = [(''k'', 3)]\<rparr>)"
  by code_simp

lemma example_handlers: "handlers_of example_env (example_record 2) = [(''p'', ''k'')]" by code_simp

lemmas example_end_facts = example_end_run [unfolded Let_def prod.inject] example_handlers

lemma example_facts:
  "example_record 2 \<in> set example_log" "r_offset (example_record 2) = 2" "deferred example_buffer = 0"
  "disk example_buffer = work example_buffer" "db_checkpoints (work example_buffer) = []"
  by (simp_all add: example_log_def example_record_def example_buffer_def empty_db_def)



text \<open>C17: the state of a checkpointed producer counts each record once. Whatever happens to the ingest loop, the
  state in memory is the constructor's after a list of handler calls in which no method sees an offset twice (or out
  of order), each call of a record the filter selects and the dispatch table gives to the producer; the checkpoint on
  disk restores just that state; and every record the cursor has passed is in the list, or was rejected, or lost in a gap.\<close>

theorem exactly_once_effects:
  assumes "env_ok env eff lg" "ingest_node_ok lg w" "deferred b = 0" "disk b = work b" "db_checkpoints (work b) = []"
    and "state_version (the_app env) n \<noteq> None"
  shows "\<exists>made. pg_producers (ps_run (ig_page (service_lives env init w b p0 hs))) n = apply_calls eff n made \<lparr>memory = init n, offsets = []\<rparr>
     \<and> fresh_calls [] made
     \<and> (\<forall>(k, r) \<in> set made. r \<in> set lg \<and> (n, k) \<in> set (handlers_of env r))
     \<and> snd (restore_checkpoint (the_app env) n (crash (ps_buffer (ig_page (service_lives env init w b p0 hs)))) \<lparr>memory = init n, offsets = []\<rparr>)
         = apply_calls eff n made \<lparr>memory = init n, offsets = []\<rparr>
     \<and> (\<forall>r \<in> set lg. \<forall>k. (n, k) \<in> set (handlers_of env r) \<and> p0 \<le> r_offset r
          \<and> r_offset r < cursor (ig_stream (service_lives env init w b p0 hs)) \<longrightarrow>
          (k, r) \<in> set made \<or> (n, k, r) \<in> set (ps_rejected (ig_page (service_lives env init w b p0 hs)))
          \<or> lost_in (ig_passed (service_lives env init w b p0 hs)) r)"
proof -
  let ?s = "service_lives env init w b p0 hs"
  have inv: "loop_inv env eff init lg p0 ?s" by (rule service_lives_inv) fact+
  have ck: "checkpointed env n" using assms(6) by (simp add: checkpointed_def)
  have cr: "crash (ps_buffer (ig_page ?s)) = ps_buffer (ig_page ?s)" using inv by (simp add: loop_inv_def crash_def)
  obtain L where L: "counts_ok env eff init lg p0 (ig_passed ?s) L (ig_page ?s)" using inv by (auto simp: loop_inv_def)
  have P: "passed_ok env lg p0 (ig_passed ?s) (ig_page ?s) (cursor (ig_stream ?s))" using inv by (simp add: loop_inv_def)
  note c = L [unfolded counts_ok_def, rule_format, OF ck]
  have "(k, r) \<in> set (L n) \<or> (n, k, r) \<in> set (ps_rejected (ig_page ?s)) \<or> lost_in (ig_passed ?s) r"
    if r: "r \<in> set lg" "(n, k) \<in> set (handlers_of env r)" "p0 \<le> r_offset r" "r_offset r < cursor (ig_stream ?s)" for k r
  proof -
    have "lost_in (ig_passed ?s) r \<or> dealt_with env (ig_page ?s) n k r" using P r unfolding passed_ok_def by fast
    moreover have "r_offset r \<le> handled_upto (offsets (pg_producers (ps_run (ig_page ?s)) n)) k \<longrightarrow>
        (k, r) \<in> set (L n) \<or> (n, k, r) \<in> set (ps_rejected (ig_page ?s)) \<or> lost_in (ig_passed ?s) r"
      using c r by blast
    ultimately show ?thesis using ck unfolding dealt_with_def by auto
  qed
  moreover have "snd (restore_checkpoint (the_app env) n (crash (ps_buffer (ig_page ?s))) \<lparr>memory = init n, offsets = []\<rparr>)
      = pg_producers (ps_run (ig_page ?s)) n" using restore_counted [OF assms(1) L ck] cr by simp
  ultimately show ?thesis using c by (intro exI [of _ "L n"]) (simp only: simp_thms, blast)
qed

theorem exactly_once_effects_witness:
  "pg_producers (ps_run (ig_page example_end)) ''p'' = \<lparr>memory = 15, offsets = [(''k'', 3)]\<rparr>
   \<and> (\<exists>made. pg_producers (ps_run (ig_page example_end)) ''p'' = apply_calls example_effect ''p'' made \<lparr>memory = 10, offsets = []\<rparr>
        \<and> (''k'', example_record 2) \<in> set made)"
proof -
  have v: "state_version (the_app example_env) ''p'' \<noteq> None" by (simp add: example_env_def)
  have "\<not> lost_in (ig_passed example_end) (example_record 2)"
    by (simp add: example_end_facts example_facts lost_in_def in_gap_def)
  then show ?thesis
    using exactly_once_effects [OF example_env_ok example_node_ok example_facts(3-5) v, of "\<lambda>_. 10" 1 example_lives,
        folded example_end_def] example_facts(1,2) example_end_facts
    by fastforce
qed

end
