(* ===== verification/Chaski_Triggers.thy ===== *)
theory Chaski_Triggers
  imports Chaski_Command
begin

text \<open>
  The trigger decorators of a producer (\<open>src/chaski/dataops/triggers.py\<close>), the next instant of a timer
  (\<open>src/chaski/dataops/scheduling.py\<close>) and the instants a backfilled window runs
  (\<open>tick_instants\<close> of \<open>src/chaski/dataops/backfill.py\<close>). The regular expression of a duration is a parser over ASCII
  text; \<open>apscheduler\<close>'s \<open>CronTrigger\<close> is an argument: the next fire time strictly after an instant, in UTC.
\<close>

section \<open>Durations\<close>

datatype duration_arg = DBool bool | DInt int | DFloat fl | DStr string | DOther

definition is_digit :: "char \<Rightarrow> bool" where
  "is_digit c \<longleftrightarrow> 48 \<le> (of_char c :: nat) \<and> (of_char c :: nat) \<le> 57"

definition digits_value :: "string \<Rightarrow> real" where
  "digits_value ds = foldl (\<lambda>n c. 10 * n + (of_char c - 48)) 0 ds"

text \<open>\<open>float\<close> of the digits before and after the point.\<close>

definition decimal_value :: "string \<Rightarrow> string \<Rightarrow> real" where
  "decimal_value whole decs = digits_value whole + digits_value decs / 10 ^ length decs"

definition unit_to_seconds :: "string \<Rightarrow> real option" where
  "unit_to_seconds u = map_of [(''ms'', 1 / 1000), (''s'', 1), (''m'', 60), (''h'', 3600), (''d'', 86400)] u"

text \<open>\<open>_INTERVAL_RE\<close>: the number, then the unit (\<open>'s'\<close> when there is none).\<close>

definition read_number :: "string \<Rightarrow> string \<times> string \<times> string" where
  "read_number t =
     (let t' = dropWhile is_digit t
      in (takeWhile is_digit t,
          (case t' of
             c # t'' \<Rightarrow> if c = CHR ''.'' \<and> takeWhile is_digit t'' \<noteq> []
                         then (takeWhile is_digit t'', dropWhile is_digit t'') else ([], t')
           | [] \<Rightarrow> ([], t'))))"

definition read_unit :: "string \<Rightarrow> string \<times> string" where
  "read_unit t =
     (let t' = dropWhile is_space t
      in (takeWhile (\<lambda>c. \<not> is_space c) t', dropWhile is_space (dropWhile (\<lambda>c. \<not> is_space c) t')))"

definition interval_re :: "string \<Rightarrow> (real \<times> string) option" where
  "interval_re text =
     (case read_number (dropWhile is_space text) of (whole, decs, t) \<Rightarrow>
        case read_unit t of (unit, rest) \<Rightarrow>
          if whole = [] \<or> rest \<noteq> [] then None
          else if unit = [] then Some (decimal_value whole decs, ''s'')
          else if unit_to_seconds unit = None then None
          else Some (decimal_value whole decs, unit))"

definition positive_duration :: "fl \<Rightarrow> fl outcome" where
  "positive_duration seconds =
     (case seconds of
        Fin x \<Rightarrow> if x \<le> 0 then Inl ValueError else Inr (Fin x)
      | NegInf \<Rightarrow> Inl ValueError
      | _ \<Rightarrow> Inr seconds)"

definition parse_duration :: "duration_arg \<Rightarrow> fl outcome" where
  "parse_duration duration =
     (case duration of
        DBool _ \<Rightarrow> Inl TypeError
      | DInt n \<Rightarrow> positive_duration (Fin (of_int n))
      | DFloat f \<Rightarrow> positive_duration f
      | DStr s \<Rightarrow>
          (case interval_re s of
             None \<Rightarrow> Inl ValueError
           | Some (v, unit) \<Rightarrow> positive_duration (Fin (v * the (unit_to_seconds unit))))
      | DOther \<Rightarrow> Inl TypeError)"

section \<open>Decorators\<close>

datatype trigger_spec =
    CronSpec string
  | IntervalSpec fl
  | OnMetricSpec string
  | OnConstantSpec string
  | OnSignalSpec string
  | OnCommandSpec string string

text \<open>\<open>_attach\<close>: the list is created on first use.\<close>

definition attach_trigger :: "trigger_spec \<Rightarrow> trigger_spec list option \<Rightarrow> trigger_spec list" where
  "attach_trigger spec existing = (case existing of None \<Rightarrow> [] | Some l \<Rightarrow> l) @ [spec]"

text \<open>\<open>len(expression.split())\<close>.\<close>

fun count_words :: "bool \<Rightarrow> string \<Rightarrow> nat" where
  "count_words inside [] = (if inside then 1 else 0)"
| "count_words inside (c # cs) =
     (if is_space c then (if inside then 1 else 0) + count_words False cs else count_words True cs)"

definition cron :: "string \<Rightarrow> trigger_spec outcome" where
  "cron expression = (if count_words False expression \<noteq> 5 then Inl ValueError else Inr (CronSpec expression))"

definition every :: "duration_arg \<Rightarrow> trigger_spec outcome" where
  "every duration = bind_outcome (parse_duration duration) (\<lambda>s. Inr (IntervalSpec s))"

text \<open>A name or pattern that is not a string is no value of the model.\<close>

definition on_metric :: "string \<Rightarrow> trigger_spec outcome" where
  "on_metric input_name = (if input_name = [] then Inl ValueError else Inr (OnMetricSpec input_name))"

definition check_path_or_pattern :: "string \<Rightarrow> string outcome" where
  "check_path_or_pattern p = (if p = [] then Inl ValueError else Inr p)"

definition on_constant :: "string \<Rightarrow> trigger_spec outcome" where
  "on_constant p = bind_outcome (check_path_or_pattern p) (\<lambda>p. Inr (OnConstantSpec p))"

definition on_signal :: "string \<Rightarrow> trigger_spec outcome" where
  "on_signal p = bind_outcome (check_path_or_pattern p) (\<lambda>p. Inr (OnSignalSpec p))"

definition on_command :: "string \<Rightarrow> string \<Rightarrow> trigger_spec outcome" where
  "on_command path contract =
     bind_outcome (check_path_or_pattern path) (\<lambda>path.
       if ''+'' \<in> set (split_on (CHR ''/'') path) \<or> ''#'' \<in> set (split_on (CHR ''/'') path) then Inl ValueError
       else if take 4 contract \<noteq> ''_Cmd'' then Inl ValueError
       else Inr (OnCommandSpec (strip_char (CHR ''/'') path) contract))"

section \<open>Instants\<close>

text \<open>A timer: an interval in seconds, or a cron expression.\<close>

datatype timer = Every real | Cron string

text \<open>What the instants are computed with: the rounding of a \<open>float\<close> operation's exact result, and the cron trigger.\<close>

record clockwork =
  ck_round :: "real \<Rightarrow> real"
  ck_cron :: "string \<Rightarrow> real \<Rightarrow> real option"

definition next_tick :: "clockwork \<Rightarrow> timer \<Rightarrow> real \<Rightarrow> real option" where
  "next_tick cr spec previous =
     (case spec of Every seconds \<Rightarrow> Some (ck_round cr (previous + seconds)) | Cron expression \<Rightarrow> ck_cron cr expression previous)"

text \<open>The two loops of \<open>tick_instants\<close>; \<open>None\<close> is not returning.\<close>

partial_function (option) interval_loop :: "(real \<Rightarrow> real) \<Rightarrow> real \<Rightarrow> real \<Rightarrow> real \<Rightarrow> real \<Rightarrow> real list option" where
  "interval_loop rnd seconds start until due =
     (if due < until
      then Option.bind (interval_loop rnd seconds start until (rnd (due + seconds)))
             (\<lambda>r. Some (if start \<le> due then due # r else r))
      else Some [])"

partial_function (option) cron_loop :: "(real \<Rightarrow> real option) \<Rightarrow> real \<Rightarrow> real \<Rightarrow> real option \<Rightarrow> real list option" where
  "cron_loop nxt start until fire =
     (if fire \<noteq> None \<and> the fire < until
      then Option.bind (cron_loop nxt start until (nxt (the fire)))
             (\<lambda>r. Some (if start \<le> the fire then the fire # r else r))
      else Some [])"

definition tick_instants :: "clockwork \<Rightarrow> timer \<Rightarrow> real \<Rightarrow> real \<Rightarrow> real list option" where
  "tick_instants cr spec start until =
     (case spec of
        Every seconds \<Rightarrow>
          interval_loop (ck_round cr) seconds start until
            (ck_round cr (ck_round cr (of_int \<lceil>ck_round cr (start / seconds)\<rceil>) * seconds))
      | Cron _ \<Rightarrow> cron_loop (next_tick cr spec) start until (next_tick cr spec (ck_round cr (start - 1))))"


section \<open>The instants of a timer\<close>

text \<open>What \<open>apscheduler\<close> promises of a cron expression: its fire times are whole minutes, so at least a minute apart,
  and the next one after an instant is the first that is later.\<close>

definition cron_ok :: "(real \<Rightarrow> real option) \<Rightarrow> real set \<Rightarrow> bool" where
  "cron_ok nxt F \<longleftrightarrow>
     (\<forall>f \<in> F. \<forall>g \<in> F. f < g \<longrightarrow> f + 60 \<le> g)
     \<and> (\<forall>t. case nxt t of None \<Rightarrow> \<forall>f \<in> F. f \<le> t | Some f \<Rightarrow> f \<in> F \<and> t < f \<and> (\<forall>g \<in> F. t < g \<longrightarrow> f \<le> g))"

fun fires :: "(string \<Rightarrow> real set) \<Rightarrow> timer \<Rightarrow> real set" where
  "fires F (Every seconds) = {of_int k * seconds |k. True}"
| "fires F (Cron expression) = F expression"

text \<open>What makes a timer's instants exact from \<open>lo\<close> to \<open>hi\<close>. An interval: the multiples of it in the range, and
  their numbers, are \<open>float\<close>s, and no quotient is rounded past a whole number (\<open>whole_seconds_exact\<close>: so it is in binary64 for
  every whole number of seconds). A cron expression: \<open>apscheduler\<close>'s promise.\<close>

fun timer_ok :: "clockwork \<Rightarrow> (string \<Rightarrow> real set) \<Rightarrow> real \<Rightarrow> real \<Rightarrow> timer \<Rightarrow> bool" where
  "timer_ok cr F lo hi (Every seconds) \<longleftrightarrow>
     0 < seconds
     \<and> (\<forall>k::int. lo - seconds \<le> of_int k * seconds \<and> of_int k * seconds \<le> hi + seconds
          \<longrightarrow> ck_round cr (of_int k) = of_int k \<and> ck_round cr (of_int k * seconds) = of_int k * seconds)
     \<and> (\<forall>t. lo \<le> t \<and> t \<le> hi \<longrightarrow>
          of_int (\<lceil>t / seconds\<rceil> - 1) \<le> ck_round cr (t / seconds) \<and> ck_round cr (t / seconds) \<le> of_int \<lceil>t / seconds\<rceil>)"
| "timer_ok cr F lo hi (Cron expression) \<longleftrightarrow>
     cron_ok (ck_cron cr expression) (F expression) \<and> (\<forall>t. lo \<le> t \<and> t \<le> hi \<longrightarrow> ck_round cr (t - 1) < t)"

lemma timer_ok_mono: "timer_ok cr F lo hi spec \<Longrightarrow> lo \<le> lo' \<Longrightarrow> hi' \<le> hi \<Longrightarrow> timer_ok cr F lo' hi' spec"
  by (cases spec) auto

text \<open>\<open>nxt\<close> walks \<open>F\<close>, in steps of \<open>d\<close> at least.\<close>

definition walks :: "real \<Rightarrow> (real \<Rightarrow> real option) \<Rightarrow> real set \<Rightarrow> bool" where
  "walks d nxt F \<longleftrightarrow> 0 < d
     \<and> (\<forall>t \<in> F. case nxt t of None \<Rightarrow> \<forall>g \<in> F. g \<le> t | Some f \<Rightarrow> f \<in> F \<and> t + d \<le> f \<and> (\<forall>g \<in> F. t < g \<longrightarrow> f \<le> g))"

fun from_on :: "real option \<Rightarrow> real \<Rightarrow> bool" where
  "from_on None t = False"
| "from_on (Some f) t = (f \<le> t)"

lemma cron_loop_result:
  assumes "walks d nxt F" "\<forall>f. fire = Some f \<longrightarrow> f \<in> F"
  shows "\<exists>r. cron_loop nxt start until fire = Some r \<and> sorted_wrt (<) r
     \<and> set r = {t \<in> F. start \<le> t \<and> t < until \<and> from_on fire t}"
  using assms(2)
proof (induction "case fire of None \<Rightarrow> 0 | Some f \<Rightarrow> nat \<lceil>(until - f) / d\<rceil>" arbitrary: fire rule: less_induct)
  case less
  have d: "0 < d" using assms(1) by (simp add: walks_def)
  show ?case
  proof (cases fire)
    case None
    then show ?thesis by (simp add: cron_loop.simps)
  next
    case (Some f)
    then have f: "f \<in> F" using less.prems by simp
    show ?thesis
    proof (cases "f < until")
      case False
      then show ?thesis using Some by (auto simp: cron_loop.simps)
    next
      case True
      have n: "case nxt f of None \<Rightarrow> \<forall>g \<in> F. g \<le> f | Some f' \<Rightarrow> f' \<in> F \<and> f + d \<le> f' \<and> (\<forall>g \<in> F. f < g \<longrightarrow> f' \<le> g)"
        using assms(1) f unfolding walks_def by blast
      have pos: "0 < \<lceil>(until - f) / d\<rceil>" using True d by simp
      have "(case nxt f of None \<Rightarrow> 0 | Some f' \<Rightarrow> nat \<lceil>(until - f') / d\<rceil>) < nat \<lceil>(until - f) / d\<rceil>"
      proof (cases "nxt f")
        case (Some f')
        then have "until - f' \<le> (until - f) - d" using n by simp
          then have "(until - f') / d \<le> ((until - f) - d) / d" using d by (intro divide_right_mono) auto
          then have "(until - f') / d \<le> (until - f) / d - 1" using d by (simp add: diff_divide_distrib)
        then have "\<lceil>(until - f') / d\<rceil> \<le> \<lceil>(until - f) / d\<rceil> - 1" by (metis ceiling_mono ceiling_diff_one)
        then show ?thesis using Some pos by simp
      qed (use pos in simp)
      then obtain r where r: "cron_loop nxt start until (nxt f) = Some r" "sorted_wrt (<) r"
        "set r = {t \<in> F. start \<le> t \<and> t < until \<and> from_on (nxt f) t}"
        using less.hyps [of "nxt f"] Some n by (auto split: option.splits)
      have later: "t \<in> F \<and> from_on (nxt f) t \<longleftrightarrow> t \<in> F \<and> f < t" for t
        using n d by (cases "nxt f") auto
      have "set (if start \<le> f then f # r else r) = {t \<in> F. start \<le> t \<and> t < until \<and> f \<le> t}"
        using r(3) later f True by (auto simp: less_le)
      moreover have "sorted_wrt (<) (if start \<le> f then f # r else r)" using r(2,3) later by auto
      moreover have "cron_loop nxt start until fire = Some (if start \<le> f then f # r else r)"
        by (subst cron_loop.simps) (simp add: Some True r(1))
      ultimately show ?thesis using Some by (intro exI [of _ "if start \<le> f then f # r else r"]) simp
    qed
  qed
qed

lemma interval_loop_over: "\<not> due < until \<Longrightarrow> interval_loop rnd seconds start until due = Some []"
  by (simp add: interval_loop.simps)

lemma interval_loop_more:
  "due < until \<Longrightarrow> interval_loop rnd seconds start until due
     = Option.bind (interval_loop rnd seconds start until (rnd (due + seconds)))
         (\<lambda>r. Some (if start \<le> due then due # r else r))"
  by (subst interval_loop.simps) simp

text \<open>Where no sum is rounded, the loop is that of a timer that adds the interval.\<close>

lemma interval_loop_cron:
  assumes "0 < seconds" "lo \<le> of_int k * seconds"
    "\<forall>k::int. lo \<le> of_int k * seconds \<and> of_int k * seconds \<le> until + seconds \<longrightarrow> rnd (of_int k * seconds) = of_int k * seconds"
  shows "interval_loop rnd seconds start until (of_int k * seconds)
     = cron_loop (\<lambda>t. Some (t + seconds)) start until (Some (of_int k * seconds))"
  using assms(2)
proof (induction "nat \<lceil>(until - of_int k * seconds) / seconds\<rceil>" arbitrary: k rule: less_induct)
  case less
  let ?due = "of_int k * seconds"
  show ?case
  proof (cases "?due < until")
    case True
    have eq: "?due + seconds = of_int (k + 1) * seconds" by (simp add: algebra_simps)
    have "lo \<le> of_int (k + 1) * seconds \<and> of_int (k + 1) * seconds \<le> until + seconds"
      unfolding eq [symmetric] using less.prems True assms(1) by simp
    then have rnd: "rnd (of_int (k + 1) * seconds) = of_int (k + 1) * seconds" and lo: "lo \<le> of_int (k + 1) * seconds"
      using assms(3) by blast+
    have "(until - of_int (k + 1) * seconds) / seconds = (until - ?due) / seconds - 1" using assms(1) by (simp add: field_simps)
    moreover have "0 < \<lceil>(until - ?due) / seconds\<rceil>" using True assms(1) by simp
    ultimately have "nat \<lceil>(until - of_int (k + 1) * seconds) / seconds\<rceil> < nat \<lceil>(until - ?due) / seconds\<rceil>"
      by (simp only:) linarith
    from less.hyps [OF this lo] show ?thesis
      by (subst interval_loop.simps, subst cron_loop.simps) (simp only: rnd eq option.sel option.distinct True if_True simp_thms cong: if_cong)
  qed (simp add: interval_loop.simps cron_loop.simps)
qed

lemma walks_interval: "0 < s \<Longrightarrow> walks s (\<lambda>t. Some (t + s)) {of_int k * s |k. True}"
  unfolding walks_def
proof (intro conjI ballI)
  fix t assume s: "0 < s" and "t \<in> {of_int k * s |k. True}"
  then obtain k :: int where t: "t = of_int k * s" by blast
  have eq: "t + s = of_int (k + 1) * s" by (simp add: t algebra_simps)
  then have "t + s \<in> {of_int k * s |k. True}" by blast
  moreover have "t + s \<le> of_int j * s" if "t < of_int j * s" for j
  proof -
    have "of_int k < (of_int j :: real)" using that s by (simp add: t)
    then have "k + 1 \<le> j" by linarith
    then have "(of_int (k + 1) :: real) \<le> of_int j" by (simp only: of_int_le_iff)
    then show ?thesis using s eq mult_right_mono [of "of_int (k + 1)" "of_int j" s] by simp
  qed
  ultimately show "case Some (t + s) of None \<Rightarrow> \<forall>g \<in> {of_int k * s |k. True}. g \<le> t
      | Some f \<Rightarrow> f \<in> {of_int k * s |k. True} \<and> t + s \<le> f \<and> (\<forall>g \<in> {of_int k * s |k. True}. t < g \<longrightarrow> f \<le> g)"
    by (simp only: option.case) blast
qed

text \<open>Every fire time of the window, once, in order.\<close>

lemma tick_instants_result:
  assumes "timer_ok cr F lo hi spec" "lo \<le> start" "start \<le> hi" "until \<le> hi"
  shows "\<exists>r. tick_instants cr spec start until = Some r \<and> sorted_wrt (<) r \<and> set r = {t \<in> fires F spec. start \<le> t \<and> t < until}"
proof (cases spec)
  case (Every s)
  let ?rnd = "ck_round cr" and ?n = "\<lceil>ck_round cr (start / s)\<rceil>"
  have s: "0 < s" using assms(1) Every by simp
  have exact: "?rnd (of_int k) = of_int k" "?rnd (of_int k * s) = of_int k * s"
    if "lo - s \<le> of_int k * s" "of_int k * s \<le> hi + s" for k :: int
    using assms(1) that unfolding Every timer_ok.simps by blast+
  have q: "of_int (\<lceil>start / s\<rceil> - 1) \<le> ?rnd (start / s)" "?rnd (start / s) \<le> of_int \<lceil>start / s\<rceil>"
    using assms unfolding Every timer_ok.simps by blast+
  have n: "\<lceil>start / s\<rceil> - 1 \<le> ?n" "?n \<le> \<lceil>start / s\<rceil>" using q by (linarith, simp only: ceiling_le_iff)
  have "start / s \<le> of_int (?n + 1)" using n(1) by linarith
  then have "start - s \<le> of_int ?n * s" using s by (simp add: field_simps)
  then have lo: "lo - s \<le> of_int ?n * s" using assms(2) by linarith
  have "of_int ?n - 1 < start / s" using n(2) by linarith
  then have "of_int ?n * s < start + s" using s by (simp add: field_simps)
  then have hi: "of_int ?n * s \<le> hi + s" using assms(3) by linarith
  have "of_int ?n * s \<le> t" if t: "t \<in> fires F spec" "start \<le> t" for t
  proof -
    obtain k :: int where k: "t = of_int k * s" using t Every by auto
    then have "start / s \<le> of_int k" using t(2) s by (simp add: field_simps)
    then have "\<lceil>start / s\<rceil> \<le> k" by (rule ceiling_le)
    then have "(of_int ?n :: real) \<le> of_int k" using n(2) by (simp only: of_int_le_iff)
    then show ?thesis using s by (simp add: k)
  qed
  then have "{t \<in> fires F spec. start \<le> t \<and> t < until \<and> from_on (Some (of_int ?n * s)) t} = {t \<in> fires F spec. start \<le> t \<and> t < until}"
    by auto
  moreover have "\<exists>r. cron_loop (\<lambda>t. Some (t + s)) start until (Some (of_int ?n * s)) = Some r \<and> sorted_wrt (<) r
      \<and> set r = {t \<in> {of_int k * s |k. True}. start \<le> t \<and> t < until \<and> from_on (Some (of_int ?n * s)) t}"
    by (rule cron_loop_result [OF walks_interval [OF s]]) blast
  moreover have "tick_instants cr spec start until = cron_loop (\<lambda>t. Some (t + s)) start until (Some (of_int ?n * s))"
    unfolding tick_instants_def Every timer.case exact [OF lo hi]
    by (rule interval_loop_cron [OF s lo]) (use exact assms(4) in auto)
  ultimately show ?thesis by (simp add: Every)
next
  case (Cron e)
  let ?n = "ck_cron cr e" and ?from = "ck_round cr (start - 1)"
  have ok: "cron_ok ?n (F e)" and from_: "?from < start" using assms Cron by auto
  have n: "case ?n t of None \<Rightarrow> \<forall>f \<in> F e. f \<le> t | Some f \<Rightarrow> f \<in> F e \<and> t < f \<and> (\<forall>g \<in> F e. t < g \<longrightarrow> f \<le> g)" for t
    using ok unfolding cron_ok_def by blast
  have "\<forall>f \<in> F e. \<forall>g \<in> F e. f < g \<longrightarrow> f + 60 \<le> g" using ok unfolding cron_ok_def by blast
  have "walks 60 ?n (F e)"
    unfolding walks_def
  proof (intro conjI ballI)
    fix t assume "t \<in> F e"
    then show "case ?n t of None \<Rightarrow> \<forall>g \<in> F e. g \<le> t | Some f \<Rightarrow> f \<in> F e \<and> t + 60 \<le> f \<and> (\<forall>g \<in> F e. t < g \<longrightarrow> f \<le> g)"
      using n [of t] \<open>\<forall>f \<in> F e. \<forall>g \<in> F e. f < g \<longrightarrow> f + 60 \<le> g\<close> by (cases "?n t") auto
  qed simp
  moreover have "\<forall>f. ?n ?from = Some f \<longrightarrow> f \<in> F e" using n [of ?from] by auto
  moreover have "from_on (?n ?from) t" if "t \<in> F e" "start \<le> t" for t
    using n [of ?from] that from_ by (cases "?n ?from") auto
  moreover have "next_tick cr spec = ?n" using Cron by (simp add: next_tick_def fun_eq_iff)
  ultimately show ?thesis using cron_loop_result [of 60 ?n "F e" "?n ?from" start until] Cron
    by (auto simp: tick_instants_def)
qed

section \<open>Binary64\<close>

text \<open>Rounding to the nearest \<open>float\<close>, of two equally near ones to the even one; neither overflow nor subnormal numbers.\<close>

definition ulp :: "real \<Rightarrow> real" where
  "ulp x = (if x = 0 then 1 else 2 powi (\<lfloor>log 2 \<bar>x\<bar>\<rfloor> - 52))"

definition half_even :: "real \<Rightarrow> int" where
  "half_even y =
     (if y - of_int \<lfloor>y\<rfloor> < 1 / 2 \<or> y - of_int \<lfloor>y\<rfloor> = 1 / 2 \<and> even \<lfloor>y\<rfloor> then \<lfloor>y\<rfloor> else \<lfloor>y\<rfloor> + 1)"

definition binary64 :: "real \<Rightarrow> real" where
  "binary64 x = of_int (half_even (x / ulp x)) * ulp x"

lemma half_even_int [simp]: "half_even (of_int n) = n"
  by (simp add: half_even_def)

lemma half_even_between:
  assumes "of_int i \<le> y" "y \<le> of_int j" shows "i \<le> half_even y \<and> half_even y \<le> j"
proof (cases "y = of_int j")
  case False
  then have "i \<le> \<lfloor>y\<rfloor>" "\<lfloor>y\<rfloor> < j" using assms by (simp_all add: le_floor_iff floor_less_iff)
  then show ?thesis by (simp add: half_even_def)
qed (use assms in simp)

text \<open>Below \<open>2 ^ 53\<close> the whole numbers are \<open>float\<close>s, and nothing is rounded past one.\<close>

lemma ulp_small:
  assumes "\<bar>x\<bar> < 2 ^ 53" shows "\<exists>m::nat. ulp x = 1 / 2 ^ m"
proof (cases "x = 0")
  case False
  have "log 2 \<bar>x\<bar> < log 2 (2 ^ 53)" using assms False by (subst log_less_cancel_iff) simp_all
  also have "log 2 (2 ^ 53) = (53::real)" by (subst log_pow_cancel) simp_all
  finally have "log 2 \<bar>x\<bar> < 53" .
  then have "\<lfloor>log 2 \<bar>x\<bar>\<rfloor> \<le> 52" by linarith
  then have "ulp x = 1 / 2 ^ nat (52 - \<lfloor>log 2 \<bar>x\<bar>\<rfloor>)" using False unfolding ulp_def by (simp add: power_int_def field_simps)
  then show ?thesis ..
qed (auto simp: ulp_def intro!: exI [of _ 0])

lemma binary64_int: "\<bar>n\<bar> < 2 ^ 53 \<Longrightarrow> binary64 (of_int n) = of_int n"
proof -
  assume "\<bar>n\<bar> < 2 ^ 53"
  then have small: "\<bar>of_int n :: real\<bar> < 2 ^ 53" by (simp flip: of_int_abs)
  from ulp_small [OF small] obtain m where u: "ulp (of_int n) = 1 / 2 ^ m" by blast
  have "of_int n / ulp (of_int n) = (of_int (n * 2 ^ m) :: real)" by (simp add: u)
  then show ?thesis unfolding binary64_def by (simp only: half_even_int) (simp add: u)
qed

lemma binary64_between:
  assumes "\<bar>x\<bar> < 2 ^ 53" "of_int i \<le> x" "x \<le> of_int j" shows "of_int i \<le> binary64 x \<and> binary64 x \<le> of_int j"
proof -
  from ulp_small [OF assms(1)] obtain m where u: "ulp x = 1 / 2 ^ m" by blast
  have "of_int (i * 2 ^ m) \<le> x / ulp x" "x / ulp x \<le> of_int (j * 2 ^ m)" using assms(2,3) by (simp_all add: u)
  from half_even_between [OF this]
  have "(of_int (i * 2 ^ m) :: real) \<le> of_int (half_even (x / ulp x))" "(of_int (half_even (x / ulp x)) :: real) \<le> of_int (j * 2 ^ m)"
    by (simp_all only: of_int_le_iff)
  then show ?thesis by (simp add: binary64_def u field_simps)
qed

text \<open>A timer of whole seconds is exact for 285 million years.\<close>

lemma whole_seconds_exact:
  assumes "0 < n" "- (2 ^ 53) < lo - of_int n" "hi + of_int n < 2 ^ 53"
  shows "timer_ok \<lparr>ck_round = binary64, ck_cron = cn\<rparr> F lo hi (Every (of_int n))"
proof -
  have n: "1 \<le> (of_int n :: real)" using assms(1) by simp
  have small: "\<bar>t / of_int n\<bar> < 2 ^ 53" if "\<bar>t\<bar> < 2 ^ 53" for t :: real
    
  proof -
    have "\<bar>t / of_int n\<bar> \<le> \<bar>t\<bar> / 1" unfolding abs_divide using n by (intro divide_left_mono) auto
    then show ?thesis using that by simp
  qed
  have ints: "\<bar>k\<bar> < 2 ^ 53" "\<bar>k * n\<bar> < 2 ^ 53" if "lo - of_int n \<le> of_int k * of_int n" "of_int k * of_int n \<le> hi + of_int n" for k
  proof -
    have "(of_int (- (2 ^ 53)) :: real) < of_int (k * n)" "(of_int (k * n) :: real) < of_int (2 ^ 53)" using that assms(2,3) by simp_all
    then have "- (2 ^ 53) < k * n" "k * n < 2 ^ 53" by (simp_all only: of_int_less_iff)
    then show kn: "\<bar>k * n\<bar> < 2 ^ 53" by linarith
    have "\<bar>k\<bar> \<le> \<bar>k * n\<bar>" using assms(1) mult_left_mono [of 1 n "\<bar>k\<bar>"] by (simp add: abs_mult)
    then show "\<bar>k\<bar> < 2 ^ 53" using kn by linarith
  qed
  show ?thesis
    unfolding timer_ok.simps clockwork.select_convs
  proof (intro conjI allI impI; (elim conjE)?)
    show "binary64 (of_int k) = of_int k" if "lo - of_int n \<le> of_int k * of_int n" "of_int k * of_int n \<le> hi + of_int n" for k
      using binary64_int [OF ints(1) [OF that]] .
    show "binary64 (of_int k * of_int n) = of_int k * of_int n"
      if "lo - of_int n \<le> of_int k * of_int n" "of_int k * of_int n \<le> hi + of_int n" for k
      using binary64_int [OF ints(2) [OF that]] by simp
    fix t assume t: "lo \<le> t" "t \<le> hi"
    then have "\<bar>t\<bar> < 2 ^ 53" using assms n by linarith
    have "of_int (\<lceil>t / of_int n\<rceil> - 1) \<le> t / of_int n" "t / of_int n \<le> of_int \<lceil>t / of_int n\<rceil>" by linarith+
    from binary64_between [OF small [OF \<open>\<bar>t\<bar> < 2 ^ 53\<close>] this]
    show "of_int (\<lceil>t / of_int n\<rceil> - 1) \<le> binary64 (t / of_int n)" "binary64 (t / of_int n) \<le> of_int \<lceil>t / of_int n\<rceil>"
      by blast+
  qed (use assms(1) in simp)
qed

text \<open>An interval of a tenth of a second is no \<open>float\<close>, and its sums are rounded: the ninth instant, which the window that ends
  at 0.8 reaches by adding, lies before 0.8, and the next window begins with it again; one window over both fires it once.\<close>

lemma half_even_at: "\<bar>y - of_int n\<bar> < 1 / 2 \<or> \<bar>y - of_int n\<bar> = 1 / 2 \<and> even n \<Longrightarrow> half_even y = n"
proof -
  assume n: "\<bar>y - of_int n\<bar> < 1 / 2 \<or> \<bar>y - of_int n\<bar> = 1 / 2 \<and> even n"
  show "half_even y = n"
  proof (cases "of_int n \<le> y")
    case True
    then have "\<lfloor>y\<rfloor> = n" using n by (auto simp: floor_eq_iff)
    then show ?thesis using n True by (auto simp: half_even_def)
  next
    case False
    then have f: "\<lfloor>y\<rfloor> = n - 1" using n by (auto simp: floor_eq_iff)
    show ?thesis unfolding half_even_def f using n False by auto
  qed
qed

lemma binary64_at:
  assumes "2 powi e \<le> x" "x < 2 powi (e + 1)"
    "\<bar>x / 2 powi (e - 52) - of_int n\<bar> < 1 / 2 \<or> \<bar>x / 2 powi (e - 52) - of_int n\<bar> = 1 / 2 \<and> even n"
    "z = of_int n * 2 powi (e - 52)"
  shows "binary64 x = z"
proof -
  have x: "0 < x" using assms(1) by (metis less_le_trans zero_less_power_int zero_less_numeral)
  have "2 powr of_int e \<le> x" "x < 2 powr (of_int e + 1)"
    using assms(1,2) powr_real_of_int' [of 2 e] powr_real_of_int' [of 2 "e + 1"] by simp_all
  then have "\<lfloor>log 2 x\<rfloor> = e" using x by (subst floor_log_eq_powr_iff) simp_all
  then have "ulp x = 2 powi (e - 52)" using x by (simp add: ulp_def)
  then show ?thesis using half_even_at [OF assms(3)] assms(4) by (simp add: binary64_def)
qed

lemma tenth_second_fires_twice:
  fixes tenth :: real
  defines "tenth \<equiv> 7205759403792794 / 72057594037927936" and "ck \<equiv> \<lparr>ck_round = binary64, ck_cron = \<lambda>_ _. None\<rparr>"
  shows "tick_instants ck (Every tenth) 0 (17 / 20) = tick_instants ck (Every tenth) 0 (8 * tenth)
     \<and> map_option length (tick_instants ck (Every tenth) 0 (8 * tenth)) = Some 9
     \<and> tick_instants ck (Every tenth) (8 * tenth) (17 / 20) = Some [8 * tenth]"
proof -
  have r1: "binary64 (3602879701896397 / 36028797018963968) = 3602879701896397 / 36028797018963968"
    by (rule binary64_at [of "-4" _ 7205759403792794]) (simp_all add: power_int_def power_divide)
  have r2: "binary64 (3602879701896397 / 18014398509481984) = 3602879701896397 / 18014398509481984"
    by (rule binary64_at [of "-3" _ 7205759403792794]) (simp_all add: power_int_def power_divide)
  have r3: "binary64 (10808639105689191 / 36028797018963968) = 1351079888211149 / 4503599627370496"
    by (rule binary64_at [of "-2" _ 5404319552844596]) (simp_all add: power_int_def power_divide)
  have r4: "binary64 (14411518807585589 / 36028797018963968) = 3602879701896397 / 9007199254740992"
    by (rule binary64_at [of "-2" _ 7205759403792794]) (simp_all add: power_int_def power_divide)
  have r5: "binary64 (18014398509481985 / 36028797018963968) = 1 / 2"
    by (rule binary64_at [of "-1" _ 4503599627370496]) (simp_all add: power_int_def power_divide)
  have r6: "binary64 (21617278211378381 / 36028797018963968) = 5404319552844595 / 9007199254740992"
    by (rule binary64_at [of "-1" _ 5404319552844595]) (simp_all add: power_int_def power_divide)
  have r7: "binary64 (25220157913274777 / 36028797018963968) = 3152519739159347 / 4503599627370496"
    by (rule binary64_at [of "-1" _ 6305039478318694]) (simp_all add: power_int_def power_divide)
  have r8: "binary64 (28823037615171173 / 36028797018963968) = 7205759403792793 / 9007199254740992"
    by (rule binary64_at [of "-1" _ 7205759403792793]) (simp_all add: power_int_def power_divide)
  have r9: "binary64 (32425917317067569 / 36028797018963968) = 2026619832316723 / 2251799813685248"
    by (rule binary64_at [of "-1" _ 8106479329266892]) (simp_all add: power_int_def power_divide)
  have r10: "binary64 (32425917317067573 / 36028797018963968) = 8106479329266893 / 9007199254740992"
    by (rule binary64_at [of "-1" _ 8106479329266893]) (simp_all add: power_int_def power_divide)
  have a: "binary64 (3602879701896397 / 4503599627370496) = 3602879701896397 / 4503599627370496"
    by (rule binary64_at [of "-1" _ 7205759403792794]) (simp_all add: power_int_def power_divide)
  have z: "binary64 0 = 0" "binary64 8 = 8" using binary64_int [of 0] binary64_int [of 8] by simp_all
  note loop = interval_loop_more interval_loop_over
  show ?thesis
    unfolding tick_instants_def timer.case ck_def clockwork.select_convs tenth_def
    by (simp add: z r1 r2 r3 r4 r5 r6 r7 r8 r9 r10 a loop)
qed

section \<open>Properties\<close>

text \<open>C18: Windows that tile a range fire every instant exactly once, where the timer's arithmetic is exact over the range
  (an interval of whole seconds in binary64, a cron expression). The computation of a timer's instants in a
  window ends and gives each fire time of the half-open window once, in order; two adjacent windows give
  together what the window over both gives.\<close>

theorem tick_windows_tile:
  assumes "timer_ok cr F a c spec" "a \<le> b" "b \<le> c"
  shows "\<exists>r s. tick_instants cr spec a b = Some r \<and> tick_instants cr spec b c = Some s
     \<and> tick_instants cr spec a c = Some (r @ s)
     \<and> sorted_wrt (<) (r @ s) \<and> set (r @ s) = {t \<in> fires F spec. a \<le> t \<and> t < c}"
proof -
  note res = tick_instants_result [OF assms(1)]
  obtain r where r: "tick_instants cr spec a b = Some r" "sorted_wrt (<) r" "set r = {t \<in> fires F spec. a \<le> t \<and> t < b}"
    using res [of a b] assms(2,3) by auto
  obtain s where s: "tick_instants cr spec b c = Some s" "sorted_wrt (<) s" "set s = {t \<in> fires F spec. b \<le> t \<and> t < c}"
    using res [of b c] assms(2,3) by auto
  obtain u where u: "tick_instants cr spec a c = Some u" "sorted_wrt (<) u" "set u = {t \<in> fires F spec. a \<le> t \<and> t < c}"
    using res [of a c] assms(2,3) by auto
  have set: "set (r @ s) = {t \<in> fires F spec. a \<le> t \<and> t < c}" using r(3) s(3) assms(2,3) by auto
  have "\<forall>x \<in> set r. \<forall>y \<in> set s. x < y" using r(3) s(3) by auto
  then have so: "sorted_wrt (<) (r @ s)" using r(2) s(2) by (auto simp: sorted_wrt_append)
  then have "u = r @ s" using u(2,3) set strict_sorted_equal by blast
  then show ?thesis using r(1) s(1) u(1) so set by blast
qed

text \<open>An interval of ten seconds, computed in binary64, over windows that end on an instant.\<close>

theorem tick_windows_tile_witness:
  "\<exists>r s. tick_instants \<lparr>ck_round = binary64, ck_cron = \<lambda>_ _. None\<rparr> (Every 10) 5 20 = Some r
     \<and> tick_instants \<lparr>ck_round = binary64, ck_cron = \<lambda>_ _. None\<rparr> (Every 10) 20 45 = Some s
     \<and> tick_instants \<lparr>ck_round = binary64, ck_cron = \<lambda>_ _. None\<rparr> (Every 10) 5 45 = Some (r @ s)
     \<and> r @ s = [10, 20, 30, 40]"
proof -
  have ok: "timer_ok \<lparr>ck_round = binary64, ck_cron = \<lambda>_ _. None\<rparr> (\<lambda>_. {}) 5 45 (Every 10)"
    using whole_seconds_exact [of 10 5 45 "\<lambda>_ _. None" "\<lambda>_. {}"] by simp
  obtain r s where rs: "tick_instants \<lparr>ck_round = binary64, ck_cron = \<lambda>_ _. None\<rparr> (Every 10) 5 20 = Some r"
    "tick_instants \<lparr>ck_round = binary64, ck_cron = \<lambda>_ _. None\<rparr> (Every 10) 20 45 = Some s"
    "tick_instants \<lparr>ck_round = binary64, ck_cron = \<lambda>_ _. None\<rparr> (Every 10) 5 45 = Some (r @ s)"
    "sorted_wrt (<) (r @ s)" "set (r @ s) = {t \<in> fires (\<lambda>_. {}) (Every 10). 5 \<le> t \<and> t < 45}"
    using tick_windows_tile [OF ok, of 20] by auto
  have "{t \<in> fires (\<lambda>_. {}) (Every 10). 5 \<le> t \<and> t < 45} = {10, 20, 30, 40}"
  proof (intro set_eqI iffI)
    fix t assume "t \<in> {t \<in> fires (\<lambda>_. {}) (Every 10). 5 \<le> t \<and> t < 45}"
    then obtain k :: int where k: "t = of_int k * 10" "5 \<le> t" "t < 45" by auto
    then have "1 \<le> k" "k \<le> 4" by linarith+
    then have "k \<in> {1, 2, 3, 4}" by auto
    then show "t \<in> {10, 20, 30, 40}" using k(1) by auto
  next
    fix t :: real assume "t \<in> {10, 20, 30, 40}"
    then have "t = of_int 1 * 10 \<or> t = of_int 2 * 10 \<or> t = of_int 3 * 10 \<or> t = of_int 4 * 10" by auto
    then have "\<exists>k::int. t = of_int k * 10" by blast
    then show "t \<in> {t \<in> fires (\<lambda>_. {}) (Every 10). 5 \<le> t \<and> t < 45}" using \<open>t \<in> {10, 20, 30, 40}\<close> by auto
  qed
  then have "set (r @ s) = set [10, 20, 30, 40]" using rs(5) by simp
  moreover have "sorted_wrt (<) [10, 20, 30, 40 :: real]" by simp
  ultimately have "r @ s = [10, 20, 30, 40]" using rs(4) strict_sorted_equal by blast
  then show ?thesis using rs(1-3) by blast
qed

section \<open>The text of a duration\<close>

text \<open>What \<open>_INTERVAL_RE\<close> matches, with its two groups: the number (with or without decimals) and the unit.\<close>

definition matches_re :: "string \<Rightarrow> string \<Rightarrow> string option \<Rightarrow> string \<Rightarrow> bool" where
  "matches_re text whole point unit \<longleftrightarrow>
     (\<exists>sp1 sp2 sp3. text = sp1 @ whole @ (case point of None \<Rightarrow> [] | Some ds \<Rightarrow> CHR ''.'' # ds) @ sp2 @ unit @ sp3
        \<and> (\<forall>c \<in> set (sp1 @ sp2 @ sp3). is_space c))
     \<and> whole \<noteq> [] \<and> (\<forall>c \<in> set whole. is_digit c)
     \<and> (\<forall>ds. point = Some ds \<longrightarrow> ds \<noteq> [] \<and> (\<forall>c \<in> set ds. is_digit c))
     \<and> (unit = [] \<or> unit_to_seconds unit \<noteq> None)"

lemma digit_no_space: "is_digit c \<Longrightarrow> \<not> is_space c"
  by (auto simp: is_digit_def is_space_def)

lemma dot_no_digit [simp]: "\<not> is_digit CHR ''.''" "\<not> is_space CHR ''.''"
  by (simp_all add: is_digit_def is_space_def)

lemma unit_letters:
  assumes "unit_to_seconds u = Some x"
  shows "u \<noteq> [] \<and> (\<forall>c \<in> set u. \<not> is_space c) \<and> \<not> is_digit (hd u) \<and> hd u \<noteq> CHR ''.'' \<and> 0 < x"
  using assms by (auto simp: unit_to_seconds_def is_space_def is_digit_def split: if_splits)

lemma takeWhile_stop: "\<forall>x \<in> set xs. P x \<Longrightarrow> ys = [] \<or> \<not> P (hd ys) \<Longrightarrow> takeWhile P (xs @ ys) = xs"
  by (induction xs) (cases ys; auto)+

lemma dropWhile_stop: "\<forall>x \<in> set xs. P x \<Longrightarrow> ys = [] \<or> \<not> P (hd ys) \<Longrightarrow> dropWhile P (xs @ ys) = ys"
  by (induction xs) (cases ys; auto)+

lemma interval_re_matches:
  assumes "matches_re text whole point unit"
  shows "interval_re text
     = Some (decimal_value whole (case point of None \<Rightarrow> [] | Some ds \<Rightarrow> ds), if unit = [] then ''s'' else unit)"
proof -
  obtain sp1 sp2 sp3 where t: "text = sp1 @ whole @ (case point of None \<Rightarrow> [] | Some ds \<Rightarrow> CHR ''.'' # ds) @ sp2 @ unit @ sp3"
      and sp: "\<forall>c \<in> set sp1. is_space c" "\<forall>c \<in> set sp2. is_space c" "\<forall>c \<in> set sp3. is_space c"
    using assms unfolding matches_re_def by (metis Un_iff set_append)
  have w: "whole \<noteq> []" "\<forall>c \<in> set whole. is_digit c" and p: "\<And>ds. point = Some ds \<Longrightarrow> ds \<noteq> [] \<and> (\<forall>c \<in> set ds. is_digit c)"
    and u: "unit = [] \<or> (unit \<noteq> [] \<and> (\<forall>c \<in> set unit. \<not> is_space c) \<and> \<not> is_digit (hd unit) \<and> hd unit \<noteq> CHR ''.'' \<and> unit_to_seconds unit \<noteq> None)"
    using assms unit_letters unfolding matches_re_def by (blast, blast, blast, blast)
  let ?till = "sp2 @ unit @ sp3"
  have hdsp: "xs = [] \<or> is_space (hd xs)" if "\<forall>c \<in> set xs. is_space c" for xs using that by (cases xs) auto
  have e: "?till = [] \<or> \<not> is_digit (hd ?till) \<and> hd ?till \<noteq> CHR ''.''"
    using hdsp [OF sp(2)] hdsp [OF sp(3)] u digit_no_space dot_no_digit(2) by (cases sp2; cases unit; cases sp3) auto
  let ?pt = "case point of None \<Rightarrow> [] | Some ds \<Rightarrow> CHR ''.'' # ds"
  have pe: "?pt @ ?till = [] \<or> \<not> is_digit (hd (?pt @ ?till))" using e by (cases point) auto
  have 1: "dropWhile is_space text = whole @ ?pt @ ?till"
    unfolding t using w digit_no_space by (intro dropWhile_stop [OF sp(1)]) (cases whole; auto)
  have 2: "takeWhile is_digit (whole @ ?pt @ ?till) = whole" "dropWhile is_digit (whole @ ?pt @ ?till) = ?pt @ ?till"
    using takeWhile_stop [OF w(2) pe] dropWhile_stop [OF w(2) pe] by simp_all
  have 3: "read_number (dropWhile is_space text) = (whole, case point of None \<Rightarrow> [] | Some ds \<Rightarrow> ds, ?till)"
  proof (cases point)
    case None
    then show ?thesis using e unfolding read_number_def Let_def 1 2 by (cases ?till) auto
  next
    case (Some ds)
    have "takeWhile is_digit (ds @ ?till) = ds" "dropWhile is_digit (ds @ ?till) = ?till"
      using p [OF Some] e by (intro takeWhile_stop dropWhile_stop; blast)+
    then show ?thesis using p [OF Some] unfolding read_number_def Let_def 1 2 by (simp add: Some)
  qed
  have 4: "read_unit ?till = (unit, [])"
  proof (cases "unit = []")
    case True
    then have "dropWhile is_space ?till = []" using sp(2,3) by auto
    then show ?thesis using True unfolding read_unit_def Let_def by (simp only: takeWhile.simps dropWhile.simps)
  next
    case False
    then have "dropWhile is_space ?till = unit @ sp3" using u by (intro dropWhile_stop [OF sp(2)]) (cases unit; auto)
    moreover have "takeWhile (\<lambda>c. \<not> is_space c) (unit @ sp3) = unit" "dropWhile (\<lambda>c. \<not> is_space c) (unit @ sp3) = sp3"
      using u False hdsp [OF sp(3)] by (intro takeWhile_stop dropWhile_stop; blast)+
    moreover have "dropWhile is_space sp3 = []" using sp(3) by simp
    ultimately show ?thesis by (simp add: read_unit_def Let_def)
  qed
  show ?thesis unfolding interval_re_def 3 prod.case 4 using w(1) u by auto
qed

lemma read_number_parts:
  assumes "read_number t = (whole, decs, rest)"
  shows "\<exists>point. t = whole @ (case point of None \<Rightarrow> [] | Some ds \<Rightarrow> CHR ''.'' # ds) @ rest
     \<and> (\<forall>c \<in> set whole. is_digit c) \<and> (\<forall>ds. point = Some ds \<longrightarrow> ds \<noteq> [] \<and> (\<forall>c \<in> set ds. is_digit c))"
proof -
  let ?r = "dropWhile is_digit t"
  have w: "whole = takeWhile is_digit t" using assms by (simp add: read_number_def Let_def)
  have r: "(case ?r of c # t'' \<Rightarrow> if c = CHR ''.'' \<and> takeWhile is_digit t'' \<noteq> []
             then (takeWhile is_digit t'', dropWhile is_digit t'') else ([], ?r) | [] \<Rightarrow> ([], ?r)) = (decs, rest)"
    using assms by (simp add: read_number_def Let_def)
  have dg: "\<forall>c \<in> set whole. is_digit c" by (auto simp: w dest: set_takeWhileD)
  have t: "t = whole @ ?r" by (simp add: w)
  show ?thesis
  proof (cases "\<exists>t''. ?r = CHR ''.'' # t'' \<and> takeWhile is_digit t'' \<noteq> []")
    case True
    then obtain t'' where p: "?r = CHR ''.'' # t''" "takeWhile is_digit t'' \<noteq> []" by blast
    then have "rest = dropWhile is_digit t''" using r by simp
    then have "t = whole @ (CHR ''.'' # takeWhile is_digit t'') @ rest" using t p(1) by simp
    then show ?thesis using p(2) dg by (intro exI [of _ "Some (takeWhile is_digit t'')"]) (auto dest: set_takeWhileD)
  next
    case False
    then have "rest = ?r" using r by (auto split: list.splits if_splits)
    then show ?thesis using t dg by (intro exI [of _ None]) simp
  qed
qed

lemma read_unit_parts:
  assumes "read_unit t = (unit, [])"
  shows "\<exists>sp2 sp3. t = sp2 @ unit @ sp3 \<and> (\<forall>c \<in> set (sp2 @ sp3). is_space c)"
proof -
  let ?e = "dropWhile is_space t"
  let ?l = "dropWhile (\<lambda>c. \<not> is_space c) ?e"
  have u: "unit = takeWhile (\<lambda>c. \<not> is_space c) ?e" and l: "dropWhile is_space ?l = []"
    using assms [unfolded read_unit_def Let_def prod.inject] by blast+
  have "t = takeWhile is_space t @ unit @ ?l" unfolding u by (simp only: takeWhile_dropWhile_id)
  moreover have "\<forall>c \<in> set (takeWhile is_space t @ ?l). is_space c"
    using l [unfolded dropWhile_eq_Nil_conv] set_takeWhileD [of _ is_space t] unfolding set_append by blast
  ultimately show ?thesis by blast
qed

lemma guarded_Some:
  "(if a \<or> b then None else if c then x else if d then None else y) = Some z \<Longrightarrow> \<not> a \<and> \<not> b \<and> (c \<or> \<not> d)"
  by (auto split: if_splits)

lemma interval_re_sound:
  assumes "interval_re text = Some (v, u)"
  shows "\<exists>whole point unit. matches_re text whole point unit"
proof -
  obtain whole decs rest where n: "read_number (dropWhile is_space text) = (whole, decs, rest)" by (metis surj_pair)
  obtain unit l where r: "read_unit rest = (unit, l)" by force
  have ok: "whole \<noteq> []" "l = []" "unit = [] \<or> unit_to_seconds unit \<noteq> None"
    using guarded_Some [OF assms [unfolded interval_re_def n prod.case r]] by simp_all
  obtain point where p: "dropWhile is_space text = whole @ (case point of None \<Rightarrow> [] | Some ds \<Rightarrow> CHR ''.'' # ds) @ rest"
      "\<forall>c \<in> set whole. is_digit c" "\<forall>ds. point = Some ds \<longrightarrow> ds \<noteq> [] \<and> (\<forall>c \<in> set ds. is_digit c)"
    using read_number_parts [OF n] by blast
  obtain sp2 sp3 where s: "rest = sp2 @ unit @ sp3" "\<forall>c \<in> set (sp2 @ sp3). is_space c"
    using read_unit_parts [OF r [unfolded ok(2)]] by blast
  have "text = takeWhile is_space text @ dropWhile is_space text" by simp
  then have "text = takeWhile is_space text @ whole @ (case point of None \<Rightarrow> [] | Some ds \<Rightarrow> CHR ''.'' # ds) @ sp2 @ unit @ sp3"
    unfolding p(1) s(1) .
  moreover have "\<forall>c \<in> set (takeWhile is_space text @ sp2 @ sp3). is_space c" using s(2) by (auto dest: set_takeWhileD)
  ultimately have "matches_re text whole point unit" using ok(1,3) p(2,3) unfolding matches_re_def by blast
  then show ?thesis by blast
qed

text \<open>A duration text is accepted exactly when it matches the expression and is positive, and then it is the number times
  its unit; every other text is a \<open>ValueError\<close>.\<close>

theorem duration_text_exact:
  "(parse_duration (DStr text) = Inr d \<longleftrightarrow>
      (\<exists>whole point unit. matches_re text whole point unit
         \<and> 0 < decimal_value whole (case point of None \<Rightarrow> [] | Some ds \<Rightarrow> ds)
         \<and> d = Fin (decimal_value whole (case point of None \<Rightarrow> [] | Some ds \<Rightarrow> ds)
                    * the (unit_to_seconds (if unit = [] then ''s'' else unit)))))
   \<and> parse_duration (DStr text) \<in> Inr ` UNIV \<union> {Inl ValueError}"
proof (cases "interval_re text")
  case None
  then have "\<not> matches_re text whole point unit" for whole point unit using interval_re_matches by force
  then show ?thesis using None by (simp add: parse_duration_def)
next
  case (Some vu)
  obtain v u where vu: "vu = (v, u)" by force
  obtain whole point unit where m: "matches_re text whole point unit" using interval_re_sound Some vu by blast
  let ?v = "\<lambda>whole point. decimal_value whole (case point of None \<Rightarrow> [] | Some ds \<Rightarrow> ds)"
  have det: "?v w p = v" "(if t = [] then ''s'' else t) = u" if "matches_re text w p t" for w p t
    using interval_re_matches [OF that] Some vu by simp_all
  have "u = ''s'' \<or> unit_to_seconds u \<noteq> None" using det(2) [OF m] m by (auto simp: matches_re_def split: if_splits)
  then obtain x where x: "unit_to_seconds u = Some x" "0 < x"
    using unit_letters [of u] by (auto simp: unit_to_seconds_def)
  have p: "parse_duration (DStr text) = (if 0 < v then Inr (Fin (v * x)) else Inl ValueError)"
    using Some vu x by (simp add: parse_duration_def positive_duration_def mult_le_0_iff not_le)
  have "0 < ?v w q \<and> d = Fin (?v w q * the (unit_to_seconds (if t = [] then ''s'' else t))) \<longleftrightarrow> 0 < v \<and> d = Fin (v * x)"
    if "matches_re text w q t" for w q t using det [OF that] x(1) by simp
  then have "(\<exists>whole point unit. matches_re text whole point unit \<and> 0 < ?v whole point
         \<and> d = Fin (?v whole point * the (unit_to_seconds (if unit = [] then ''s'' else unit)))) \<longleftrightarrow> 0 < v \<and> d = Fin (v * x)"
    using m by blast
  then show ?thesis using p by auto
qed

end
