(* ===== verification/Chaski_Inputs.thy ===== *)
theory Chaski_Inputs
  imports Chaski_Triggers Chaski_Buffer
begin

text \<open>
  The inputs a producer declares (\<open>src/chaski/dataops/inputs.py\<close>): their declaration, their resolution once per pass,
  and the reads that take what is older than the buffer from an optional historian. A historian and the lookups of
  \<open>resolve\<close> are arguments; a lookup that finds nothing is the \<open>LookupError\<close> of \<open>signal_id\<close>. The
  clock is an argument.
\<close>

section \<open>A declared input\<close>

record range_input =
  ri_path :: "string option"
  ri_signal_name :: "string option"
  ri_element :: "string option"
  ri_window_s :: fl
  ri_resolved_id :: "string option"

definition range_path :: "string option \<Rightarrow> string option \<Rightarrow> string option \<Rightarrow> string option outcome" where
  "range_path signal_name element path =
     (case path of
        Some p \<Rightarrow>
          if signal_name \<noteq> None \<or> element \<noteq> None then Inl ValueError
          else if strip_char (CHR ''/'') p = [] then Inl ValueError
          else Inr (Some (strip_char (CHR ''/'') p))
      | None \<Rightarrow> if signal_name = None \<or> signal_name = Some [] then Inl ValueError else Inr None)"

definition mk_range_input :: "string option \<Rightarrow> string option \<Rightarrow> duration_arg \<Rightarrow> string option \<Rightarrow> range_input outcome" where
  "mk_range_input signal_name element window path =
     bind_outcome (range_path signal_name element path) (\<lambda>path.
     bind_outcome (parse_duration window) (\<lambda>window_s.
       Inr \<lparr>ri_path = path, ri_signal_name = (case path of None \<Rightarrow> signal_name | Some p \<Rightarrow> Some p), ri_element = element,
            ri_window_s = window_s, ri_resolved_id = None\<rparr>))"

definition forget_input :: "range_input \<Rightarrow> range_input" where
  "forget_input i = i\<lparr>ri_resolved_id := None\<rparr>"

text \<open>\<open>signal_id\<close>: \<open>at_path\<close> is \<open>resolve_signal_path\<close>, \<open>named\<close> is \<open>resolve_signal\<close>.\<close>

definition input_signal_id :: "(string \<Rightarrow> string option) \<Rightarrow> (string \<Rightarrow> string option \<Rightarrow> string option) \<Rightarrow> range_input
    \<Rightarrow> string outcome \<times> range_input" where
  "input_signal_id at_path named i =
     (case ri_resolved_id i of
        Some sid \<Rightarrow> (Inr sid, i)
      | None \<Rightarrow>
          (case (case ri_path i of Some p \<Rightarrow> at_path p | None \<Rightarrow> named (the (ri_signal_name i)) (ri_element i)) of
             None \<Rightarrow> (Inl LookupError, i)
           | Some sid \<Rightarrow> (Inr sid, i\<lparr>ri_resolved_id := Some sid\<rparr>)))"

section \<open>A historian\<close>

type_synonym rows = "(real \<times> json) list"

record historian =
  h_window :: "string \<Rightarrow> real \<Rightarrow> real \<Rightarrow> rows"
  h_latest_before :: "string \<Rightarrow> real \<Rightarrow> (real \<times> json) option"

definition history_windows :: "historian \<Rightarrow> string list \<Rightarrow> real \<Rightarrow> real \<Rightarrow> (string, rows) dict" where
  "history_windows h sids start until =
     (if sids = [] \<or> until \<le> start then map (\<lambda>sid. (sid, [])) sids
      else map (\<lambda>sid. (sid, h_window h sid start until)) sids)"

section \<open>Reads\<close>

text \<open>One input of the loop of \<open>fetch_many\<close>: its rows from the buffer, and up to where its history is wanted.\<close>

definition fetch_one :: "historian option \<Rightarrow> buffer \<Rightarrow> real \<Rightarrow> real \<Rightarrow> bool \<Rightarrow> string \<Rightarrow> (rows \<times> real option) outcome" where
  "fetch_one h b start until clamp sid =
     (case earliest sid b of
        None \<Rightarrow> Inr ([], if h \<noteq> None then Some until else None)
      | Some e \<Rightarrow>
          if start < e
          then if h = None \<and> \<not> clamp then Inl RuntimeError
               else Inr (if e < until then points sid e until b else [], if h \<noteq> None then Some (min until e) else None)
          else Inr (points sid start until b, None))"

fun fetch_all :: "historian option \<Rightarrow> buffer \<Rightarrow> real \<Rightarrow> real \<Rightarrow> bool \<Rightarrow> string list \<Rightarrow> (string, rows) dict
    \<Rightarrow> (string, real) dict \<Rightarrow> ((string, rows) dict \<times> (string, real) dict) outcome" where
  "fetch_all h b start until clamp [] out from_history = Inr (out, from_history)"
| "fetch_all h b start until clamp (sid # sids) out from_history =
     bind_outcome (fetch_one h b start until clamp sid) (\<lambda>(rows, ends).
       fetch_all h b start until clamp sids (AList.update sid rows out)
         (case ends of None \<Rightarrow> from_history | Some e \<Rightarrow> AList.update sid e from_history))"

definition fetch_many :: "historian option \<Rightarrow> buffer \<Rightarrow> string list \<Rightarrow> real \<Rightarrow> real \<Rightarrow> bool \<Rightarrow> bool \<Rightarrow> (string, rows) dict outcome" where
  "fetch_many historian b sids start until clamp history =
     (let h = (if history then historian else None) in
      bind_outcome (fetch_all h b start until clamp sids [] []) (\<lambda>(out, from_history).
        if from_history = [] then Inr out
        else
          let older = history_windows (the h) (map fst from_history) start (Max (snd ` set from_history))
          in Inr (fold (\<lambda>(sid, e) out. AList.update sid
                     (filter (\<lambda>r. fst r < e) (the (map_of older sid)) @ the (map_of out sid)) out) from_history out)))"

definition input_latest_before :: "historian option \<Rightarrow> buffer \<Rightarrow> string \<Rightarrow> real \<Rightarrow> (real \<times> json) option" where
  "input_latest_before h b sid before =
     (case latest_before sid before b of
        Some r \<Rightarrow> Some r
      | None \<Rightarrow> (case h of None \<Rightarrow> None | Some h \<Rightarrow> h_latest_before h sid before))"

definition input_is_fresh :: "historian option \<Rightarrow> buffer \<Rightarrow> string \<Rightarrow> real \<Rightarrow> real \<Rightarrow> bool" where
  "input_is_fresh h b sid freshness now =
     (case map_option fst (input_latest_before h b sid now) of None \<Rightarrow> False | Some t \<Rightarrow> now - t \<le> freshness)"

text \<open>\<open>validate_windows\<close>: every declared input of every producer, in order.\<close>

definition window_exceeds :: "fl \<Rightarrow> real \<Rightarrow> bool" where
  "window_exceeds w retention = (case w of Fin x \<Rightarrow> retention < x | PosInf \<Rightarrow> True | _ \<Rightarrow> False)"

definition validate_windows :: "range_input list list \<Rightarrow> real \<Rightarrow> bool \<Rightarrow> unit outcome" where
  "validate_windows producers retention historian_configured =
     (if \<not> historian_configured \<and> (\<exists>is \<in> set producers. \<exists>i \<in> set is. window_exceeds (ri_window_s i) retention)
      then Inl RuntimeError else Inr ())"

section \<open>One timeline\<close>

text \<open>What \<open>Historian\<close> documents: the points of the half-open window, ordered.\<close>

definition historian_ok :: "(string \<Rightarrow> rows) \<Rightarrow> historian \<Rightarrow> bool" where
  "historian_ok past h \<longleftrightarrow> (\<forall>sid. sorted (map fst (past sid)))
     \<and> (\<forall>sid start until. h_window h sid start until = filter (\<lambda>r. start \<le> fst r \<and> fst r < until) (past sid))"

text \<open>The timeline of a signal: the historian's up to the buffer's earliest point, and the buffer.\<close>

definition timeline :: "(string \<Rightarrow> rows) \<Rightarrow> buffer \<Rightarrow> string \<Rightarrow> rows" where
  "timeline past b sid =
     filter (\<lambda>r. case earliest sid b of None \<Rightarrow> True | Some e \<Rightarrow> fst r < e) (past sid) @ signal_points sid b"

lemma earliest_None: "earliest sid b = None \<longleftrightarrow> signal_points sid b = []"
  by (cases "signal_points sid b") (auto simp: earliest_def)

lemma earliest_Some: "earliest sid b = Some e \<Longrightarrow> r \<in> set (signal_points sid b) \<Longrightarrow> e \<le> fst r"
proof (cases "signal_points sid b")
  case (Cons p ps)
  have "sorted (map fst (signal_points sid b))" by (simp add: signal_points_def)
  then show "earliest sid b = Some e \<Longrightarrow> r \<in> set (signal_points sid b) \<Longrightarrow> e \<le> fst r"
    using Cons by (auto simp: earliest_def)
qed simp

lemma timeline_sorted:
  assumes "sorted (map fst (past sid))"
  shows "sorted (map fst (timeline past b sid))"
proof -
  have "sorted (map fst (filter P (past sid)))" for P using assms by (metis sorted_filter)
  moreover have "sorted (map fst (signal_points sid b))" by (simp add: signal_points_def)
  moreover have "fst x \<le> fst y" if "x \<in> set (filter (\<lambda>r. case earliest sid b of None \<Rightarrow> True | Some e \<Rightarrow> fst r < e) (past sid))"
      "y \<in> set (signal_points sid b)" for x y
    using that earliest_None [of sid b] earliest_Some [of sid b _ y] by (cases "earliest sid b") force+
  ultimately show ?thesis by (auto simp: timeline_def sorted_append)
qed

text \<open>What \<open>fetch_one\<close> takes from the buffer and what it leaves to the historian.\<close>

definition rows_between :: "real \<Rightarrow> real \<Rightarrow> rows \<Rightarrow> rows" where
  "rows_between start until rows = filter (\<lambda>r. start \<le> fst r \<and> fst r < until) rows"

lemma rows_between_append [simp]: "rows_between x y (a @ b) = rows_between x y a @ rows_between x y b"
  by (simp add: rows_between_def)

lemma rows_between_split:
  assumes "sorted (map fst rows)" "x \<le> y" "y \<le> z"
  shows "rows_between x z rows = rows_between x y rows @ rows_between y z rows"
  using assms(1)
proof (induction rows)
  case (Cons r rows)
  show ?case
  proof (cases "fst r < y")
    case True
    then show ?thesis using Cons assms(2,3) by (auto simp: rows_between_def)
  next
    case False
    then have "filter (\<lambda>s. x \<le> fst s \<and> fst s < y) rows = []" using Cons.prems by (auto simp: filter_empty_conv)
    then show ?thesis using Cons assms(2,3) False by (auto simp: rows_between_def)
  qed
qed (simp add: rows_between_def)


lemma fetch_all_result:
  assumes "\<And>sid. sid \<in> set sids \<Longrightarrow> fetch_one h b start until clamp sid = Inr (R sid, E sid)" "dict_ok ends"
  shows "\<exists>out' ends'. fetch_all h b start until clamp sids out ends = Inr (out', ends') \<and> dict_ok ends'
     \<and> (\<forall>sid. map_of out' sid = (if sid \<in> set sids then Some (R sid) else map_of out sid))
     \<and> (\<forall>sid. map_of ends' sid = (if sid \<in> set sids \<and> E sid \<noteq> None then E sid else map_of ends sid))"
  using assms
proof (induction sids arbitrary: out ends)
  case (Cons sid sids)
  let ?out = "AList.update sid (R sid) out" and ?ends = "case E sid of None \<Rightarrow> ends | Some e \<Rightarrow> AList.update sid e ends"
  have "dict_ok ?ends" using Cons.prems(2) by (auto split: option.split intro: inv_intros)
  then obtain out' ends' where r: "fetch_all h b start until clamp sids ?out ?ends = Inr (out', ends')" "dict_ok ends'"
    "\<forall>s. map_of out' s = (if s \<in> set sids then Some (R s) else map_of ?out s)"
    "\<forall>s. map_of ends' s = (if s \<in> set sids \<and> E s \<noteq> None then E s else map_of ?ends s)"
    using Cons.IH [of ?ends ?out] Cons.prems(1) by auto
  have "fetch_all h b start until clamp (sid # sids) out ends = Inr (out', ends')" using r(1) Cons.prems(1) by simp
  then show ?case using r(2-4) by (auto split: option.splits)
qed simp

lemma fold_prepend:
  assumes "dict_ok ends"
  shows "map_of (fold (\<lambda>(sid, e) out. AList.update sid (F sid e @ the (map_of out sid)) out) ends out) sid =
     (case map_of ends sid of None \<Rightarrow> map_of out sid | Some e \<Rightarrow> Some (F sid e @ the (map_of out sid)))"
  using assms
proof (induction ends arbitrary: out)
  case (Cons x ends)
  obtain s e where x: "x = (s, e)" by force
  have "map_of ends s = None" using Cons.prems by (auto simp: x map_of_eq_None_iff)
  then show ?case using Cons by (auto simp: x split: option.split)
qed simp

lemma map_of_graph: "map_of (map (\<lambda>s. (s, f s)) ss) x = (if x \<in> set ss then Some (f x) else None)"
  by (induction ss) auto

text \<open>A read of the buffer and the historian is a window of the timeline.\<close>

lemma fetch_many_timeline:
  assumes ok: "\<forall>h. historian = Some h \<longrightarrow> historian_ok past h" and clamp: "clamp \<or> (history \<and> historian \<noteq> None)"
  shows "\<exists>out. fetch_many historian b sids start until clamp history = Inr out \<and> (\<forall>sid \<in> set sids.
     map_of out sid = Some (rows_between start until (timeline (if history \<and> historian \<noteq> None then past else (\<lambda>_. [])) b sid)))"
proof -
  let ?h = "if history then historian else None"
  let ?past = "if history \<and> historian \<noteq> None then past else (\<lambda>_. [])"
  let ?R = "\<lambda>sid. case earliest sid b of None \<Rightarrow> []
      | Some e \<Rightarrow> if start < e then (if e < until then points sid e until b else []) else points sid start until b"
  let ?E = "\<lambda>sid. if ?h = None then None else case earliest sid b of None \<Rightarrow> Some until
      | Some e \<Rightarrow> if start < e then Some (min until e) else None"
  have one: "fetch_one ?h b start until clamp sid = Inr (?R sid, ?E sid)" for sid
    using clamp by (auto simp: fetch_one_def split: option.split)
  obtain out ends where r: "fetch_all ?h b start until clamp sids [] [] = Inr (out, ends)" "dict_ok ends"
    "\<And>sid. map_of out sid = (if sid \<in> set sids then Some (?R sid) else None)"
    "\<And>sid. map_of ends sid = (if sid \<in> set sids \<and> ?E sid \<noteq> None then ?E sid else None)"
    using fetch_all_result [of sids ?h b start until clamp ?R ?E "[]" "[]"] one by auto
  have ear: "e \<le> fst p" if "earliest sid b = Some e" "p \<in> set (signal_points sid b)" for sid e p
    using earliest_Some that .
  have buf: "?R sid = rows_between start until (signal_points sid b)" for sid
  proof (cases "earliest sid b")
    case None
    then show ?thesis using iffD1 [OF earliest_None None] by (simp add: rows_between_def)
  next
    case (Some e)
    have "points sid e until b = rows_between start until (signal_points sid b)" if "start < e"
      unfolding points_def rows_between_def by (rule filter_cong) (use ear [OF Some] that in force)+
    moreover have "rows_between start until (signal_points sid b) = []" if "\<not> e < until"
      unfolding rows_between_def filter_empty_conv using ear [OF Some] that by fastforce
    moreover have "points sid start until b = rows_between start until (signal_points sid b)" by (simp add: points_def rows_between_def)
    ultimately show ?thesis using Some by simp
  qed
  let ?F = "\<lambda>sid e. filter (\<lambda>r. fst r < e) (the (map_of (history_windows (the ?h) (map fst ends) start (Max (snd ` set ends))) sid))"
  have hist: "?F sid e = rows_between start until (filter (\<lambda>r. case earliest sid b of None \<Rightarrow> True | Some e \<Rightarrow> fst r < e) (?past sid))"
    if e: "map_of ends sid = Some e" for sid e
  proof -
    obtain h where h: "?h = Some h" "historian = Some h" "history" using e r(4) [of sid] by (auto split: if_splits)
    have ee: "?E sid = Some e" using e r(4) [of sid] by (auto split: if_splits)
    have ends: "(sid, e) \<in> set ends" using map_of_SomeD [OF e] .
    then have mem: "sid \<in> set (map fst ends)" by force
    have M: "e \<le> Max (snd ` set ends)" using ends by (intro Max_ge) force+
    have "?F sid e = filter (\<lambda>r. start \<le> fst r \<and> fst r < e) (past sid)"
    proof (cases "Max (snd ` set ends) \<le> start")
      case True
      then have "filter (\<lambda>r. start \<le> fst r \<and> fst r < e) (past sid) = []" using M by (auto simp: filter_empty_conv)
      moreover have "map_of (map (\<lambda>s. (s, [] :: rows)) (map fst ends)) sid = Some []" using mem by (simp only: map_of_graph if_True)
      ultimately show ?thesis using True h(1) by (simp add: history_windows_def)
    next
      case False
      have "map_of (map (\<lambda>s. (s, h_window h s start (Max (snd ` set ends)))) (map fst ends)) sid
          = Some (h_window h sid start (Max (snd ` set ends)))" using mem by (simp only: map_of_graph if_True)
      moreover have "h_window h sid start (Max (snd ` set ends)) = filter (\<lambda>r. start \<le> fst r \<and> fst r < Max (snd ` set ends)) (past sid)"
        using ok h(2) unfolding historian_ok_def by blast
      moreover have "\<not> (map fst ends = [] \<or> Max (snd ` set ends) \<le> start)" using False mem by auto
      then have "history_windows h (map fst ends) start (Max (snd ` set ends))
          = map (\<lambda>s. (s, h_window h s start (Max (snd ` set ends)))) (map fst ends)" by (simp only: history_windows_def if_False)
      ultimately have "?F sid e = filter (\<lambda>r. fst r < e) (filter (\<lambda>r. start \<le> fst r \<and> fst r < Max (snd ` set ends)) (past sid))"
        using h(1) by (simp only: option.sel)
      then show ?thesis using M by (auto intro: filter_cong)
    qed
    also have "\<dots> = rows_between start until (filter (\<lambda>r. case earliest sid b of None \<Rightarrow> True | Some e \<Rightarrow> fst r < e) (past sid))"
      using ee h(1) by (auto simp: rows_between_def split: option.splits if_splits intro!: filter_cong)
    finally show ?thesis using h by simp
  qed
  have none: "rows_between start until (filter (\<lambda>r. case earliest sid b of None \<Rightarrow> True | Some e \<Rightarrow> fst r < e) (?past sid)) = []"
    if "sid \<in> set sids" "map_of ends sid = None" for sid
  proof (cases "?h")
    case None
    then have "?past = (\<lambda>_. [])" by auto
    then show ?thesis by (simp add: rows_between_def)
  next
    case (Some h)
    then have "?E sid = None" using that r(4) [of sid] by (auto split: if_splits)
    then have "\<exists>e. earliest sid b = Some e \<and> e \<le> start" using Some by (auto split: option.splits if_splits)
    then show ?thesis by (auto simp: rows_between_def filter_empty_conv)
  qed
  have tl: "rows_between start until (timeline ?past b sid)
      = rows_between start until (filter (\<lambda>r. case earliest sid b of None \<Rightarrow> True | Some e \<Rightarrow> fst r < e) (?past sid)) @ ?R sid" for sid
    unfolding buf by (simp add: timeline_def)
  show ?thesis
  proof (cases "ends = []")
    case True
    then have "fetch_many historian b sids start until clamp history = Inr out" using r(1) by (simp add: fetch_many_def)
    then show ?thesis using r(3) none tl True by simp
  next
    case False
    let ?out = "fold (\<lambda>(sid, e) out. AList.update sid (?F sid e @ the (map_of out sid)) out) ends out"
    have "fetch_many historian b sids start until clamp history = Inr ?out" using r(1) False by (simp add: fetch_many_def Let_def)
    moreover have "map_of ?out sid = Some (rows_between start until (timeline ?past b sid))" if "sid \<in> set sids" for sid
      unfolding fold_prepend [OF r(2)] tl using hist [of sid] none [OF that] r(3) [of sid] that by (cases "map_of ends sid") auto
    ultimately show ?thesis by blast
  qed
qed


section \<open>The dispatch table\<close>

text \<open>A producer as \<open>_resolve_dispatch\<close> and \<open>compute_trim_horizons\<close> of \<open>src/chaski/dataops/service.py\<close> read it: its
  declared inputs (attribute and window, attributes once each), its triggers in order, and what each input
  resolves to in this pass (\<open>None\<close>: \<open>signal_id\<close> raises).\<close>

record producer_decl =
  pd_name :: string
  pd_inputs :: "(string \<times> real) list"
  pd_triggers :: "(string \<times> trigger_spec) list"
  pd_resolve :: "string \<Rightarrow> string option"

record dispatch_pass =
  dp_dispatch :: "(string, (string \<times> string) list) dict"
  dp_signals :: "string list"
  dp_unresolved :: nat

fun resolve_inputs :: "(string \<Rightarrow> string option) \<Rightarrow> string list \<Rightarrow> (string, string) dict \<Rightarrow> dispatch_pass
    \<Rightarrow> (string, string) dict \<times> dispatch_pass" where
  "resolve_inputs res [] resolved t = (resolved, t)"
| "resolve_inputs res (attr # attrs) resolved t =
     (case res attr of
        None \<Rightarrow> resolve_inputs res attrs resolved (t\<lparr>dp_unresolved := dp_unresolved t + 1\<rparr>)
      | Some sid \<Rightarrow> resolve_inputs res attrs (AList.update attr sid resolved)
                      (t\<lparr>dp_signals := (if sid \<in> set (dp_signals t) then dp_signals t else dp_signals t @ [sid])\<rparr>))"

definition add_handler :: "string \<Rightarrow> string \<times> string \<Rightarrow> (string, (string \<times> string) list) dict \<Rightarrow> (string, (string \<times> string) list) dict" where
  "add_handler sid handler d = AList.update sid ((case map_of d sid of None \<Rightarrow> [] | Some hs \<Rightarrow> hs) @ [handler]) d"

fun bind_triggers :: "string \<Rightarrow> (string, string) dict \<Rightarrow> (string \<times> trigger_spec) list \<Rightarrow> dispatch_pass \<Rightarrow> dispatch_pass" where
  "bind_triggers name resolved [] t = t"
| "bind_triggers name resolved ((method, spec) # ts) t =
     (case spec of
        OnMetricSpec input_name \<Rightarrow>
          (case map_of resolved input_name of
             None \<Rightarrow> bind_triggers name resolved ts t
           | Some sid \<Rightarrow> bind_triggers name resolved ts (t\<lparr>dp_dispatch := add_handler sid (name, method) (dp_dispatch t)\<rparr>))
      | _ \<Rightarrow> bind_triggers name resolved ts t)"

definition resolve_producer :: "producer_decl \<Rightarrow> dispatch_pass \<Rightarrow> dispatch_pass" where
  "resolve_producer p t =
     (case resolve_inputs (pd_resolve p) (map fst (pd_inputs p)) [] t of
        (resolved, t) \<Rightarrow> bind_triggers (pd_name p) resolved (pd_triggers p) t)"

definition resolve_dispatch :: "producer_decl list \<Rightarrow> dispatch_pass" where
  "resolve_dispatch ps = fold resolve_producer ps \<lparr>dp_dispatch = [], dp_signals = [], dp_unresolved = 0\<rparr>"

section \<open>Trim horizons\<close>

definition horizon_of :: "real \<Rightarrow> (string \<Rightarrow> string option) \<Rightarrow> string \<times> real \<Rightarrow> (string, real) dict \<Rightarrow> (string, real) dict" where
  "horizon_of retention res i d =
     (case res (fst i) of
        None \<Rightarrow> d
      | Some sid \<Rightarrow>
          let horizon = max (snd i) retention
          in if (case map_of d sid of None \<Rightarrow> 0 | Some h \<Rightarrow> h) < horizon then AList.update sid horizon d else d)"

definition compute_trim_horizons :: "producer_decl list \<Rightarrow> real \<Rightarrow> (string, real) dict" where
  "compute_trim_horizons ps retention =
     fold (\<lambda>p. fold (horizon_of retention (pd_resolve p)) (pd_inputs p)) ps []"

definition trim_buffer :: "real \<Rightarrow> producer_decl list \<Rightarrow> real \<Rightarrow> buffer \<Rightarrow> (nat \<times> buffer) option" where
  "trim_buffer now ps retention b = trim now TRIM_CHUNK (compute_trim_horizons ps retention) b"

section \<open>What a dispatch table holds\<close>

text \<open>The handlers a producer declares for a signal, in the order of its triggers.\<close>

definition declared_handlers :: "producer_decl \<Rightarrow> string \<Rightarrow> (string \<times> string) list" where
  "declared_handlers p sid =
     map (\<lambda>(m, _). (pd_name p, m))
       (filter (\<lambda>(m, spec). \<exists>a \<in> fst ` set (pd_inputs p). spec = OnMetricSpec a \<and> pd_resolve p a = Some sid) (pd_triggers p))"

definition resolved_ids :: "producer_decl \<Rightarrow> string list" where
  "resolved_ids p = List.map_filter (\<lambda>i. pd_resolve p (fst i)) (pd_inputs p)"

lemma resolve_inputs_result:
  "resolve_inputs res attrs resolved t = (resolved', t') \<Longrightarrow>
     (\<forall>a. map_of resolved' a = (if a \<in> set attrs \<and> res a \<noteq> None then res a else map_of resolved a))
     \<and> dp_dispatch t' = dp_dispatch t
     \<and> dp_unresolved t' = dp_unresolved t + length (filter (\<lambda>a. res a = None) attrs)
     \<and> set (dp_signals t') = set (dp_signals t) \<union> {sid. \<exists>a \<in> set attrs. res a = Some sid}
     \<and> (distinct (dp_signals t) \<longrightarrow> distinct (dp_signals t'))"
proof (induction attrs arbitrary: resolved t)
  case (Cons a attrs)
  show ?case
  proof (cases "res a")
    case None
    then have "resolve_inputs res attrs resolved (t\<lparr>dp_unresolved := dp_unresolved t + 1\<rparr>) = (resolved', t')" using Cons.prems by simp
    from Cons.IH [OF this] show ?thesis using None by auto
  next
    case (Some sid)
    let ?t = "t\<lparr>dp_signals := (if sid \<in> set (dp_signals t) then dp_signals t else dp_signals t @ [sid])\<rparr>"
    have "resolve_inputs res attrs (AList.update a sid resolved) ?t = (resolved', t')" using Cons.prems Some by simp
    from Cons.IH [OF this] show ?thesis using Some by auto
  qed
qed simp

lemma set_resolved_ids: "set (resolved_ids p) = {sid. \<exists>a \<in> fst ` set (pd_inputs p). pd_resolve p a = Some sid}"
  by (force simp: resolved_ids_def List.map_filter_def)

lemma bind_triggers_result:
  "map_of (dp_dispatch (bind_triggers name resolved ts t)) sid =
     (let hs = map (\<lambda>(m, _). (name, m)) (filter (\<lambda>(m, spec). \<exists>a \<in> dom (map_of resolved). spec = OnMetricSpec a \<and> map_of resolved a = Some sid) ts)
      in if hs = [] then map_of (dp_dispatch t) sid
         else Some ((case map_of (dp_dispatch t) sid of None \<Rightarrow> [] | Some h \<Rightarrow> h) @ hs))
   \<and> dp_signals (bind_triggers name resolved ts t) = dp_signals t
   \<and> dp_unresolved (bind_triggers name resolved ts t) = dp_unresolved t"
proof (induction ts arbitrary: t)
  case (Cons ms ts)
  obtain m spec where ms: "ms = (m, spec)" by force
  show ?case
  proof (cases "\<exists>a s. spec = OnMetricSpec a \<and> map_of resolved a = Some s")
    case True
    then obtain a s where "spec = OnMetricSpec a" "map_of resolved a = Some s" by blast
    then show ?thesis using Cons.IH [of "t\<lparr>dp_dispatch := add_handler s (name, m) (dp_dispatch t)\<rparr>"]
      by (auto simp: ms add_handler_def Let_def dom_def)
  next
    case False
    then have "bind_triggers name resolved (ms # ts) t = bind_triggers name resolved ts t"
      by (auto simp: ms split: trigger_spec.splits option.splits)
    moreover have "filter (\<lambda>(m, spec). \<exists>a \<in> dom (map_of resolved). spec = OnMetricSpec a \<and> map_of resolved a = Some sid) (ms # ts)
        = filter (\<lambda>(m, spec). \<exists>a \<in> dom (map_of resolved). spec = OnMetricSpec a \<and> map_of resolved a = Some sid) ts"
      using False by (auto simp: ms)
    ultimately show ?thesis using Cons.IH by simp
  qed
qed simp

lemma resolve_producer_result:
  "map_of (dp_dispatch (resolve_producer p t)) sid =
     (if declared_handlers p sid = [] then map_of (dp_dispatch t) sid
      else Some ((case map_of (dp_dispatch t) sid of None \<Rightarrow> [] | Some h \<Rightarrow> h) @ declared_handlers p sid))"
  "dp_unresolved (resolve_producer p t) = dp_unresolved t + length (filter (\<lambda>i. pd_resolve p (fst i) = None) (pd_inputs p))"
  "set (dp_signals (resolve_producer p t)) = set (dp_signals t) \<union> set (resolved_ids p)"
  "distinct (dp_signals t) \<Longrightarrow> distinct (dp_signals (resolve_producer p t))"
proof -
  obtain resolved t' where r: "resolve_inputs (pd_resolve p) (map fst (pd_inputs p)) [] t = (resolved, t')" by force
  note i = resolve_inputs_result [OF r]
  have m: "map_of resolved a = (if a \<in> fst ` set (pd_inputs p) then pd_resolve p a else None)" for a
    using i by auto
  have h: "(\<exists>a \<in> dom (map_of resolved). spec = OnMetricSpec a \<and> map_of resolved a = Some sid)
      \<longleftrightarrow> (\<exists>a \<in> fst ` set (pd_inputs p). spec = OnMetricSpec a \<and> pd_resolve p a = Some sid)" for spec sid
    unfolding m dom_def by auto
  have e: "resolve_producer p t = bind_triggers (pd_name p) resolved (pd_triggers p) t'" by (simp add: resolve_producer_def r)
  note b = bind_triggers_result [of "pd_name p" resolved "pd_triggers p" t' sid, unfolded h, folded declared_handlers_def]
  show "map_of (dp_dispatch (resolve_producer p t)) sid =
     (if declared_handlers p sid = [] then map_of (dp_dispatch t) sid
      else Some ((case map_of (dp_dispatch t) sid of None \<Rightarrow> [] | Some h \<Rightarrow> h) @ declared_handlers p sid))"
    using b using i unfolding e Let_def by simp
  show "dp_unresolved (resolve_producer p t) = dp_unresolved t + length (filter (\<lambda>i. pd_resolve p (fst i) = None) (pd_inputs p))"
    using b i by (simp add: e filter_map comp_def)
  show "set (dp_signals (resolve_producer p t)) = set (dp_signals t) \<union> set (resolved_ids p)"
    using b i by (simp add: e set_resolved_ids)
  show "distinct (dp_signals t) \<Longrightarrow> distinct (dp_signals (resolve_producer p t))" using b i by (simp add: e)
qed

lemma resolve_dispatch_result:
  "map_of (dp_dispatch (resolve_dispatch ps)) sid =
     (let hs = concat (map (\<lambda>p. declared_handlers p sid) ps) in if hs = [] then None else Some hs)"
  "dp_unresolved (resolve_dispatch ps) = length (filter (\<lambda>(p, i). pd_resolve p (fst i) = None) (concat (map (\<lambda>p. map (Pair p) (pd_inputs p)) ps)))"
  "set (dp_signals (resolve_dispatch ps)) = (\<Union>p \<in> set ps. set (resolved_ids p)) \<and> distinct (dp_signals (resolve_dispatch ps))"
proof (induction ps rule: rev_induct)
  case (snoc p ps)
  have r: "resolve_dispatch (ps @ [p]) = resolve_producer p (resolve_dispatch ps)" by (simp add: resolve_dispatch_def)
  note a = resolve_producer_result [where p = p and t = "resolve_dispatch ps"]
  {
    case 1
    show ?case using snoc(1) by (simp add: r a(1) Let_def)
  next
    case 2
    show ?case using snoc(2) by (simp add: r a(2) filter_map comp_def)
  next
    case 3
    show ?case using snoc(3) a(3,4) by (auto simp: r)
  }
qed (simp_all add: resolve_dispatch_def)


section \<open>What the horizons cover\<close>

lemma horizon_of_covers:
  assumes "0 < snd i" "pd_resolve p (fst i) = Some sid"
  shows "\<exists>h. map_of (horizon_of retention (pd_resolve p) i d) sid = Some h \<and> snd i \<le> h \<and> retention \<le> h"
proof (cases "map_of d sid")
  case (Some h)
  then show ?thesis using assms by (cases "h < max (snd i) retention") (auto simp: horizon_of_def Let_def)
qed (use assms in \<open>auto simp: horizon_of_def Let_def less_max_iff_disj\<close>)

lemma horizon_of_grows: "map_of d sid = Some h \<Longrightarrow> \<exists>h'. map_of (horizon_of retention res i d) sid = Some h' \<and> h \<le> h'"
  by (auto simp: horizon_of_def Let_def split: option.split)

lemma horizons_of_grow:
  "map_of d sid = Some h \<Longrightarrow> \<exists>h'. map_of (fold (horizon_of retention res) is d) sid = Some h' \<and> h \<le> h'"
proof (induction "is" arbitrary: d h)
  case (Cons i "is")
  obtain h1 where "map_of (horizon_of retention res i d) sid = Some h1" "h \<le> h1" using horizon_of_grows [OF Cons.prems] by blast
  then show ?case using Cons.IH by (fastforce intro: order_trans)
qed simp

lemma horizons_of_cover:
  assumes "i \<in> set is" "0 < snd i" "pd_resolve p (fst i) = Some sid"
  shows "\<exists>h. map_of (fold (horizon_of retention (pd_resolve p)) is d) sid = Some h \<and> snd i \<le> h \<and> retention \<le> h"
  using assms(1)
proof (induction "is" arbitrary: d)
  case (Cons j "is")
  show ?case
  proof (cases "i = j")
    case True
    obtain h where "map_of (horizon_of retention (pd_resolve p) j d) sid = Some h" "snd i \<le> h" "retention \<le> h"
      using horizon_of_covers [OF assms(2,3)] True by blast
    then show ?thesis using horizons_of_grow [of "horizon_of retention (pd_resolve p) j d" sid h] by (fastforce intro: order_trans)
  qed (use Cons in auto)
qed simp

lemma trim_horizons_cover:
  assumes "p \<in> set ps" "i \<in> set (pd_inputs p)" "0 < snd i" "pd_resolve p (fst i) = Some sid"
  shows "\<exists>h. map_of (compute_trim_horizons ps retention) sid = Some h \<and> snd i \<le> h \<and> retention \<le> h"
proof -
  let ?f = "\<lambda>p. fold (horizon_of retention (pd_resolve p)) (pd_inputs p)"
  have grow: "\<exists>h'. map_of (fold ?f qs d) sid = Some h' \<and> h \<le> h'" if "map_of d sid = Some h" for qs d h
    using that
  proof (induction qs arbitrary: d h)
    case (Cons q qs)
    obtain h1 where "map_of (?f q d) sid = Some h1" "h \<le> h1" using horizons_of_grow [OF Cons.prems] by blast
    then show ?case using Cons.IH by (fastforce intro: order_trans)
  qed simp
  have "\<exists>h. map_of (fold ?f qs d) sid = Some h \<and> snd i \<le> h \<and> retention \<le> h" if "p \<in> set qs" for qs d
    using that
  proof (induction qs arbitrary: d)
    case (Cons q qs)
    show ?case
    proof (cases "p = q")
      case True
      obtain h where "map_of (?f q d) sid = Some h" "snd i \<le> h" "retention \<le> h"
        using horizons_of_cover [OF assms(2-4), of retention d] True by blast
      then show ?thesis using grow [of "?f q d" h qs] by (fastforce intro: order_trans)
    qed (use Cons in auto)
  qed simp
  then show ?thesis using assms(1) unfolding compute_trim_horizons_def by blast
qed

lemma trim_horizons_dict: "dict_ok (compute_trim_horizons ps retention)"
proof -
  have one: "dict_ok (horizon_of retention res i d)" if "dict_ok d" for res i d
    using that by (auto simp: horizon_of_def Let_def intro: inv_intros split: option.split)
  have "dict_ok (fold (horizon_of retention res) is d)" if "dict_ok d" for res "is" d
    using that by (induction "is" arbitrary: d) (simp_all add: one)
  then have "dict_ok (fold (\<lambda>p. fold (horizon_of retention (pd_resolve p)) (pd_inputs p)) ps d)" if "dict_ok d" for d
    using that by (induction ps arbitrary: d) simp_all
  then show ?thesis by (simp add: compute_trim_horizons_def)
qed

section \<open>Properties\<close>

text \<open>C23: Reads are windows of one timeline. Whatever part of a range the buffer holds, a read of several inputs
  returns, and each gets the half-open window of one ordered timeline: the historian's points before the buffer's earliest
  one and the buffer's from there on (the buffer's alone when history is not read). So the reads of two adjacent
  windows joined are the read of both.\<close>

theorem reads_are_one_timeline:
  assumes "\<forall>h. historian = Some h \<longrightarrow> historian_ok past h" "clamp \<or> (history \<and> historian \<noteq> None)" "x \<le> y" "y \<le> z"
  shows "\<exists>a c d. fetch_many historian b sids x y clamp history = Inr a \<and> fetch_many historian b sids y z clamp history = Inr c
     \<and> fetch_many historian b sids x z clamp history = Inr d
     \<and> (\<forall>sid \<in> set sids. map_of d sid = Some (the (map_of a sid) @ the (map_of c sid))
          \<and> map_of d sid = Some (rows_between x z (timeline (if history \<and> historian \<noteq> None then past else (\<lambda>_. [])) b sid))
          \<and> sorted (map fst (the (map_of d sid))))"
proof -
  let ?past = "if history \<and> historian \<noteq> None then past else (\<lambda>_. [])"
  note f = fetch_many_timeline [OF assms(1,2), of b sids]
  obtain a c d where r: "fetch_many historian b sids x y clamp history = Inr a" "fetch_many historian b sids y z clamp history = Inr c"
    "fetch_many historian b sids x z clamp history = Inr d"
    "\<forall>sid \<in> set sids. map_of a sid = Some (rows_between x y (timeline ?past b sid))"
    "\<forall>sid \<in> set sids. map_of c sid = Some (rows_between y z (timeline ?past b sid))"
    "\<forall>sid \<in> set sids. map_of d sid = Some (rows_between x z (timeline ?past b sid))" using f by meson
  have srt: "sorted (map fst (timeline ?past b sid))" for sid
    by (rule timeline_sorted) (use assms(1) in \<open>auto simp: historian_ok_def\<close>)
  have "sorted (map fst (rows_between x z (timeline ?past b sid)))" for sid
    unfolding rows_between_def by (rule sorted_filter [OF srt])
  then show ?thesis using r rows_between_split [OF srt assms(3,4)] by auto
qed

theorem reads_are_one_timeline_witness:
  "let past = (\<lambda>sid. if sid = ''s'' then [(1, JInt 1), (2, JInt 2)] else []);
       h = \<lparr>h_window = (\<lambda>sid x y. filter (\<lambda>r. x \<le> fst r \<and> fst r < y) (past sid)), h_latest_before = (\<lambda>sid t. None)\<rparr>;
       b = append_many [(''s'', 3, JInt 3), (''s'', 4, JInt 4)] (snd (open_buffer ''g'' empty_db)) in
   \<exists>a c d. fetch_many (Some h) b [''s''] 2 3 False True = Inr a \<and> fetch_many (Some h) b [''s''] 3 4 False True = Inr c
     \<and> fetch_many (Some h) b [''s''] 2 4 False True = Inr d
     \<and> map_of d ''s'' = Some (the (map_of a ''s'') @ the (map_of c ''s''))
     \<and> map_of d ''s'' = Some [(2, JInt 2), (3, JInt 3)]"
proof -
  let ?past = "\<lambda>sid. if sid = ''s'' then [(1, JInt 1), (2, JInt 2)] else [] :: rows"
  let ?h = "\<lparr>h_window = (\<lambda>sid x y. filter (\<lambda>r. x \<le> fst r \<and> fst r < y) (?past sid)), h_latest_before = (\<lambda>sid t. None)\<rparr>"
  let ?b = "append_many [(''s'', 3, JInt 3), (''s'', 4, JInt 4)] (snd (open_buffer ''g'' empty_db))"
  have ok: "\<forall>h. Some ?h = Some h \<longrightarrow> historian_ok ?past h" by (simp add: historian_ok_def)
  have t: "rows_between 2 4 (timeline ?past ?b ''s'') = [(2, JInt 2), (3, JInt 3)]" by code_simp
  show ?thesis
    using reads_are_one_timeline [OF ok, of False True 2 3 4 ?b "[''s'']"] t by (auto simp: Let_def)
qed

text \<open>C24: Trimming never cuts into a declared window. Whatever the producers declare, the periodic trim returns, and for every
  input that resolves, the points of its window and of the broker's retention, and the value in force at any instant of
  either, are read as before.\<close>

theorem trim_keeps_declared_windows:
  assumes "points_ok b" "\<forall>p \<in> set ps. \<forall>i \<in> set (pd_inputs p). 0 < snd i"
  shows "\<exists>n b'. trim_buffer now ps retention b = Some (n, b')
     \<and> (\<forall>p \<in> set ps. \<forall>i \<in> set (pd_inputs p). \<forall>sid. pd_resolve p (fst i) = Some sid \<longrightarrow>
          (\<forall>t until. now - max (snd i) retention \<le> t \<longrightarrow> points sid t until b' = points sid t until b
             \<and> input_latest_before h b' sid t = input_latest_before h b sid t))"
proof -
  let ?hs = "compute_trim_horizons ps retention"
  have c: "0 < TRIM_CHUNK" by (simp add: TRIM_CHUNK_def)
  obtain n b' where r: "trim now TRIM_CHUNK ?hs b = Some (n, b')" "\<forall>sid. signal_points sid b' = (case map_of ?hs sid of
      None \<Rightarrow> signal_points sid b | Some h \<Rightarrow> trim_rows (now - h) (signal_points sid b))"
    using trim_result [OF c assms(1) trim_horizons_dict, of now ps retention] by blast
  have "points sid t until b' = points sid t until b \<and> latest_before sid t b' = latest_before sid t b"
    if i: "p \<in> set ps" "i \<in> set (pd_inputs p)" "pd_resolve p (fst i) = Some sid" "now - max (snd i) retention \<le> t" for p i sid t until
  proof -
    obtain h where h: "map_of ?hs sid = Some h" "snd i \<le> h" "retention \<le> h"
      using trim_horizons_cover [OF i(1,2) _ i(3)] assms(2) i(1,2) by blast
    then have t: "now - h \<le> t" using i(4) by simp
    have sp: "signal_points sid b' = trim_rows (now - h) (signal_points sid b)" using r(2) h(1) by simp
    let ?P = "\<lambda>p :: real \<times> json. t \<le> fst p \<and> fst p < until" and ?Q = "\<lambda>p :: real \<times> json. now - h \<le> fst p \<and> fst p < until"
    have cong: "filter ?P rows = filter ?P (filter ?Q rows)" for rows using t by (auto intro!: filter_cong)
    have "points sid t until b' = filter ?P (filter ?Q (trim_rows (now - h) (signal_points sid b)))"
      unfolding points_def sp by (rule cong)
    also have "\<dots> = filter ?P (filter ?Q (signal_points sid b))" by (simp only: trim_rows_window)
    also have "\<dots> = points sid t until b" unfolding points_def by (rule cong [symmetric])
    finally have "points sid t until b' = points sid t until b" .
    moreover have "latest_before sid t b' = latest_before sid t b"
      using trim_rows_latest [OF signal_points_sorted(1) [OF assms(1)] t] by (simp add: latest_before_def sp Let_def)
    ultimately show ?thesis by blast
  qed
  then have "\<forall>p \<in> set ps. \<forall>i \<in> set (pd_inputs p). \<forall>sid. pd_resolve p (fst i) = Some sid \<longrightarrow>
          (\<forall>t until. now - max (snd i) retention \<le> t \<longrightarrow> points sid t until b' = points sid t until b
             \<and> latest_before sid t b' = latest_before sid t b)" by blast
  then show ?thesis using r(1) unfolding trim_buffer_def input_latest_before_def by (intro exI [of _ n] exI [of _ b']) simp
qed


theorem trim_keeps_declared_windows_witness:
  "let p = \<lparr>pd_name = ''p'', pd_inputs = [(''speed'', 5)], pd_triggers = [(''on'', OnMetricSpec ''speed'')], pd_resolve = (\<lambda>a. Some ''s'')\<rparr>;
       b = append_many [(''s'', 1, JInt 1), (''s'', 2, JInt 2), (''s'', 9, JInt 3)] (snd (open_buffer ''g'' empty_db)) in
   \<exists>n b'. trim_buffer 10 [p] 3 b = Some (n, b') \<and> points ''s'' 5 20 b' = points ''s'' 5 20 b
     \<and> input_latest_before None b' ''s'' 6 = Some (2, JInt 2)"
proof -
  let ?p = "\<lparr>pd_name = ''p'', pd_inputs = [(''speed'', 5)], pd_triggers = [(''on'', OnMetricSpec ''speed'')], pd_resolve = (\<lambda>a. Some ''s'')\<rparr>"
  let ?b = "append_many [(''s'', 1, JInt 1), (''s'', 2, JInt 2), (''s'', 9, JInt 3)] (snd (open_buffer ''g'' empty_db))"
  have ok: "points_ok ?b"
    by (rule points_ok_append_many)
      (simp add: open_buffer_def load_or_mint_generation_def empty_db_def upgrade_def points_ok_def)
  have l: "input_latest_before None ?b ''s'' 6 = Some (2, JInt 2)" by code_simp
  obtain n b' where r: "trim_buffer 10 [?p] 3 ?b = Some (n, b')"
    "\<forall>p \<in> set [?p]. \<forall>i \<in> set (pd_inputs p). \<forall>sid. pd_resolve p (fst i) = Some sid \<longrightarrow>
          (\<forall>t until. 10 - max (snd i) 3 \<le> t \<longrightarrow> points sid t until b' = points sid t until ?b
             \<and> input_latest_before None b' sid t = input_latest_before None ?b sid t)"
    using trim_keeps_declared_windows [OF ok, of "[?p]" 10 3 None] by auto
  have "points ''s'' 5 20 b' = points ''s'' 5 20 ?b" "input_latest_before None b' ''s'' 6 = Some (2, JInt 2)"
    using r(2) l by simp_all
  then show ?thesis using r(1) by (simp add: Let_def)
qed

end
