(* ===== verification/Chaski_Backfill.thy ===== *)
theory Chaski_Backfill
  imports Chaski_Inputs Chaski_Checkpoints
begin

text \<open>
  Backfill of a producer over history (\<open>src/chaski/dataops/backfill.py\<close>): the declaration, the jobs a start plans, one window
  through the producer's handlers and ticks in timestamp order, its commit, and the hand-over to live dispatch. The
  producer's own code is the \<open>app\<close> of the checkpoints and \<open>be_tick\<close> for its timers; what the node and SQLite answer are
  arguments. The ingest's pages and the job's steps alternate as whole steps (the page lock for the hand-over).
\<close>

section \<open>The declaration and its jobs\<close>

record backfill_decl =
  bd_horizon_s :: fl
  bd_window_s :: fl
  bd_mode :: string

definition INITIAL :: string where "INITIAL = ''initial''"

definition REPLAY :: string where "REPLAY = ''replay''"

definition HOLD_LIVE :: string where "HOLD_LIVE = ''hold_live''"

definition INDEPENDENT :: string where "INDEPENDENT = ''independent''"

definition DEFAULT_WINDOW :: duration_arg where "DEFAULT_WINDOW = DStr ''1h''"

definition mk_backfill :: "duration_arg \<Rightarrow> duration_arg \<Rightarrow> string \<Rightarrow> backfill_decl outcome" where
  "mk_backfill horizon window mode =
     (if mode \<notin> {HOLD_LIVE, INDEPENDENT} then Inl ValueError
      else bind_outcome (parse_duration horizon) (\<lambda>h. bind_outcome (parse_duration window) (\<lambda>w.
             Inr \<lparr>bd_horizon_s = h, bd_window_s = w, bd_mode = mode\<rparr>)))"

definition decl_holds_live :: "backfill_decl \<Rightarrow> bool" where
  "decl_holds_live d \<longleftrightarrow> bd_mode d = HOLD_LIVE"

definition job_holds_live :: "backfill_job \<Rightarrow> bool" where
  "job_holds_live j \<longleftrightarrow> j_end j = None"

definition window_of :: "backfill_decl option \<Rightarrow> string \<Rightarrow> backfill_job \<Rightarrow> fl outcome" where
  "window_of decl job j =
     (if job \<noteq> INITIAL \<and> j_window j \<noteq> None then Inr (Fin (the (j_window j)))
      else case decl of Some d \<Rightarrow> Inr (bd_window_s d) | None \<Rightarrow> parse_duration DEFAULT_WINDOW)"

text \<open>\<open>request\<close>: a repair over \<open>[start, end)\<close>; \<open>fresh\<close> is the ULID it mints for a job without a name.\<close>

definition request_backfill :: "string \<Rightarrow> string \<Rightarrow> fl \<Rightarrow> fl \<Rightarrow> duration_arg option \<Rightarrow> string option \<Rightarrow> real \<Rightarrow> buffer
    \<Rightarrow> string outcome \<times> buffer" where
  "request_backfill fresh producer start until window job now b =
     (case (start, until) of
        (Fin s, Fin e) \<Rightarrow>
          if e \<le> s then (Inl ValueError, b)
          else
            (case (case window of None \<Rightarrow> Inr None | Some w \<Rightarrow> bind_outcome (parse_duration w) (\<lambda>x. Inr (Some x))) of
               Inl err \<Rightarrow> (Inl err, b)
             | Inr w \<Rightarrow>
                 let name = (case job of Some n \<Rightarrow> if n = [] then ''repair-'' @ fresh else n | None \<Rightarrow> ''repair-'' @ fresh)
                 in (Inr name, snd (add_backfill_job producer name s (Some e) [] now
                        (case w of Some (Fin x) \<Rightarrow> Some x | _ \<Rightarrow> None) b)))
      | _ \<Rightarrow> (Inl ValueError, b))"

section \<open>What a job reads and calls\<close>

text \<open>\<open>_Plan\<close>: the \<open>@on_metric\<close> signals with their handlers' methods, every resolved signal, the timers.\<close>

record backfill_plan =
  bp_metrics :: "(string \<times> string list) list"
  bp_signals :: "string list"
  bp_ticks :: "(string \<times> timer) list"
  bp_declared :: nat
  bp_unresolved :: nat

definition timer_of :: "string \<times> trigger_spec \<Rightarrow> (string \<times> timer) option" where
  "timer_of t =
     (case snd t of CronSpec e \<Rightarrow> Some (fst t, Cron e) | IntervalSpec (Fin s) \<Rightarrow> Some (fst t, Every s) | _ \<Rightarrow> None)"

definition plan_of :: "producer_decl \<Rightarrow> backfill_plan" where
  "plan_of p =
     (let t = resolve_dispatch [p]
      in \<lparr>bp_metrics = List.map_filter (\<lambda>sid. map_option (\<lambda>hs. (sid, map snd hs)) (map_of (dp_dispatch t) sid)) (dp_signals t),
          bp_signals = dp_signals t, bp_ticks = List.map_filter timer_of (pd_triggers p),
          bp_declared = length (pd_inputs p), bp_unresolved = dp_unresolved t\<rparr>)"

definition found :: "(string \<Rightarrow> real option) \<Rightarrow> string list \<Rightarrow> real list" where
  "found f sids = List.map_filter f sids"

definition plan_first :: "backfill_plan \<Rightarrow> buffer \<Rightarrow> real option" where
  "plan_first p b = (let ts = found (\<lambda>s. earliest s b) (bp_signals p) in if ts = [] then None else Some (Min (set ts)))"

definition plan_next_point :: "backfill_plan \<Rightarrow> real \<Rightarrow> buffer \<Rightarrow> real option" where
  "plan_next_point p position b =
     (let ts = found (\<lambda>s. next_point s position b) (bp_signals p) in if ts = [] then None else Some (Min (set ts)))"

definition plan_edge :: "backfill_plan \<Rightarrow> real \<Rightarrow> buffer \<Rightarrow> real" where
  "plan_edge p now b = (let ts = found (\<lambda>s. latest s b) (bp_signals p) in if ts = [] then now else Max (set ts))"

section \<open>The events of a window\<close>

datatype window_event = BfRecord string real json | BfTick string real

type_synonym keyed_event = "(real \<times> nat \<times> nat) \<times> window_event"

definition record_events :: "nat \<Rightarrow> string \<Rightarrow> rows \<Rightarrow> keyed_event list" where
  "record_events order sid rows = map (\<lambda>(ts, v). ((ts, 0, order), BfRecord sid ts v)) rows"

definition tick_events :: "nat \<Rightarrow> string \<Rightarrow> real list \<Rightarrow> keyed_event list" where
  "tick_events order method instants = map (\<lambda>due. ((due, 1, order), BfTick method due)) instants"

text \<open>\<open>heapq.merge\<close>: the smaller head first, of equal ones that of the earlier stream.\<close>

fun merge_two :: "('k::linorder \<times> 'a) list \<Rightarrow> ('k \<times> 'a) list \<Rightarrow> ('k \<times> 'a) list" where
  "merge_two [] ys = ys"
| "merge_two xs [] = xs"
| "merge_two (x # xs) (y # ys) = (if fst x \<le> fst y then x # merge_two xs (y # ys) else y # merge_two (x # xs) ys)"

definition merge_streams :: "('k::linorder \<times> 'a) list list \<Rightarrow> ('k \<times> 'a) list" where
  "merge_streams ss = foldr merge_two ss []"

text \<open>\<open>be_settles\<close>, \<open>be_rejects\<close>, \<open>be_reads\<close>: whether a batch settles, a rejection is recorded, the window's rows are
  read, after so many calls.\<close>

record 'm backfill_env =
  be_app :: "'m app"
  be_tick :: "nat \<Rightarrow> string \<Rightarrow> string \<Rightarrow> real \<Rightarrow> 'm \<Rightarrow> call_end \<times> 'm"
  be_settles :: "nat \<Rightarrow> bool"
  be_rejects :: "nat \<Rightarrow> bool"
  be_reads :: "nat \<Rightarrow> bool"
  be_clockwork :: clockwork
  be_historian :: "historian option"

fun tick_streams :: "clockwork \<Rightarrow> real \<Rightarrow> real \<Rightarrow> nat \<Rightarrow> (string \<times> timer) list \<Rightarrow> keyed_event list list option" where
  "tick_streams cr start until order [] = Some []"
| "tick_streams cr start until order ((m, t) # ts) =
     Option.bind (tick_instants cr t start until) (\<lambda>is.
     Option.bind (tick_streams cr start until (order + 1) ts) (\<lambda>ss. Some (tick_events order m is # ss)))"

definition record_streams :: "backfill_plan \<Rightarrow> (string, rows) dict \<Rightarrow> keyed_event list list" where
  "record_streams p rows =
     map (\<lambda>(order, sid, _). record_events order sid (the (map_of rows sid))) (enumerate 0 (bp_metrics p))"

text \<open>\<open>None\<close>: an instant of a timer never comes to the window's end.\<close>

definition window_events :: "clockwork \<Rightarrow> backfill_plan \<Rightarrow> (string, rows) dict \<Rightarrow> real \<Rightarrow> real
    \<Rightarrow> keyed_event list option" where
  "window_events cr p rows start until =
     map_option (\<lambda>ticks. merge_streams (record_streams p rows @ ticks)) (tick_streams cr start until 0 (bp_ticks p))"

section \<open>Running them\<close>

text \<open>\<open>synthetic_record\<close>.\<close>

definition synthetic_record :: "string \<Rightarrow> real \<Rightarrow> json \<Rightarrow> record_" where
  "synthetic_record sid ts v =
     \<lparr>r_offset = -1, r_topic = [], r_payload = JObj [(''signal_id'', JStr sid), (''timestamp'', JFloat (Fin ts)), (''value'', v)],
      r_ts = ts, r_actor_id = [], r_actor_label = [], r_actor_kind = ''backfill''\<rparr>"

text \<open>The state of the producer and the number of calls made. The first component: it went on without raising.\<close>

fun run_handlers :: "'m backfill_env \<Rightarrow> string \<Rightarrow> record_ \<Rightarrow> string list \<Rightarrow> nat \<times> 'm \<Rightarrow> bool \<times> nat \<times> 'm" where
  "run_handlers e name r [] s = (True, s)"
| "run_handlers e name r (k # ks) (n, m) =
     (case invoke (be_app e) n name k r m of
        (Returns, m) \<Rightarrow> run_handlers e name r ks (n + 1, m)
      | (RaisesReject, m) \<Rightarrow> if be_rejects e (n + 1) then run_handlers e name r ks (n + 1, m) else (False, n + 1, m)
      | (_, m) \<Rightarrow> (False, n + 1, m))"

fun run_ticks :: "'m backfill_env \<Rightarrow> string \<Rightarrow> (string \<times> real) list \<Rightarrow> nat \<times> 'm \<Rightarrow> bool \<times> nat \<times> 'm" where
  "run_ticks e name [] s = (True, s)"
| "run_ticks e name ((method, due) # ds) (n, m) =
     (case be_tick e n name method due m of
        (Returns, m) \<Rightarrow> run_ticks e name ds (n + 1, m)
      | (RaisesReject, m) \<Rightarrow> if be_rejects e (n + 1) then run_ticks e name ds (n + 1, m) else (False, n + 1, m)
      | (_, m) \<Rightarrow> (False, n + 1, m))"

text \<open>\<open>_Ticks.run\<close>: nothing is due, or the ticks run and their batch settles.\<close>

definition run_due :: "'m backfill_env \<Rightarrow> string \<Rightarrow> (string \<times> real) list \<Rightarrow> nat \<times> 'm \<Rightarrow> bool \<times> nat \<times> 'm" where
  "run_due e name due s =
     (if due = [] then (True, s)
      else case run_ticks e name due s of (ok, n, m) \<Rightarrow> (ok \<and> be_settles e n, n, m))"

definition keys_of :: "backfill_plan \<Rightarrow> string \<Rightarrow> string list" where
  "keys_of p sid = (case map_of (bp_metrics p) sid of None \<Rightarrow> [] | Some ks \<Rightarrow> ks)"

fun run_events :: "'m backfill_env \<Rightarrow> string \<Rightarrow> backfill_plan \<Rightarrow> window_event list \<Rightarrow> (string \<times> real) list \<Rightarrow> nat \<times> 'm
    \<Rightarrow> bool \<times> nat \<times> 'm" where
  "run_events e name p [] due s = run_due e name due s"
| "run_events e name p (BfTick method ts # es) due s = run_events e name p es (due @ [(method, ts)]) s"
| "run_events e name p (BfRecord sid ts v # es) due s =
     (case run_due e name due s of
        (False, s) \<Rightarrow> (False, s)
      | (True, s) \<Rightarrow>
          (case run_handlers e name (synthetic_record sid ts v) (keys_of p sid) s of
             (False, s) \<Rightarrow> (False, s)
           | (True, s) \<Rightarrow> run_events e name p es [] s))"

text \<open>\<open>_window\<close>: with the state put back when it fails and the job holds live. \<open>None\<close> is not returning.\<close>

definition run_window :: "'m backfill_env \<Rightarrow> string \<Rightarrow> string \<Rightarrow> bool \<Rightarrow> backfill_plan \<Rightarrow> buffer \<Rightarrow> real \<Rightarrow> real \<Rightarrow> nat \<times> 'm
    \<Rightarrow> (bool \<times> nat \<times> 'm) option" where
  "run_window e name job holds p b start until s =
     (let m = snd s; checkpointed = holds \<and> state_version (be_app e) name \<noteq> None in
      if \<not> be_reads e (fst s) then Some (False, s)
      else
        case fetch_many (be_historian e) b (map fst (bp_metrics p)) start until True (job \<noteq> REPLAY) of
          Inl _ \<Rightarrow> Some (False, s)
        | Inr rows \<Rightarrow>
            Option.bind (window_events (be_clockwork e) p rows start until) (\<lambda>events.
              if checkpointed \<and> state_copy (be_app e) m = None then Some (False, s)
              else
                case run_events e name p (map snd events) [] s of
                  (ok, n', m') \<Rightarrow>
                    if ok \<and> be_settles e n' then Some (True, n', m')
                    else Some (False, n', if checkpointed then restore (be_app e) (the (state_copy (be_app e) m)) m' else m')))"

section \<open>The job\<close>

text \<open>\<open>_commit\<close>, in one commit; \<open>False\<close>: it raised.\<close>

definition commit_window :: "'m app \<Rightarrow> bool \<Rightarrow> string \<Rightarrow> string \<Rightarrow> bool \<Rightarrow> 'm producer \<Rightarrow> real \<Rightarrow> nat \<Rightarrow> bool \<Rightarrow> buffer
    \<Rightarrow> bool \<times> buffer" where
  "commit_window a ok name job holds p position windows finished b =
     (let b = enter_one_commit b in
      case (if holds then save_producer a ok name p b else Inr b) of
        Inl _ \<Rightarrow> (False, leave_one_commit b)
      | Inr b \<Rightarrow>
          let b = backfill_progress name job position windows (code_hash a name) b;
              b = (if finished then finish_backfill name job b else b)
          in (True, leave_one_commit b))"

text \<open>\<open>bc_fresh\<close>: the state \<open>setup()\<close> gives an instance; \<open>bc_after\<close>: \<open>math.nextafter\<close> upwards.\<close>

record 'm backfill_cfg =
  bc_name :: string
  bc_job :: string
  bc_plan :: backfill_plan
  bc_window :: real
  bc_fresh :: 'm
  bc_after :: "real \<Rightarrow> real"

text \<open>\<open>br_active\<close>: \<open>_run_job\<close> is in its loop; \<open>br_position\<close> and \<open>br_windows\<close> are its variables. \<open>br_finished\<close>: its last
  window is committed, and \<open>_hand_over\<close> holds the page lock with the edge it read.\<close>

record 'm backfill_run =
  br_buffer :: buffer
  br_producer :: "'m producer"
  br_calls :: nat
  br_position :: real
  br_windows :: nat
  br_held :: bool
  br_active :: bool
  br_finished :: "real option"

definition enter_job :: "'m backfill_env \<Rightarrow> 'm backfill_cfg \<Rightarrow> 'm backfill_run \<Rightarrow> 'm backfill_run" where
  "enter_job e c st =
     (case backfill_job_of (bc_name c) (bc_job c) (br_buffer st) of
        None \<Rightarrow> st
      | Some j \<Rightarrow>
          if j_done j then st
          else
            let a = be_app e; name = bc_name c;
                again = (j_windows j \<noteq> 0 \<and> j_code_hash j \<noteq> code_hash a name);
                position = (if again then j_start j else j_position j);
                windows = (if again then 0 else j_windows j);
                b = (if again then backfill_progress name (bc_job c) position windows (code_hash a name) (br_buffer st) else br_buffer st);
                p = (if job_holds_live j
                     then (if windows \<noteq> 0 then snd (restore_checkpoint a name b (br_producer st)) else br_producer st)
                     else \<lparr>memory = bc_fresh c, offsets = []\<rparr>)
            in st\<lparr>br_buffer := b, br_producer := p, br_position := position, br_windows := windows, br_active := True\<rparr>)"

definition job_plan :: "'m backfill_cfg \<Rightarrow> backfill_plan" where
  "job_plan c = (if bc_job c = REPLAY then (bc_plan c)\<lparr>bp_ticks := []\<rparr> else bc_plan c)"

definition skips :: "'m backfill_env \<Rightarrow> 'm backfill_cfg \<Rightarrow> bool" where
  "skips e c \<longleftrightarrow> (be_historian e = None \<or> bc_job c = REPLAY) \<and> bp_signals (job_plan c) \<noteq> []"

definition skip_to :: "'m backfill_env \<Rightarrow> 'm backfill_cfg \<Rightarrow> buffer \<Rightarrow> real \<Rightarrow> nat \<Rightarrow> real" where
  "skip_to e c b position windows =
     (if \<not> skips e c then position
      else
        let position = (case plan_first (job_plan c) b of
              None \<Rightarrow> position
            | Some f \<Rightarrow> if position < f \<or> (bc_job c = REPLAY \<and> windows = 0 \<and> f < position) then f else position)
        in if bp_ticks (job_plan c) \<noteq> [] then position
           else case plan_next_point (job_plan c) position b of
                  None \<Rightarrow> position
                | Some f \<Rightarrow> if position < f then f else position)"

definition job_step :: "'m backfill_env \<Rightarrow> 'm backfill_cfg \<Rightarrow> bool \<Rightarrow> real \<Rightarrow> 'm backfill_run \<Rightarrow> 'm backfill_run option" where
  "job_step e c holds until st =
     map_option (\<lambda>(ok, n, m).
        let st = st\<lparr>br_calls := n, br_producer := (br_producer st)\<lparr>memory := m\<rparr>\<rparr> in
        if \<not> ok then st\<lparr>br_active := False\<rparr>
        else
          case commit_window (be_app e) (saves (be_app e) n) (bc_name c) (bc_job c) holds (br_producer st) until
                 (br_windows st + 1) False (br_buffer st) of
            (False, b) \<Rightarrow> st\<lparr>br_buffer := b, br_active := False\<rparr>
          | (True, b) \<Rightarrow> st\<lparr>br_buffer := b, br_position := until, br_windows := br_windows st + 1\<rparr>)
       (run_window e (bc_name c) (bc_job c) holds (job_plan c) (br_buffer st) (br_position st) until
          (br_calls st, memory (br_producer st)))"

definition hand_over :: "'m backfill_env \<Rightarrow> 'm backfill_cfg \<Rightarrow> real \<Rightarrow> bool \<Rightarrow> 'm backfill_run \<Rightarrow> 'm backfill_run option" where
  "hand_over e c now at_head st =
     (let edge = plan_edge (job_plan c) now (br_buffer st); until = bc_after c (max edge (br_position st)) in
      if \<not> at_head \<and> bp_signals (job_plan c) \<noteq> [] then Some st
      else if br_position st + bc_window c < edge then Some st
      else
        map_option (\<lambda>(ok, n, m).
           let st = st\<lparr>br_calls := n, br_producer := (br_producer st)\<lparr>memory := m\<rparr>\<rparr> in
           if \<not> ok then st\<lparr>br_active := False\<rparr>
           else
             case commit_window (be_app e) (saves (be_app e) n) (bc_name c) (bc_job c) True (br_producer st) until
                    (br_windows st + 1) True (br_buffer st) of
               (False, b) \<Rightarrow> st\<lparr>br_buffer := b, br_active := False\<rparr>
             | (True, b) \<Rightarrow> st\<lparr>br_buffer := b, br_active := False, br_finished := Some edge\<rparr>)
          (run_window e (bc_name c) (bc_job c) True (job_plan c) (br_buffer st) (br_position st) until
             (br_calls st, memory (br_producer st))))"

text \<open>The rest of \<open>_hand_over\<close>, after its last commit: the watermark, then the producer is live.\<close>

definition release_live :: "'m backfill_env \<Rightarrow> 'm backfill_cfg \<Rightarrow> 'm backfill_run \<Rightarrow> 'm backfill_run" where
  "release_live e c st =
     (case br_finished st of
        None \<Rightarrow> st
      | Some edge \<Rightarrow> st\<lparr>br_buffer := set_watermark (bc_name c) edge (code_hash (be_app e) (bc_name c)) (br_buffer st),
                        br_held := False, br_finished := None\<rparr>)"

text \<open>One pass of the loop of \<open>_run_job\<close>. \<open>at_head\<close> (\<open>_caught_up\<close>): the ingest has drained to the stream head once.\<close>

definition job_pass :: "'m backfill_env \<Rightarrow> 'm backfill_cfg \<Rightarrow> real \<Rightarrow> bool \<Rightarrow> 'm backfill_run \<Rightarrow> 'm backfill_run option" where
  "job_pass e c now at_head st =
     (if \<not> br_active st \<or> skips e c \<and> bc_job c \<in> {INITIAL, REPLAY} \<and> \<not> at_head then Some st
      else
        let position = skip_to e c (br_buffer st) (br_position st) (br_windows st); st = st\<lparr>br_position := position\<rparr> in
        case map_option j_end (backfill_job_of (bc_name c) (bc_job c) (br_buffer st)) of
          None \<Rightarrow> Some st
        | Some None \<Rightarrow>
            if position + bc_window c < plan_edge (job_plan c) now (br_buffer st)
            then job_step e c True (position + bc_window c) st
            else hand_over e c now at_head st
        | Some (Some until) \<Rightarrow>
            if until \<le> position
            then Some (st\<lparr>br_buffer := finish_backfill (bc_name c) (bc_job c) (br_buffer st), br_active := False\<rparr>)
            else job_step e c False (min (position + bc_window c) until) st)"

section \<open>Planning\<close>

record 'm planned =
  pl_buffer :: buffer
  pl_held :: "string list"
  pl_producers :: "string \<Rightarrow> 'm producer"

text \<open>One producer of \<open>plan\<close>: its declaration, finite, and the times read for it.\<close>

definition plan_initial :: "'m app \<Rightarrow> real \<Rightarrow> string \<times> (real \<times> bool) option \<Rightarrow> 'm planned \<Rightarrow> 'm planned" where
  "plan_initial a now i s =
     (case i of
        (name, None) \<Rightarrow> s
      | (name, Some (horizon, holds)) \<Rightarrow>
          let b = snd (add_backfill_job name INITIAL (now - horizon) (if holds then None else Some now) (code_hash a name) now None (pl_buffer s))
          in case backfill_job_of name INITIAL b of
               None \<Rightarrow> s\<lparr>pl_buffer := b\<rparr>
             | Some j \<Rightarrow>
                 if j_done j then s\<lparr>pl_buffer := b\<rparr>
                 else if j_end j = None \<and> \<not> holds then s\<lparr>pl_buffer := set_backfill_end name INITIAL now b\<rparr>
                 else if j_end j = None then s\<lparr>pl_buffer := b, pl_held := List.insert name (pl_held s)\<rparr>
                 else s\<lparr>pl_buffer := b\<rparr>)"

text \<open>One producer of \<open>_plan_replays\<close>; \<open>Inl\<close>: its checkpoint could not be saved.\<close>

definition plan_replay :: "'m app \<Rightarrow> real \<Rightarrow> string \<times> backfill_plan \<Rightarrow> 'm planned \<Rightarrow> 'm planned outcome" where
  "plan_replay a now i s =
     (case i of (name, plan) \<Rightarrow>
        if name \<in> set (pl_held s) then Inr s
        else
          let b = pl_buffer s; hash = code_hash a name; old = buf_code_hash name b;
              (restored, p) = restore_checkpoint a name b (pl_producers s name);
              s = s\<lparr>pl_producers := (pl_producers s)(name := p)\<rparr>;
              resuming = (case backfill_job_of name REPLAY b of None \<Rightarrow> False | Some j \<Rightarrow> \<not> j_done j \<and> j_code_hash j = hash)
          in if \<not> resuming \<and> old = Some hash \<and> (state_version a name = None \<or> restored) then Inr s
             else
               let start = (case plan_first plan b of None \<Rightarrow> now | Some f \<Rightarrow> f) in
               if bp_metrics plan = []
               then bind_outcome (save_producer a (saves a 0) name p b) (\<lambda>b. Inr (s\<lparr>pl_buffer := set_watermark name start hash b\<rparr>))
               else Inr (s\<lparr>pl_buffer := (if resuming then b else restart_backfill name REPLAY start hash now b),
                           pl_held := List.insert name (pl_held s)\<rparr>))"

fun plan_replays :: "'m app \<Rightarrow> real \<Rightarrow> (string \<times> backfill_plan) list \<Rightarrow> 'm planned \<Rightarrow> 'm planned outcome" where
  "plan_replays a now [] s = Inr s"
| "plan_replays a now (i # is) s = bind_outcome (plan_replay a now i s) (plan_replays a now is)"

definition plan_jobs :: "'m app \<Rightarrow> real \<Rightarrow> (string \<times> (real \<times> bool) option \<times> backfill_plan) list \<Rightarrow> 'm planned \<Rightarrow> 'm planned outcome" where
  "plan_jobs a now is s =
     plan_replays a now (map (\<lambda>(name, _, plan). (name, plan)) is) (fold (plan_initial a now) (map (\<lambda>(name, decl, _). (name, decl)) is) s)"

text \<open>The order of \<open>run\<close>: jobs of producers that run here, those that hold live first.\<close>

definition next_jobs :: "(string \<Rightarrow> bool option) \<Rightarrow> buffer \<Rightarrow> ((string \<times> string) \<times> backfill_job) list" where
  "next_jobs declares b =
     (let runs = filter (\<lambda>((name, job), j). case declares name of None \<Rightarrow> False | Some d \<Rightarrow> job \<noteq> INITIAL \<or> d) (backfill_jobs True b)
      in filter (job_holds_live \<circ> snd) runs @ filter (\<lambda>j. \<not> job_holds_live (snd j)) runs)"

section \<open>Adjacent windows\<close>

definition before :: "('k::linorder \<times> 'a) list \<Rightarrow> ('k \<times> 'a) list \<Rightarrow> bool" where
  "before xs ys \<longleftrightarrow> (\<forall>a \<in> set xs. \<forall>b \<in> set ys. fst a < fst b)"

lemma set_merge_two [simp]: "set (merge_two xs ys) = set xs \<union> set ys"
  by (induction xs ys rule: merge_two.induct) auto

lemma merge_two_Nil [simp]: "merge_two xs [] = xs"
  by (cases xs) auto

lemma merge_two_right: "before ys1 xs2 \<Longrightarrow> merge_two xs2 (ys1 @ ys2) = ys1 @ merge_two xs2 ys2"
  by (induction ys1) (cases xs2; force simp: before_def)+

lemma merge_two_left: "before xs1 ys2 \<Longrightarrow> merge_two (xs1 @ xs2) ys2 = xs1 @ merge_two xs2 ys2"
  by (induction xs1) (cases ys2; force simp: before_def)+

lemma merge_two_append:
  "before (xs1 @ ys1) (xs2 @ ys2) \<Longrightarrow> merge_two (xs1 @ xs2) (ys1 @ ys2) = merge_two xs1 ys1 @ merge_two xs2 ys2"
proof (induction xs1 ys1 rule: merge_two.induct)
  case (1 ys)
  then show ?case by (simp add: merge_two_right before_def)
next
  case (2 v va)
  then have "before (v # va) ys2" by (simp add: before_def)
  then show ?case using merge_two_left [of "v # va" ys2 xs2] by simp
next
  case (3 x xs y ys)
  have "before (xs @ y # ys) (xs2 @ ys2)" "before ((x # xs) @ ys) (xs2 @ ys2)" using 3(3) by (simp_all add: before_def)
  then show ?case using 3(1,2) by auto
qed

lemma set_merge_streams: "set (merge_streams ss) = \<Union> (set ` set ss)"
  by (induction ss) (auto simp: merge_streams_def)

lemma merge_streams_append:
  "before (concat (map fst ps)) (concat (map snd ps)) \<Longrightarrow>
     merge_streams (map (\<lambda>(a, b). a @ b) ps) = merge_streams (map fst ps) @ merge_streams (map snd ps)"
proof (induction ps)
  case (Cons p ps)
  obtain a b where p: "p = (a, b)" by force
  have "before (concat (map fst ps)) (concat (map snd ps))" using Cons.prems unfolding before_def by simp
  from Cons.IH [OF this]
  have ih: "merge_streams (map (\<lambda>(a, b). a @ b) ps) = merge_streams (map fst ps) @ merge_streams (map snd ps)" .
  have "before (a @ merge_streams (map fst ps)) (b @ merge_streams (map snd ps))"
    using Cons.prems by (simp add: before_def p set_merge_streams)
  from merge_two_append [OF this] ih show ?case by (simp add: p merge_streams_def)
qed (simp add: merge_streams_def)

lemma tick_streams_result:
  assumes "\<forall>t \<in> snd ` set ts. timer_ok cr F x z t" "x \<le> y" "y \<le> z"
  shows "\<exists>ps. tick_streams cr x z n ts = Some (map (\<lambda>(a, b). a @ b) ps) \<and> tick_streams cr x y n ts = Some (map fst ps)
     \<and> tick_streams cr y z n ts = Some (map snd ps)
     \<and> (\<forall>(a, b) \<in> set ps. (\<forall>k \<in> fst ` set a. x \<le> fst k \<and> fst k < y) \<and> (\<forall>k \<in> fst ` set b. y \<le> fst k \<and> fst k < z))"
  using assms(1)
proof (induction ts arbitrary: n)
  case (Cons mt ts)
  obtain m t where mt: "mt = (m, t)" by force
  have ok: "timer_ok cr F x z t" using Cons.prems mt by simp
  obtain r where r: "tick_instants cr t x y = Some r" "sorted_wrt (<) r" "set r = {u \<in> fires F t. x \<le> u \<and> u < y}"
    using tick_instants_result [OF ok, of x y] assms(2,3) by auto
  obtain s where s: "tick_instants cr t y z = Some s" "sorted_wrt (<) s" "set s = {u \<in> fires F t. y \<le> u \<and> u < z}"
    using tick_instants_result [OF ok, of y z] assms(2,3) by auto
  obtain u where u: "tick_instants cr t x z = Some u" "sorted_wrt (<) u" "set u = {u \<in> fires F t. x \<le> u \<and> u < z}"
    using tick_instants_result [OF ok, of x z] assms(2,3) by auto
  have "set (r @ s) = set u" using r(3) s(3) u(3) assms(2,3) by auto
  moreover have "\<forall>a \<in> set r. \<forall>b \<in> set s. a < b" using r(3) s(3) by auto
  then have "sorted_wrt (<) (r @ s)" using r(2) s(2) by (auto simp: sorted_wrt_append)
  ultimately have eq: "u = r @ s" using u(2) strict_sorted_equal by blast
  obtain ps where ps: "tick_streams cr x z (n + 1) ts = Some (map (\<lambda>(a, b). a @ b) ps)"
    "tick_streams cr x y (n + 1) ts = Some (map fst ps)" "tick_streams cr y z (n + 1) ts = Some (map snd ps)"
    "\<forall>(a, b) \<in> set ps. (\<forall>k \<in> fst ` set a. x \<le> fst k \<and> fst k < y) \<and> (\<forall>k \<in> fst ` set b. y \<le> fst k \<and> fst k < z)"
    using Cons.IH [of "n + 1"] Cons.prems by auto
  have kr: "\<forall>k \<in> fst ` set (tick_events n m r). x \<le> fst k \<and> fst k < y" "\<forall>k \<in> fst ` set (tick_events n m s). y \<le> fst k \<and> fst k < z"
    using r(3) s(3) by (auto simp: tick_events_def)
  let ?ps = "(tick_events n m r, tick_events n m s) # ps"
  have "tick_streams cr x z n (mt # ts) = Some (map (\<lambda>(a, b). a @ b) ?ps)" "tick_streams cr x y n (mt # ts) = Some (map fst ?ps)"
    "tick_streams cr y z n (mt # ts) = Some (map snd ?ps)" using ps(1-3) r(1) s(1) u(1) eq by (simp_all add: mt tick_events_def)
  then show ?case using ps(4) kr by (intro exI [of _ ?ps]) simp
qed simp

end
