(* ===== verification/Chaski_Backfill_Job.thy ===== *)
theory Chaski_Backfill_Job
  imports Chaski_Backfill
begin

text \<open>
  A backfill that holds live dispatch, over any history of ingest pages, passes of its loop, failures and restarts
  (\<open>_run_job\<close>, \<open>_step\<close>, \<open>_hand_over\<close> of \<open>src/chaski/dataops/backfill.py\<close>): when it lets live dispatch go, the producer's
  state is that of one pass over the whole timeline of its inputs.
\<close>

section \<open>The events of a stretch\<close>


















section \<open>Pages that arrive meanwhile\<close>






definition plan_ok :: "backfill_plan \<Rightarrow> bool" where
  "plan_ok p \<longleftrightarrow> fst ` set (bp_metrics p) \<subseteq> set (bp_signals p)"

lemma plan_of_ok: "plan_ok (plan_of p)"
  by (auto simp: plan_ok_def plan_of_def Let_def List.map_filter_def)




section \<open>What the events do\<close>








section \<open>Where the job stands\<close>

text \<open>Committed, with rows named once.\<close>

definition settled :: "buffer \<Rightarrow> bool" where
  "settled b \<longleftrightarrow> deferred b = 0 \<and> disk b = work b \<and> points_ok b \<and> dict_ok (db_jobs (work b))"

lemma find_map_of: "map_option snd (List.find (\<lambda>x. fst x = k) xs) = map_of xs k"
  by (induction xs) auto

lemma map_of_same_set: "dict_ok xs \<Longrightarrow> dict_ok ys \<Longrightarrow> set xs = set ys \<Longrightarrow> map_of xs k = map_of ys k"
  using map_of_inject_set [of xs ys] by simp

lemma job_row: "settled b \<Longrightarrow> backfill_job_of p j b = map_of (db_jobs (work b)) (p, j)"
  unfolding backfill_job_of_def find_map_of by (rule map_of_same_set) (simp_all add: settled_def backfill_jobs_def distinct_map)











section \<open>What happens to the job\<close>














section \<open>Each of them keeps it\<close>



















section \<open>The passes keep it\<close>

















section \<open>A job starts\<close>


definition unplanned :: "'m backfill_cfg \<Rightarrow> buffer \<Rightarrow> 'm planned" where
  "unplanned c b = \<lparr>pl_buffer = b, pl_held = [], pl_producers = \<lambda>_. \<lparr>memory = bc_fresh c, offsets = []\<rparr>\<rparr>"



text \<open>A process that died after a replay's last commit and before its watermark is planned a new replay, whose first window
  runs on the state restored from that replay's checkpoint.\<close>

lemma replay_over_restored_state:
  assumes "settled b" "restore_checkpoint a (bc_name c) b (pl_producers (unplanned c b) (bc_name c)) = (True, p)"
    "buf_code_hash (bc_name c) b \<noteq> Some (code_hash a (bc_name c))" "bp_metrics (bc_plan c) \<noteq> []"
    "map_of (db_jobs (work b)) (bc_name c, REPLAY) = Some j" "j_done j"
  shows "\<exists>s j'. plan_replay a now (bc_name c, bc_plan c) (unplanned c b) = Inr s \<and> pl_producers s (bc_name c) = p
     \<and> bc_name c \<in> set (pl_held s) \<and> map_of (db_jobs (work (pl_buffer s))) (bc_name c, REPLAY) = Some j' \<and> j_windows j' = 0"
  using assms job_row [OF assms(1)]
  by (simp add: plan_replay_def Let_def restart_backfill_def unplanned_def)



section \<open>The whole timeline, once\<close>
















end
