(* ===== verification/Chaski_Pending.thy ===== *)
theory Chaski_Pending
  imports Chaski_Buffer
begin

text \<open>
  Samples waiting for a binding and for the node's confirmation: \<open>PendingSamples\<close> of \<open>src/chaski/pending.py\<close>,
  and what \<open>Service.publish\<close>, \<open>_buffer_sample\<close> and \<open>_drain_pending\<close> of \<open>src/chaski/service.py\<close> do with it.
  Every operation of the store is one transaction, so the list of rows is what a crash leaves too. The id of a new
  row is SQLite's for an \<open>INTEGER PRIMARY KEY\<close>: one more than the largest in the table.
\<close>

section \<open>The store\<close>

record sample_row =
  sr_id :: nat
  sr_source :: string
  sr_value :: json
  sr_ts :: real
  sr_unit :: "string option"

type_synonym samples = "sample_row list"

definition next_id :: "samples \<Rightarrow> nat" where
  "next_id rows = (if rows = [] then 1 else Max (sr_id ` set rows) + 1)"

definition insert_sample :: "string \<times> json \<times> real \<times> string option \<Rightarrow> samples \<Rightarrow> samples" where
  "insert_sample s rows =
     (case s of (source, v, ts, unit) \<Rightarrow>
        rows @ [\<lparr>sr_id = next_id rows, sr_source = source, sr_value = v, sr_ts = ts, sr_unit = unit\<rparr>])"

definition append_sample :: "string \<Rightarrow> json \<Rightarrow> real \<Rightarrow> string option \<Rightarrow> nat \<Rightarrow> samples \<Rightarrow> samples outcome" where
  "append_sample source v ts unit limit rows =
     (if has_non_finite v then Inl ValueError
      else if limit \<le> length (filter (\<lambda>r. sr_source r = source) rows) then Inl BufferFull
      else Inr (insert_sample (source, v, ts, unit) rows))"

definition append_batch :: "(string \<times> json \<times> real \<times> string option) list \<Rightarrow> nat \<Rightarrow> samples \<Rightarrow> samples outcome" where
  "append_batch batch limit rows =
     (if \<exists>(source, v, ts, unit) \<in> set batch. has_non_finite v then Inl ValueError
      else if limit < length rows + length batch then Inl BufferFull
      else Inr (fold insert_sample batch rows))"

definition count_samples :: "samples \<Rightarrow> nat" where
  "count_samples rows = length rows"

definition page_all :: "nat \<Rightarrow> samples \<Rightarrow> samples" where
  "page_all limit rows = take limit (sort_key sr_id rows)"

definition sample_sources :: "samples \<Rightarrow> string list" where
  "sample_sources rows = remdups (map sr_source rows)"

definition page_of :: "string \<Rightarrow> nat \<Rightarrow> samples \<Rightarrow> samples" where
  "page_of source limit rows = take limit (sort_key sr_id (filter (\<lambda>r. sr_source r = source) rows))"

definition ack_samples :: "nat list \<Rightarrow> samples \<Rightarrow> samples" where
  "ack_samples ids rows = filter (\<lambda>r. sr_id r \<notin> set ids) rows"

section \<open>A durable queue\<close>

text \<open>What a client that drains a queue page by page relies on: a page is what is oldest, and removing a page removes just
  that.\<close>

locale durable_queue =
  fixes ids :: "'item \<Rightarrow> 'id"
    and content :: "'q \<Rightarrow> 'item list"
    and page :: "nat \<Rightarrow> 'q \<Rightarrow> 'item list"
    and sent :: "'id list \<Rightarrow> 'q \<Rightarrow> 'q"
    and good :: "'q \<Rightarrow> bool"
  assumes page_take: "good q \<Longrightarrow> page n q = take n (content q)"
    and distinct_ids: "good q \<Longrightarrow> distinct (map ids (content q))"
    and content_sent: "good q \<Longrightarrow> content (sent is q) = filter (\<lambda>x. ids x \<notin> set is) (content q)"
    and good_sent: "good q \<Longrightarrow> good (sent is q)"
begin

lemma sent_prefix: "good q \<Longrightarrow> content q = xs @ ys \<Longrightarrow> content (sent (map ids xs) q) = ys"
proof -
  assume q: "good q" "content q = xs @ ys"
  have "distinct (map ids (xs @ ys))" using distinct_ids [OF q(1)] q(2) by simp
  then have "filter (\<lambda>x. ids x \<notin> ids ` set xs) (xs @ ys) = ys"
    by (simp add: filter_empty_conv) (rule filter_True, auto)
  then show ?thesis by (simp add: content_sent [OF q(1)] q(2))
qed

lemma sent_page: "good q \<Longrightarrow> content (sent (map ids (page n q)) q) = drop n (content q)"
  by (rule sent_prefix) (simp_all add: page_take)

lemma page_empty_iff: "good q \<Longrightarrow> 0 < n \<Longrightarrow> page n q = [] \<longleftrightarrow> content q = []"
  by (simp add: page_take)

lemma page_and_rest: "good q \<Longrightarrow> content q = page n q @ content (sent (map ids (page n q)) q)"
  unfolding sent_page by (simp add: page_take)

lemma sent_page_shorter:
  "good q \<Longrightarrow> page n q \<noteq> [] \<Longrightarrow> length (content (sent (map ids (page n q)) q)) < length (content q)"
  unfolding sent_page by (simp add: page_take)

end

section \<open>The store is one\<close>

definition samples_ok :: "samples \<Rightarrow> bool" where
  "samples_ok rows \<longleftrightarrow> sorted_wrt (<) (map sr_id rows)"

lemma samples_ok_sort: "samples_ok rows \<Longrightarrow> sort_key sr_id rows = rows"
  by (rule sort_key_id_if_sorted) (auto simp: samples_ok_def sorted_wrt_map intro: sorted_wrt_mono_rel [rotated])

lemma samples_ok_filter: "samples_ok rows \<Longrightarrow> samples_ok (filter P rows)"
  by (simp add: samples_ok_def sorted_wrt_map sorted_wrt_filter)

lemma samples_ok_insert: "samples_ok rows \<Longrightarrow> samples_ok (insert_sample s rows)"
  by (cases s) (auto simp: samples_ok_def insert_sample_def next_id_def sorted_wrt_append le_imp_less_Suc)

lemma samples_ok_ack [simp]: "samples_ok rows \<Longrightarrow> samples_ok (ack_samples ids rows)"
  by (simp add: ack_samples_def samples_ok_filter)

lemma samples_ok_distinct: "samples_ok rows \<Longrightarrow> distinct (map sr_id rows)"
  by (simp add: samples_ok_def strict_sorted_iff)

interpretation all_samples: durable_queue sr_id "\<lambda>rows. rows" page_all ack_samples samples_ok
  by unfold_locales (auto simp: page_all_def samples_ok_sort samples_ok_distinct ack_samples_def samples_ok_filter)

interpretation source_samples: durable_queue sr_id "filter (\<lambda>r. sr_source r = source)" "page_of source" ack_samples samples_ok
  for source
  by unfold_locales
    (auto simp: page_of_def samples_ok_sort samples_ok_filter samples_ok_distinct ack_samples_def conj_commute)


section \<open>Publishing a path\<close>

text \<open>A sample \<open>(value, timestamp, unit)\<close> of a path. \<open>targets\<close> are the bound signals the node publishes
  (\<open>is_published\<close>), \<open>bound\<close> whether any signal is bound. \<open>sv_open\<close>: the store has been opened; \<open>sv_sources\<close> is
  \<open>_pending_sources\<close>. \<open>sv_read\<close> is the page a drain has read and is sending, with its targets. \<open>sv_accepted\<close> lists what
  \<open>publish\<close> took, \<open>sv_done\<close> what left it and the targets it was for, \<open>sv_confirmed\<close> what the node confirmed.\<close>

type_synonym sample = "json \<times> real \<times> string option"

record svc =
  sv_rows :: samples
  sv_open :: bool
  sv_sources :: "string list"
  sv_read :: "(string \<times> samples \<times> string list) option"
  sv_accepted :: "(string \<times> sample) list"
  sv_done :: "(string \<times> sample \<times> string list) list"
  sv_confirmed :: "(string \<times> sample) list"

definition sample_of :: "sample_row \<Rightarrow> sample" where
  "sample_of r = (sr_value r, sr_ts r, sr_unit r)"

text \<open>\<open>_open_pending\<close>.\<close>

definition open_pending :: "svc \<Rightarrow> svc" where
  "open_pending s = (if sv_open s then s else s\<lparr>sv_open := True, sv_sources := sample_sources (sv_rows s)\<rparr>)"

definition MAX_BUFFERED_PER_PATH :: nat where "MAX_BUFFERED_PER_PATH = 100"

definition buffer_sample :: "nat \<Rightarrow> string \<Rightarrow> sample \<Rightarrow> svc \<Rightarrow> unit outcome \<times> svc" where
  "buffer_sample limit path x s =
     (let s = open_pending s in
      case append_sample path (fst x) (fst (snd x)) (snd (snd x)) limit (sv_rows s) of
        Inl e \<Rightarrow> (Inl e, s)
      | Inr rows \<Rightarrow> (Inr (), s\<lparr>sv_rows := rows, sv_sources := List.insert path (sv_sources s),
                            sv_accepted := sv_accepted s @ [(path, x)]\<rparr>))"

text \<open>\<open>publish\<close> after the catalogue: \<open>confirms\<close>: every write to \<open>targets\<close> was confirmed, else it raises.\<close>

definition publish_path :: "nat \<Rightarrow> string \<Rightarrow> sample \<Rightarrow> bool \<Rightarrow> string list \<Rightarrow> bool \<Rightarrow> svc \<Rightarrow> svc" where
  "publish_path limit path x bound targets confirms s =
     (if \<not> bound \<or> sv_open s \<and> path \<in> set (sv_sources s) then snd (buffer_sample limit path x s)
      else if confirms
        then s\<lparr>sv_accepted := sv_accepted s @ [(path, x)], sv_done := sv_done s @ [(path, x, targets)],
               sv_confirmed := sv_confirmed s @ map (\<lambda>t. (t, x)) targets\<rparr>
      else s)"

text \<open>One path of one round of \<open>_drain_pending\<close>: the page is read and its targets taken under the lock, sent outside,
  and its rows removed, under the lock again, if the batch settled.\<close>

definition drain_read :: "nat \<Rightarrow> string \<Rightarrow> bool \<Rightarrow> string list \<Rightarrow> svc \<Rightarrow> svc" where
  "drain_read limit path bound targets s =
     (if bound \<and> sv_open s \<and> path \<in> set (sv_sources s) \<and> sv_read s = None
      then s\<lparr>sv_read := Some (path, page_of path limit (sv_rows s), targets)\<rparr> else s)"

definition drain_settled :: "bool \<Rightarrow> svc \<Rightarrow> svc" where
  "drain_settled confirms s =
     (case sv_read s of
        None \<Rightarrow> s
      | Some (path, rows, targets) \<Rightarrow>
          if confirms
          then let left = ack_samples (map sr_id rows) (sv_rows s)
               in s\<lparr>sv_read := None, sv_rows := left,
                    sv_sources := (if page_of path 1 left = [] then removeAll path (sv_sources s) else sv_sources s),
                    sv_done := sv_done s @ map (\<lambda>r. (path, sample_of r, targets)) rows,
                    sv_confirmed := sv_confirmed s @ concat (map (\<lambda>r. map (\<lambda>t. (t, sample_of r)) targets) rows)\<rparr>
          else s\<lparr>sv_read := None\<rparr>)"

text \<open>The process dies: the rows are on disk. \<open>start\<close> opens the store again when its file exists.\<close>

definition die :: "svc \<Rightarrow> svc" where
  "die s = (let s' = s\<lparr>sv_read := None, sv_sources := [], sv_open := False\<rparr> in if sv_open s then open_pending s' else s')"

datatype svc_event =
    Published string sample bool "string list" bool
  | DrainRead string bool "string list"
  | DrainSettled bool
  | SvcDies

fun svc_step :: "nat \<Rightarrow> nat \<Rightarrow> svc_event \<Rightarrow> svc \<Rightarrow> svc" where
  "svc_step limit page (Published path x bound targets confirms) s = publish_path limit path x bound targets confirms s"
| "svc_step limit page (DrainRead path bound targets) s = drain_read page path bound targets s"
| "svc_step limit page (DrainSettled confirms) s = drain_settled confirms s"
| "svc_step limit page SvcDies s = die s"

definition new_svc :: svc where
  "new_svc = \<lparr>sv_rows = [], sv_open = False, sv_sources = [], sv_read = None, sv_accepted = [], sv_done = [],
     sv_confirmed = []\<rparr>"

section \<open>Nothing is lost, and in order\<close>

definition of_path :: "string \<Rightarrow> (string \<times> 'a) list \<Rightarrow> 'a list" where
  "of_path path xs = map snd (filter (\<lambda>x. fst x = path) xs)"

definition rows_of_path :: "string \<Rightarrow> svc \<Rightarrow> samples" where
  "rows_of_path path s = filter (\<lambda>r. sr_source r = path) (sv_rows s)"

definition svc_inv :: "svc \<Rightarrow> bool" where
  "svc_inv s \<longleftrightarrow> samples_ok (sv_rows s)
     \<and> (if sv_open s then set (sv_sources s) = sr_source ` set (sv_rows s) else sv_rows s = [] \<and> sv_read s = None)
     \<and> (\<forall>path rows targets. sv_read s = Some (path, rows, targets) \<longrightarrow> (\<exists>later. rows_of_path path s = rows @ later))
     \<and> (\<forall>path. of_path path (sv_accepted s) = map fst (of_path path (sv_done s)) @ map sample_of (rows_of_path path s))
     \<and> (\<forall>(path, x, targets) \<in> set (sv_done s). \<forall>t \<in> set targets. (t, x) \<in> set (sv_confirmed s))"

lemma of_path_append [simp]: "of_path p (xs @ ys) = of_path p xs @ of_path p ys"
  by (simp add: of_path_def)

lemma of_path_Cons [simp]: "of_path p [] = []" "of_path p ((q, x) # xs) = (if q = p then x # of_path p xs else of_path p xs)"
  by (auto simp: of_path_def)

lemma of_path_map: "of_path p (map (\<lambda>r. (q, f r)) xs) = (if q = p then map f xs else [])"
  by (auto simp: of_path_def comp_def filter_empty_conv)

lemma svc_inv_open: "svc_inv s \<Longrightarrow> svc_inv (open_pending s)"
  by (auto simp: svc_inv_def open_pending_def rows_of_path_def sample_sources_def)

lemma svc_inv_buffer:
  assumes "svc_inv s"
  shows "svc_inv (snd (buffer_sample limit path x s))"
proof -
  let ?s = "open_pending s"
  have inv: "svc_inv ?s" and o: "sv_open ?s" using svc_inv_open [OF assms] by (auto simp: open_pending_def)
  obtain v ts u where x: "x = (v, ts, u)" by (metis surj_pair)
  show ?thesis
  proof (cases "append_sample path v ts u limit (sv_rows ?s)")
    case (Inl e)
    then show ?thesis using inv by (simp add: buffer_sample_def Let_def x)
  next
    case (Inr rows)
    then have rows: "rows = insert_sample (path, v, ts, u) (sv_rows ?s)" by (auto simp: append_sample_def split: if_splits)
    let ?s' = "?s\<lparr>sv_rows := rows, sv_sources := List.insert path (sv_sources ?s), sv_accepted := sv_accepted ?s @ [(path, x)]\<rparr>"
    have r: "rows_of_path p ?s' = rows_of_path p ?s @
        (if path = p then [\<lparr>sr_id = next_id (sv_rows ?s), sr_source = path, sr_value = v, sr_ts = ts, sr_unit = u\<rparr>] else [])" for p
      by (simp add: rows_of_path_def rows insert_sample_def)
    have "samples_ok rows" using inv by (simp add: svc_inv_def rows samples_ok_insert)
    moreover have "set (sv_sources ?s') = sr_source ` set rows" using inv o by (auto simp: svc_inv_def rows insert_sample_def)
    moreover have "\<exists>later. rows_of_path p ?s' = ps @ later" if "sv_read ?s' = Some (p, ps, targets)" for p ps targets
    proof -
      have "sv_read ?s = Some (p, ps, targets)" using that by simp
      then obtain later where "rows_of_path p ?s = ps @ later" using inv unfolding svc_inv_def by blast
      then show ?thesis unfolding r by simp
    qed
    moreover have "of_path p (sv_accepted ?s') = map fst (of_path p (sv_done ?s')) @ map sample_of (rows_of_path p ?s')" for p
      using inv unfolding r by (simp add: svc_inv_def sample_of_def x)
    ultimately have "svc_inv ?s'" using inv o by (simp add: svc_inv_def)
    then show ?thesis using Inr by (simp add: buffer_sample_def Let_def x)
  qed
qed

lemma svc_inv_publish:
  assumes "svc_inv s" shows "svc_inv (publish_path limit path x bound targets confirms s)"
proof (cases "\<not> bound \<or> sv_open s \<and> path \<in> set (sv_sources s)")
  case True
  then show ?thesis using svc_inv_buffer [OF assms] by (simp add: publish_path_def)
next
  case False
  then have "rows_of_path path s = []"
    using assms by (auto simp: svc_inv_def rows_of_path_def filter_empty_conv split: if_splits)
  then show ?thesis using assms False
    by (auto simp: svc_inv_def publish_path_def rows_of_path_def split: if_splits)
qed

lemma ack_other_path:
  assumes "samples_ok rows" "set xs \<subseteq> set (filter (\<lambda>r. sr_source r = p) rows)" "p \<noteq> q"
  shows "filter (\<lambda>r. sr_source r = q) (ack_samples (map sr_id xs) rows) = filter (\<lambda>r. sr_source r = q) rows"
proof -
  have "sr_id r \<notin> sr_id ` set xs" if "r \<in> set rows" "sr_source r = q" for r
  proof
    assume "sr_id r \<in> sr_id ` set xs"
    then obtain y where "y \<in> set xs" "sr_id y = sr_id r" by auto
    then have "y \<in> set rows" "sr_source y = p" using assms(2) by auto
    moreover have "inj_on sr_id (set rows)" using samples_ok_distinct [OF assms(1)] by (simp add: distinct_map)
    ultimately show False using that assms(3) \<open>sr_id y = sr_id r\<close> by (metis inj_onD)
  qed
  then show ?thesis by (auto simp: ack_samples_def intro!: filter_cong)
qed

lemma svc_inv_settled:
  assumes inv: "svc_inv s" shows "svc_inv (drain_settled confirms s)"
proof (cases "confirms \<and> sv_read s \<noteq> None")
  case False
  then show ?thesis using inv by (auto simp: drain_settled_def svc_inv_def rows_of_path_def split: option.splits prod.splits)
next
  case True
  obtain path rows targets where rd: "sv_read s = Some (path, rows, targets)" using True by (metis not_None_eq surj_pair)
  obtain later where l: "rows_of_path path s = rows @ later" using inv rd unfolding svc_inv_def by blast
  have ok: "samples_ok (sv_rows s)" and o: "sv_open s" and src: "set (sv_sources s) = sr_source ` set (sv_rows s)"
    using inv rd by (auto simp: svc_inv_def split: if_splits)
  let ?left = "ack_samples (map sr_id rows) (sv_rows s)"
  let ?s' = "drain_settled confirms s"
  have s': "sv_rows ?s' = ?left" "sv_read ?s' = None" "sv_open ?s'" "sv_accepted ?s' = sv_accepted s"
    "sv_done ?s' = sv_done s @ map (\<lambda>r. (path, sample_of r, targets)) rows"
    "sv_confirmed ?s' = sv_confirmed s @ concat (map (\<lambda>r. map (\<lambda>t. (t, sample_of r)) targets) rows)"
    "sv_sources ?s' = (if page_of path 1 ?left = [] then removeAll path (sv_sources s) else sv_sources s)"
    using True o by (simp_all add: drain_settled_def rd Let_def)
  have mine: "rows_of_path path ?s' = later"
    using source_samples.sent_prefix [OF ok, of path rows later] l by (simp add: rows_of_path_def s')
  have sub: "set rows \<subseteq> set (filter (\<lambda>r. sr_source r = path) (sv_rows s))" using l unfolding rows_of_path_def by (metis Un_upper1 set_append)
  have other: "rows_of_path p ?s' = rows_of_path p s" if "p \<noteq> path" for p
    using ack_other_path [OF ok sub] that by (auto simp: rows_of_path_def s')
  have "page_of path 1 ?left = [] \<longleftrightarrow> later = []"
    using source_samples.page_empty_iff [OF samples_ok_ack [OF ok], of 1 path] mine by (simp add: rows_of_path_def s')
  moreover have "p \<in> sr_source ` set ?left \<longleftrightarrow> rows_of_path p ?s' \<noteq> []" for p
    by (auto simp: rows_of_path_def s' filter_empty_conv)
  moreover have "p \<in> sr_source ` set (sv_rows s) \<longleftrightarrow> rows_of_path p s \<noteq> []" for p
    by (auto simp: rows_of_path_def filter_empty_conv)
  ultimately have "p \<in> set (sv_sources ?s') \<longleftrightarrow> p \<in> sr_source ` set ?left" for p
    using other [of p] mine l src unfolding s'(7) by (cases "p = path") auto
  then have "set (sv_sources ?s') = sr_source ` set ?left" by blast
  moreover have "of_path p (sv_accepted ?s') = map fst (of_path p (sv_done ?s')) @ map sample_of (rows_of_path p ?s')" for p
    using inv other [of p] mine l by (cases "p = path") (auto simp: s' svc_inv_def of_path_map comp_def)
  moreover have "\<forall>(p, x, ts) \<in> set (sv_done ?s'). \<forall>t \<in> set ts. (t, x) \<in> set (sv_confirmed ?s')"
    using inv by (fastforce simp: s' svc_inv_def)
  ultimately show ?thesis using ok s' by (simp add: svc_inv_def)
qed

lemma svc_inv_step:
  assumes "svc_inv s" shows "svc_inv (svc_step limit page e s)"
proof (cases e)
  case (DrainRead path bound targets)
  have "\<exists>later. rows_of_path path s = page_of path page (sv_rows s) @ later"
    using source_samples.page_take [of "sv_rows s" path page] assms
    by (intro exI [of _ "drop page (rows_of_path path s)"]) (simp add: svc_inv_def rows_of_path_def)
  then show ?thesis using assms DrainRead by (auto simp: drain_read_def svc_inv_def rows_of_path_def)
next
  case SvcDies
  then show ?thesis using assms
    by (auto simp: die_def Let_def svc_inv_def open_pending_def rows_of_path_def sample_sources_def)
qed (use assms svc_inv_publish svc_inv_settled in auto)

section \<open>Properties\<close>

text \<open>C19: The pending store is a first-in first-out queue per path. Whatever samples are published, pages drained, batches
  left unconfirmed and crashes happen, the samples \<open>publish\<close> took for a path are, in their order, those that left the
  store (or never needed it) followed by those still in it, and each that left was confirmed by every published
  signal its path was bound to.\<close>

theorem pending_samples_fifo:
  "of_path path (sv_accepted (fold (svc_step limit page) es new_svc))
     = map fst (of_path path (sv_done (fold (svc_step limit page) es new_svc)))
       @ map sample_of (rows_of_path path (fold (svc_step limit page) es new_svc))
   \<and> {(t, x) |x targets t. (path, x, targets) \<in> set (sv_done (fold (svc_step limit page) es new_svc)) \<and> t \<in> set targets}
       \<subseteq> set (sv_confirmed (fold (svc_step limit page) es new_svc))"
proof -
  have "svc_inv s \<Longrightarrow> svc_inv (fold (svc_step limit page) es s)" for s
    by (induction es arbitrary: s) (simp_all add: svc_inv_step)
  moreover have "svc_inv new_svc" by (auto simp: svc_inv_def new_svc_def rows_of_path_def samples_ok_def)
  ultimately have "svc_inv (fold (svc_step limit page) es new_svc)" by blast
  then show ?thesis unfolding svc_inv_def by blast
qed

end
