(* ===== verification/Chaski_View_Scope.thy ===== *)
theory Chaski_View_Scope
  imports Chaski_Prelude
begin

text \<open>
  Which paths a retained view reads: \<open>ViewScope\<close> of \<open>src/chaski/retained_view.py\<close>. \<open>tp\<close> is the two-segment
  \<open>topic_prefix()\<close> of \<open>colca_data_contracts\<close>. A depth that is a \<open>bool\<close> is not a value of the model, as is a
  \<open>prefixes\<close> that is one string.
\<close>

section \<open>Scopes\<close>

record view_scope =
  sc_prefixes :: "string list"
  sc_depth :: "nat option"

definition slash :: char where "slash = CHR ''/''"

definition scope_path :: "string \<Rightarrow> string outcome" where
  "scope_path prefix =
     (let path = strip_char slash prefix
      in if path = [] then Inl ValueError
         else if \<exists>s \<in> set (split_on slash path). s = [] \<or> s = ''+'' \<or> s = ''#'' then Inl ValueError
         else Inr path)"

text \<open>\<open>tuple(dict.fromkeys(...))\<close>, raising at the first prefix that is refused.\<close>

fun scope_paths :: "string list \<Rightarrow> string list \<Rightarrow> string list outcome" where
  "scope_paths [] seen = Inr seen"
| "scope_paths (p # ps) seen =
     bind_outcome (scope_path p) (\<lambda>q. scope_paths ps (if q \<in> set seen then seen else seen @ [q]))"

definition scope_depth :: "int option \<Rightarrow> nat option outcome" where
  "scope_depth depth =
     (case depth of None \<Rightarrow> Inr None | Some d \<Rightarrow> if d < 1 then Inl ValueError else Inr (Some (nat d)))"

definition mk_view_scope :: "string list \<Rightarrow> int option \<Rightarrow> view_scope outcome" where
  "mk_view_scope prefixes depth =
     bind_outcome (scope_paths prefixes []) (\<lambda>normalized.
       if normalized = [] then Inl ValueError
       else bind_outcome (scope_depth depth) (\<lambda>d. Inr \<lparr>sc_prefixes = normalized, sc_depth = d\<rparr>))"

definition whole_node :: "int option \<Rightarrow> view_scope outcome" where
  "whole_node depth = bind_outcome (scope_depth depth) (\<lambda>d. Inr \<lparr>sc_prefixes = [[]], sc_depth = d\<rparr>)"

definition is_whole_node :: "view_scope \<Rightarrow> bool" where
  "is_whole_node sc \<longleftrightarrow> sc_prefixes sc = [[]]"

definition path_below :: "string \<Rightarrow> string \<Rightarrow> string option" where
  "path_below prefix path =
     (if prefix = [] then Some path
      else if path = prefix then Some []
      else if take (length prefix + 1) path = prefix @ [slash] then Some (drop (length prefix + 1) path)
      else None)"

definition levels :: "string \<Rightarrow> nat" where
  "levels below = (if below = [] then 0 else count_list below slash + 1)"

definition in_prefix :: "nat option \<Rightarrow> string \<Rightarrow> string \<Rightarrow> bool" where
  "in_prefix depth path prefix =
     (case path_below prefix path of
        None \<Rightarrow> False
      | Some below \<Rightarrow> (case depth of None \<Rightarrow> True | Some d \<Rightarrow> levels below \<le> d))"

definition scope_contains :: "view_scope \<Rightarrow> string \<Rightarrow> bool" where
  "scope_contains sc path = (\<exists>prefix \<in> set (sc_prefixes sc). in_prefix (sc_depth sc) path prefix)"

section \<open>The filters of a fetch\<close>

definition MAX_TOPIC_FILTERS :: nat where "MAX_TOPIC_FILTERS = 1000"

definition filter_base :: "string \<Rightarrow> string \<Rightarrow> string \<Rightarrow> string" where
  "filter_base tp contract prefix = tp @ contract @ ''/+'' @ (if prefix = [] then [] else slash # prefix)"

definition prefix_filters :: "nat option \<Rightarrow> string \<Rightarrow> string list" where
  "prefix_filters depth base =
     (case depth of
        None \<Rightarrow> [base @ ''/#'']
      | Some d \<Rightarrow> base # map (\<lambda>level. base @ concat (replicate level ''/+'')) [1..<d + 1])"

definition topic_filters :: "string \<Rightarrow> string list \<Rightarrow> view_scope \<Rightarrow> string list option outcome" where
  "topic_filters tp contracts sc =
     (if is_whole_node sc \<and> sc_depth sc = None then Inr None
      else let filters = concat (map (\<lambda>c. concat (map (\<lambda>p. prefix_filters (sc_depth sc) (filter_base tp c p)) (sc_prefixes sc)))
                 (sort contracts))
           in if MAX_TOPIC_FILTERS < length filters then Inl ValueError else Inr (Some filters))"

section \<open>What the filters match\<close>

text \<open>An MQTT filter over the segments of a topic: \<open>+\<close> is one segment, a last \<open>#\<close> any number, none included.\<close>

fun mqtt_match :: "string list \<Rightarrow> string list \<Rightarrow> bool" where
  "mqtt_match [] ts = (ts = [])"
| "mqtt_match (f # fs) ts =
     (if f = ''#'' \<and> fs = [] then True
      else (case ts of [] \<Rightarrow> False | t # ts' \<Rightarrow> (f = ''+'' \<or> f = t) \<and> mqtt_match fs ts'))"

definition plain_segment :: "string \<Rightarrow> bool" where
  "plain_segment s \<longleftrightarrow> slash \<notin> set s \<and> s \<noteq> ''+'' \<and> s \<noteq> ''#''"

lemma split_join:
  "xs \<noteq> [] \<Longrightarrow> \<forall>x \<in> set xs. c \<notin> set x \<Longrightarrow> split_on c (join [c] xs) = xs"
proof (induction xs rule: induct_list012)
  case (3 x y zs)
  then show ?case using split_on_append_sep [of c x "join [c] (y # zs)"] split_on_single [of c x] by auto
qed (auto simp: split_on_single)

lemma length_split_on: "length (split_on c s) = count_list s c + 1"
  by (induction s) (auto split: list.splits)

lemma join_append: "ys \<noteq> [] \<Longrightarrow> xs \<noteq> [] \<Longrightarrow> join [c] (xs @ ys) = join [c] xs @ c # join [c] ys"
  by (induction xs rule: induct_list012) (cases ys; auto)+

lemma mqtt_match_plain: "\<forall>f \<in> set fs. f \<noteq> ''#'' \<and> f \<noteq> ''+'' \<Longrightarrow> mqtt_match (fs @ gs) ts \<longleftrightarrow> (\<exists>us. ts = fs @ us \<and> mqtt_match gs us)"
  by (induction fs arbitrary: ts) (auto split: list.splits)

lemma mqtt_match_pluses: "mqtt_match (replicate n ''+'') ts \<longleftrightarrow> length ts = n"
  by (induction n arbitrary: ts) (auto split: list.splits)

lemma split_pluses: "split_on slash (s @ concat (replicate n ''/+'')) = split_on slash s @ replicate n ''+''"
proof (induction n arbitrary: s)
  case (Suc n)
  have "split_on slash (s @ ''/+'') = split_on slash s @ [''+'']"
    using split_on_append_sep [of slash s "''+''"] by (simp add: slash_def)
  then show ?case using Suc [of "s @ ''/+''"] by (simp add: replicate_append_same)
qed simp

text \<open>A path below a prefix, by segments.\<close>

lemma path_below_segments:
  assumes "prefix \<noteq> []"
  shows "path_below prefix path = Some below \<longleftrightarrow>
     path = prefix \<and> below = [] \<or> path = prefix @ slash # below"
proof -
  have "take (length prefix + 1) path = prefix @ [slash] \<longleftrightarrow> path = prefix @ slash # drop (length prefix + 1) path"
    by (metis append.assoc append_Cons append_Nil append_eq_conv_conj append_take_drop_id length_append_singleton
        Suc_eq_plus1)
  then show ?thesis using assms by (auto simp: path_below_def)
qed

lemma levels_join:
  assumes "\<forall>s \<in> set segs. slash \<notin> set s" "1 \<le> d"
  shows "levels (join [slash] segs) \<le> d \<longleftrightarrow> length segs \<le> d"
proof (cases "segs = []")
  case False
  have "length segs = count_list (join [slash] segs) slash + 1"
    using length_split_on [of slash "join [slash] segs"] split_join [OF False assms(1)] by simp
  then show ?thesis using assms(2) by (auto simp: levels_def)
qed (simp add: levels_def)

section \<open>The filters select the scope\<close>

definition wf_prefix :: "string \<Rightarrow> bool" where
  "wf_prefix p \<longleftrightarrow> p = [] \<or> (\<forall>s \<in> set (split_on slash p). s \<noteq> [] \<and> s \<noteq> ''+'' \<and> s \<noteq> ''#'')"

definition wf_scope :: "view_scope \<Rightarrow> bool" where
  "wf_scope sc \<longleftrightarrow> (\<forall>p \<in> set (sc_prefixes sc). wf_prefix p) \<and> (\<forall>d. sc_depth sc = Some d \<longrightarrow> 1 \<le> d)"

lemma scope_path_wf: "scope_path p = Inr q \<Longrightarrow> wf_prefix q"
  unfolding scope_path_def Let_def wf_prefix_def by (simp only: split: if_splits) auto

lemma scope_paths_wf:
  "scope_paths ps seen = Inr qs \<Longrightarrow> \<forall>p \<in> set seen. wf_prefix p \<Longrightarrow> \<forall>p \<in> set qs. wf_prefix p"
proof (induction ps arbitrary: seen)
  case (Cons p ps)
  obtain q where q: "scope_path p = Inr q" "scope_paths ps (if q \<in> set seen then seen else seen @ [q]) = Inr qs"
    using Cons.prems(1) by (auto simp: bind_outcome_Inr)
  have "\<forall>p \<in> set (if q \<in> set seen then seen else seen @ [q]). wf_prefix p"
    using Cons.prems(2) scope_path_wf [OF q(1)] by simp
  from Cons.IH [OF q(2) this] show ?case .
qed simp

lemma scope_depth_wf: "scope_depth depth = Inr (Some d) \<Longrightarrow> 1 \<le> d"
  by (auto simp: scope_depth_def split: option.splits if_splits)

lemma mk_view_scope_wf: "mk_view_scope prefixes depth = Inr sc \<Longrightarrow> wf_scope sc"
  using scope_paths_wf [of prefixes "[]"] scope_depth_wf
  by (auto simp: mk_view_scope_def bind_outcome_Inr wf_scope_def split: if_splits)

lemma whole_node_wf: "whole_node depth = Inr sc \<Longrightarrow> wf_scope sc"
  using scope_depth_wf by (auto simp: whole_node_def bind_outcome_Inr wf_scope_def wf_prefix_def)

definition prefix_segs :: "string \<Rightarrow> string list" where
  "prefix_segs p = (if p = [] then [] else split_on slash p)"

text \<open>In scope, by segments.\<close>

lemma in_prefix_segments:
  assumes p: "wf_prefix p" and rest: "\<forall>s \<in> set rest. slash \<notin> set s" and d: "\<forall>n. d = Some n \<longrightarrow> 1 \<le> n"
  shows "in_prefix d (join [slash] rest) p \<longleftrightarrow>
     (\<exists>more. rest = prefix_segs p @ more \<and> (\<forall>n. d = Some n \<longrightarrow> length more \<le> n))"
proof (cases "p = []")
  case True
  then show ?thesis using levels_join [OF rest] d by (cases d) (auto simp: in_prefix_def path_below_def prefix_segs_def)
next
  case False
  have ps: "prefix_segs p = split_on slash p" "\<forall>s \<in> set (prefix_segs p). slash \<notin> set s" "join [slash] (prefix_segs p) = p"
    using False split_on_no_sep [of _ slash p] by (auto simp: prefix_segs_def)
  have whole: "join [slash] rest = p \<longleftrightarrow> rest = prefix_segs p"
  proof (cases "rest = []")
    case True
    then show ?thesis using False split_on_ne [of slash p] ps(1) by (metis join.simps(1))
  qed (use split_join [of rest slash] rest ps in auto)
  have part: "join [slash] rest = p @ slash # below \<longleftrightarrow> rest = prefix_segs p @ split_on slash below" for below
  proof
    assume "join [slash] rest = p @ slash # below"
    then show "rest = prefix_segs p @ split_on slash below"
      using split_join [of rest slash] rest split_on_append_sep [of slash p below] ps(1) by (cases "rest = []") auto
  next
    assume "rest = prefix_segs p @ split_on slash below"
    then show "join [slash] rest = p @ slash # below"
      using join_append [of "split_on slash below" "prefix_segs p" slash] ps(1,3) by simp
  qed
  show ?thesis
  proof
    assume "in_prefix d (join [slash] rest) p"
    then obtain below where b: "path_below p (join [slash] rest) = Some below" "\<forall>n. d = Some n \<longrightarrow> levels below \<le> n"
      by (auto simp: in_prefix_def split: option.splits)
    from b(1) show "\<exists>more. rest = prefix_segs p @ more \<and> (\<forall>n. d = Some n \<longrightarrow> length more \<le> n)"
      unfolding path_below_segments [OF False]
    proof (elim disjE conjE)
      assume "join [slash] rest = p @ slash # below"
      moreover have "levels below \<le> n \<longleftrightarrow> length (split_on slash below) \<le> n" if "d = Some n" for n
        using levels_join [of "split_on slash below" n] split_on_no_sep [of _ slash below] d that by auto
      ultimately show ?thesis using part b(2) by (intro exI [of _ "split_on slash below"]) auto
    qed (use whole in auto)
  next
    assume "\<exists>more. rest = prefix_segs p @ more \<and> (\<forall>n. d = Some n \<longrightarrow> length more \<le> n)"
    then obtain more where m: "rest = prefix_segs p @ more" "\<forall>n. d = Some n \<longrightarrow> length more \<le> n" by blast
    show "in_prefix d (join [slash] rest) p"
    proof (cases "more = []")
      case True
      then have "path_below p (join [slash] rest) = Some []" using path_below_segments [OF False] whole m by simp
      then show ?thesis by (cases d) (auto simp: in_prefix_def levels_def)
    next
      case False2: False
      have sl: "\<forall>s \<in> set more. slash \<notin> set s" using rest m by simp
      then have sm: "split_on slash (join [slash] more) = more" by (rule split_join [OF False2])
      have "path_below p (join [slash] rest) = Some (join [slash] more)"
        using path_below_segments [OF False] part [of "join [slash] more"] m sm by simp
      then show ?thesis using levels_join [OF sl] m(2) d by (cases d) (auto simp: in_prefix_def)
    qed
  qed
qed

lemma prefix_filters_match:
  assumes tp: "split_on slash tp = [x, y, []]" "x \<notin> {''+'', ''#''}" "y \<notin> {''+'', ''#''}" and c: "plain_segment c"
    and p: "wf_prefix p" and rest: "\<forall>s \<in> set rest. slash \<notin> set s" and d: "\<forall>n. d = Some n \<longrightarrow> 1 \<le> n"
  shows "(\<exists>f \<in> set (prefix_filters d (filter_base tp c p)). mqtt_match (split_on slash f) (x # y # c' # n # rest))
     \<longleftrightarrow> c' = c \<and> in_prefix d (join [slash] rest) p"
proof -
  have plain: "\<forall>s \<in> set (prefix_segs p). s \<noteq> ''#'' \<and> s \<noteq> ''+''" using p by (auto simp: wf_prefix_def prefix_segs_def)
  have cs: "slash \<notin> set c" "c \<noteq> ''+''" "c \<noteq> ''#''" using c by (auto simp: plain_segment_def)
  have tpj: "tp = x @ slash # y @ [slash]" using join_split_on [of slash tp] tp(1) by simp
  have xy: "slash \<notin> set x" "slash \<notin> set y" using split_on_no_sep [of _ slash tp] tp(1) by auto
  have "filter_base tp c p = x @ slash # (y @ slash # (c @ slash # (''+'' @ (if p = [] then [] else slash # p))))"
    by (simp add: filter_base_def tpj slash_def)
  moreover have "split_on slash (''+'' @ (if p = [] then [] else slash # p)) = ''+'' # prefix_segs p"
    using split_on_append_sep [of slash "''+''" p] by (simp add: prefix_segs_def slash_def)
  ultimately have b: "split_on slash (filter_base tp c p) = x # y # c # ''+'' # prefix_segs p"
    using split_on_append_sep split_on_single xy cs(1) by (simp del: split_on.simps)
  have m: "mqtt_match (x # y # c # ''+'' # prefix_segs p @ gs) (x # y # c' # n # rest)
      \<longleftrightarrow> c' = c \<and> (\<exists>more. rest = prefix_segs p @ more \<and> mqtt_match gs more)" for gs
    using tp(2,3) cs mqtt_match_plain [OF plain] by auto
  have "(\<exists>f \<in> set (prefix_filters d (filter_base tp c p)). mqtt_match (split_on slash f) (x # y # c' # n # rest))
      \<longleftrightarrow> c' = c \<and> (\<exists>more. rest = prefix_segs p @ more \<and> (\<forall>n. d = Some n \<longrightarrow> length more \<le> n))"
  proof (cases d)
    case None
    have "split_on slash (filter_base tp c p @ ''/#'') = (x # y # c # ''+'' # prefix_segs p) @ [''#'']"
      using split_on_append_sep [of slash "filter_base tp c p" "''#''"] b by (simp add: slash_def)
    then show ?thesis using m [of "[''#'']"] None by (simp add: prefix_filters_def)
  next
    case (Some k)
    have s: "split_on slash (filter_base tp c p @ concat (replicate l ''/+'')) = x # y # c # ''+'' # prefix_segs p @ replicate l ''+''" for l
      by (simp only: split_pluses b append_Cons)
    have set: "set (prefix_filters d (filter_base tp c p)) = (\<lambda>l. filter_base tp c p @ concat (replicate l ''/+'')) ` {..k}"
    proof -
      have "{..k} = insert 0 (set [1..<k + 1])" by auto
      then show ?thesis by (simp only: image_insert image_set prefix_filters_def Some option.case list.set) simp
    qed
    have "(\<exists>f \<in> set (prefix_filters d (filter_base tp c p)). mqtt_match (split_on slash f) (x # y # c' # n # rest))
        \<longleftrightarrow> (\<exists>l \<in> {..k}. c' = c \<and> (\<exists>more. rest = prefix_segs p @ more \<and> length more = l))"
      by (simp only: set bex_simps s m mqtt_match_pluses)
    then show ?thesis using Some by auto
  qed
  then show ?thesis by (simp only: in_prefix_segments [OF p rest d])
qed

lemma topic_filters_list:
  "topic_filters tp contracts sc = Inr (Some filters) \<Longrightarrow>
     filters = concat (map (\<lambda>c. concat (map (\<lambda>p. prefix_filters (sc_depth sc) (filter_base tp c p)) (sc_prefixes sc)))
       (sort contracts))"
  by (simp add: topic_filters_def Let_def split: if_splits)

text \<open>C20: The topic filters of a fetch select exactly the view's scope: for a scope the constructors accept, a topic
  \<open>prefix/contract/node/path...\<close> matches one of the filters just when its contract is one of the view's and its path is
  in the scope, whatever the depth.\<close>

theorem scope_filters_exact:
  assumes "mk_view_scope prefixes depth = Inr sc \<or> whole_node depth = Inr sc"
    and "split_on slash tp = [x, y, []]" "x \<notin> {''+'', ''#''}" "y \<notin> {''+'', ''#''}"
    and "\<forall>c \<in> set contracts. plain_segment c"
    and "topic_filters tp contracts sc = Inr (Some filters)"
    and "\<forall>s \<in> set rest. slash \<notin> set s"
  shows "(\<exists>f \<in> set filters. mqtt_match (split_on slash f) (x # y # c # n # rest))
     \<longleftrightarrow> c \<in> set contracts \<and> scope_contains sc (join [slash] rest)"
proof -
  have wf: "wf_scope sc" using assms(1) mk_view_scope_wf whole_node_wf by blast
  have "set filters = (\<Union>c \<in> set contracts. \<Union>p \<in> set (sc_prefixes sc). set (prefix_filters (sc_depth sc) (filter_base tp c p)))"
    using topic_filters_list [OF assms(6)] by simp
  then have "(\<exists>f \<in> set filters. mqtt_match (split_on slash f) (x # y # c # n # rest)) \<longleftrightarrow>
      (\<exists>c' \<in> set contracts. \<exists>p \<in> set (sc_prefixes sc).
         \<exists>f \<in> set (prefix_filters (sc_depth sc) (filter_base tp c' p)). mqtt_match (split_on slash f) (x # y # c # n # rest))"
    by auto
  also have "\<dots> \<longleftrightarrow> (\<exists>c' \<in> set contracts. \<exists>p \<in> set (sc_prefixes sc). c = c' \<and> in_prefix (sc_depth sc) (join [slash] rest) p)"
    using wf assms(5) prefix_filters_match [OF assms(2-4) _ _ assms(7)] unfolding wf_scope_def by (intro bex_cong) auto
  finally show ?thesis by (auto simp: scope_contains_def)
qed

theorem scope_filters_exact_witness:
  "\<exists>filters. topic_filters ''colca/v1/'' [''_Signal''] \<lparr>sc_prefixes = [''line1/press3''], sc_depth = Some 1\<rparr> = Inr (Some filters)
     \<and> (\<exists>f \<in> set filters. mqtt_match (split_on slash f) [''colca'', ''v1'', ''_Signal'', ''node'', ''line1'', ''press3'', ''speed''])
     \<and> \<not> (\<exists>f \<in> set filters. mqtt_match (split_on slash f) [''colca'', ''v1'', ''_Signal'', ''node'', ''line1'', ''press30''])"
proof -
  let ?sc = "\<lparr>sc_prefixes = [''line1/press3''], sc_depth = Some 1\<rparr>"
  have mk: "mk_view_scope [''line1/press3''] (Some 1) = Inr ?sc" by code_simp
  have tp: "split_on slash ''colca/v1/'' = [''colca'', ''v1'', []]" by code_simp
  have c: "\<forall>c \<in> set [''_Signal'']. plain_segment c" by code_simp
  have f: "topic_filters ''colca/v1/'' [''_Signal''] ?sc
      = Inr (Some [''colca/v1/_Signal/+/line1/press3'', ''colca/v1/_Signal/+/line1/press3/+''])" by code_simp
  have "scope_contains ?sc (join [slash] [''line1'', ''press3'', ''speed''])" "\<not> scope_contains ?sc (join [slash] [''line1'', ''press30''])"
    by code_simp+
  moreover have r: "\<forall>s \<in> set [''line1'', ''press3'', ''speed'', ''press30'']. slash \<notin> set s" by code_simp
  ultimately show ?thesis
    using f scope_filters_exact [OF disjI1 [OF mk] tp _ _ c f, of "[''line1'', ''press3'', ''speed'']" "''_Signal''" "''node''"]
      scope_filters_exact [OF disjI1 [OF mk] tp _ _ c f, of "[''line1'', ''press30'']" "''_Signal''" "''node''"]
    by simp
qed

end
