(* ===== verification/Chaski_Retained_View.thy ===== *)
theory Chaski_Retained_View
  imports Chaski_View_Scope Chaski_Streams
begin

text \<open>
  A retained snapshot kept current by a stream: \<open>RetainedView\<close> of \<open>src/chaski/retained_view.py\<close>. Its operations run
  under one lock, so they are functions of the state, which keeps the node's cursors too. The node's answers to the \<open>n\<close>-th
  request are arguments (\<open>None\<close>: the request raises). A payload \<open>None\<close> or \<open>b''''\<close> is \<open>JNull\<close> or \<open>JStr ''''\<close>: a tombstone.
  Copies returned to a caller are values.
\<close>

section \<open>The node's answers\<close>

record kv_entry =
  e_path :: string
  e_node :: string
  e_topic :: string
  e_payload :: json
  e_ts :: real
  e_offset :: int

text \<open>\<open>vw_page n s p\<close>: \<open>/fetch\<close> of stream \<open>s\<close> from cursor \<open>p\<close>; \<open>vw_tail\<close>: the \<open>next\<close> of a tail read; \<open>vw_kv\<close>: \<open>/kv\<close>
  under a prefix; \<open>vw_ack\<close>: what becomes of an ack. \<open>vw_stop\<close>: \<open>stop\<close> is set. \<open>vw_expected\<close>: an
  exception after \<open>n\<close> requests is an \<open>expected_failure\<close>. \<open>vw_version\<close>, \<open>vw_hint\<close>: the version of a stream's signal and its newest hint.\<close>

record view_world =
  vw_page :: "nat \<Rightarrow> string \<Rightarrow> int \<Rightarrow> page option"
  vw_tail :: "nat \<Rightarrow> string \<Rightarrow> int option"
  vw_kv :: "nat \<Rightarrow> string \<Rightarrow> kv_entry list option"
  vw_ack :: "nat \<Rightarrow> ack_fate"
  vw_stop :: "nat \<Rightarrow> bool"
  vw_expected :: "nat \<Rightarrow> bool"
  vw_version :: "nat \<Rightarrow> string \<Rightarrow> nat"
  vw_hint :: "nat \<Rightarrow> string \<Rightarrow> stream_change option"

record view_config =
  vc_scope :: view_scope
  vc_contracts :: "string list"
  vc_streams :: "string list"

text \<open>\<open>v_published\<close> is what readers copy; \<open>v_notified\<close>, \<open>v_applied\<close> count \<open>changes.notify()\<close> and \<open>_applied.ring()\<close>.\<close>

record view =
  v_entries :: "(string, kv_entry) dict"
  v_offsets :: "(string, int) dict"
  v_positions :: "(string, int) dict"
  v_cursors :: "string \<Rightarrow> int"
  v_versions :: "(string, nat) dict"
  v_drained_on :: "(string, nat) dict"
  v_initialized :: bool
  v_available :: bool
  v_failing :: "real option"
  v_revision :: nat
  v_published :: "(nat \<times> (string, kv_entry) dict) option"
  v_calls :: nat
  v_notified :: nat
  v_applied :: nat

definition mk_view :: "(string \<Rightarrow> int) \<Rightarrow> view" where
  "mk_view cursors =
     \<lparr>v_entries = [], v_offsets = [], v_positions = [], v_cursors = cursors, v_versions = [], v_drained_on = [],
      v_initialized = False, v_available = False, v_failing = None, v_revision = 0, v_published = None,
      v_calls = 0, v_notified = 0, v_applied = 0\<rparr>"

datatype view_fail = DoorFailed | StoppedBeforeHead | CannotCatchUp | Unreadable

section \<open>Requests\<close>

definition position_of :: "string \<Rightarrow> view \<Rightarrow> int" where
  "position_of s v = (case map_of (v_positions v) s of Some n \<Rightarrow> n | None \<Rightarrow> 0)"

text \<open>\<open>max(0, fetch(..., tail=True).next - 1)\<close>.\<close>

definition tail_head :: "view_world \<Rightarrow> string \<Rightarrow> view \<Rightarrow> int option \<times> view" where
  "tail_head w s v = (map_option (\<lambda>n. n - 1) (vw_tail w (v_calls v) s), v\<lparr>v_calls := v_calls v + 1\<rparr>)"

text \<open>\<open>door.ack\<close>: the node never moves a cursor back.\<close>

definition view_ack :: "view_world \<Rightarrow> string \<Rightarrow> int \<Rightarrow> view \<Rightarrow> bool \<times> view" where
  "view_ack w s offset v =
     (let there = (v_cursors v)(s := max (v_cursors v s) (offset + 1)); n = v_calls v; v = v\<lparr>v_calls := n + 1\<rparr>
      in case vw_ack w n of
           NotReached \<Rightarrow> (False, v)
         | AnswerLost \<Rightarrow> (False, v\<lparr>v_cursors := there\<rparr>)
         | Answered_ok \<Rightarrow> (True, v\<lparr>v_cursors := there\<rparr>))"

section \<open>The snapshot\<close>

fun read_heads :: "view_world \<Rightarrow> string list \<Rightarrow> view \<Rightarrow> (string, int) dict option \<times> view" where
  "read_heads w [] v = (Some [], v)"
| "read_heads w (s # ss) v =
     (case tail_head w s v of
        (None, v) \<Rightarrow> (None, v)
      | (Some h, v) \<Rightarrow>
          (case read_heads w ss v of (None, v) \<Rightarrow> (None, v) | (Some hs, v) \<Rightarrow> (Some ((s, max 0 h) # hs), v)))"

fun read_kv :: "view_world \<Rightarrow> view_scope \<Rightarrow> string list \<Rightarrow> view \<Rightarrow> kv_entry list option \<times> view" where
  "read_kv w sc [] v = (Some [], v)"
| "read_kv w sc (p # ps) v =
     (case vw_kv w (v_calls v) p of
        None \<Rightarrow> (None, v\<lparr>v_calls := v_calls v + 1\<rparr>)
      | Some es \<Rightarrow>
          (case read_kv w sc ps (v\<lparr>v_calls := v_calls v + 1\<rparr>) of
             (None, v) \<Rightarrow> (None, v)
           | (Some fs, v) \<Rightarrow> (Some (filter (\<lambda>e. scope_contains sc (e_path e)) es @ fs), v)))"

fun ack_heads :: "view_world \<Rightarrow> (string, int) dict \<Rightarrow> view \<Rightarrow> bool \<times> view" where
  "ack_heads w [] v = (True, v)"
| "ack_heads w ((s, h) # hs) v =
     (if h \<noteq> 0 then (case view_ack w s h v of (True, v) \<Rightarrow> ack_heads w hs v | (False, v) \<Rightarrow> (False, v))
      else ack_heads w hs v)"

text \<open>\<open>{e.topic: ... for e in entries}\<close>.\<close>

definition by_topic :: "(kv_entry \<Rightarrow> 'a) \<Rightarrow> kv_entry list \<Rightarrow> (string, 'a) dict" where
  "by_topic f es = fold (\<lambda>e. AList.update (e_topic e) (f e)) es []"

definition bootstrap :: "view_config \<Rightarrow> view_world \<Rightarrow> view \<Rightarrow> bool \<times> view" where
  "bootstrap c w v =
     (case read_heads w (vc_streams c) v of
        (None, v) \<Rightarrow> (False, v)
      | (Some heads, v) \<Rightarrow>
          (case read_kv w (vc_scope c) (sc_prefixes (vc_scope c)) v of
             (None, v) \<Rightarrow> (False, v)
           | (Some es, v) \<Rightarrow>
               (case ack_heads w heads (v\<lparr>v_entries := by_topic id es, v_offsets := by_topic e_offset es\<rparr>) of
                  (False, v) \<Rightarrow> (False, v)
                | (True, v) \<Rightarrow>
                    (True, v\<lparr>v_positions := heads, v_drained_on := [], v_initialized := True,
                             v_revision := v_revision v + 1, v_applied := v_applied v + 1\<rparr>))))"

section \<open>Applying records\<close>

definition topic_contract :: "string \<Rightarrow> string option" where
  "topic_contract t = (let ps = split_on slash t in if length ps < 4 then None else Some (ps ! 2))"

definition topic_path :: "string \<Rightarrow> string" where
  "topic_path t = join [slash] (drop 4 (split_on slash t))"

definition is_tombstone :: "record_ \<Rightarrow> bool" where
  "is_tombstone r \<longleftrightarrow> r_payload r = JNull \<or> r_payload r = JStr []"

definition entry_of :: "record_ \<Rightarrow> kv_entry" where
  "entry_of r =
     \<lparr>e_path = topic_path (r_topic r), e_node = split_on slash (r_topic r) ! 3, e_topic = r_topic r, e_payload = r_payload r,
      e_ts = r_ts r, e_offset = r_offset r\<rparr>"

definition relevant :: "view_config \<Rightarrow> string \<Rightarrow> bool" where
  "relevant c t \<longleftrightarrow> (\<exists>k \<in> set (vc_contracts c). topic_contract t = Some k) \<and> scope_contains (vc_scope c) (topic_path t)"

definition apply_record :: "view_config \<Rightarrow> record_ \<Rightarrow> view \<Rightarrow> view" where
  "apply_record c r v =
     (if \<not> relevant c (r_topic r) then v
      else if r_offset r \<le> (case map_of (v_offsets v) (r_topic r) of Some n \<Rightarrow> n | None \<Rightarrow> -1) then v
      else v\<lparr>v_offsets := AList.update (r_topic r) (r_offset r) (v_offsets v), v_revision := v_revision v + 1,
             v_entries := (if is_tombstone r then AList.delete (r_topic r) (v_entries v)
                           else AList.update (r_topic r) (entry_of r) (v_entries v))\<rparr>)"

section \<open>Draining\<close>

datatype drain_end = More | Over | FoundGap | Raised view_fail

definition drain_step :: "view_config \<Rightarrow> view_world \<Rightarrow> string \<Rightarrow> int \<Rightarrow> bool \<Rightarrow> view \<Rightarrow> drain_end \<times> view" where
  "drain_step c w s head first v0 =
     (let v = v0\<lparr>v_calls := v_calls v0 + 1\<rparr> in
      case vw_page w (v_calls v0) s (v_cursors v0 s) of
        None \<Rightarrow> (Raised DoorFailed, v)
      | Some p \<Rightarrow>
          if (first \<and> (\<exists>st \<in> set_option (p_start p). st - 1 < position_of s v)) \<or> p_gap p \<noteq> None
          then (FoundGap, v\<lparr>v_initialized := False\<rparr>)
          else let v = fold (apply_record c) (p_records p) v in
            case ack_offset p of
              None \<Rightarrow>
                if p_next p \<le> head then (Raised StoppedBeforeHead, v)
                else (Over, if p_records p = [] \<and> position_of s v < p_next p - 1
                            then v\<lparr>v_positions := AList.update s (p_next p - 1) (v_positions v), v_applied := v_applied v + 1\<rparr>
                            else v)
            | Some off \<Rightarrow>
                (case view_ack w s off v of
                   (False, v) \<Rightarrow> (Raised DoorFailed, v)
                 | (True, v) \<Rightarrow>
                     (if head \<le> off then Over else More,
                      v\<lparr>v_positions := AList.update s off (v_positions v), v_applied := v_applied v + 1\<rparr>)))"

text \<open>\<open>while not self.stop.is_set()\<close>; \<open>None\<close> is not returning.\<close>

partial_function (option) drain_pages :: "view_config \<Rightarrow> view_world \<Rightarrow> string \<Rightarrow> int \<Rightarrow> bool \<Rightarrow> view
    \<Rightarrow> (drain_end \<times> view) option" where
  "drain_pages c w s head first v =
     (if vw_stop w (v_calls v) then Some (Over, v)
      else if fst (drain_step c w s head first v) = More
        then drain_pages c w s head False (snd (drain_step c w s head first v))
      else Some (drain_step c w s head first v))"

text \<open>One stream of \<open>_snapshot\<close>: \<open>change\<close> is the newest hint, given when the drain is \<open>hinted\<close>.\<close>

definition after_pages :: "view_world \<Rightarrow> string \<Rightarrow> stream_change option \<Rightarrow> drain_end \<times> view \<Rightarrow> drain_end \<times> view" where
  "after_pages w s change r =
     (case r of
        (Over, v) \<Rightarrow>
          (case change of
             None \<Rightarrow> (Over, v)
           | Some ch \<Rightarrow>
               if vw_stop w (v_calls v) then (Over, v)
               else (Over, v\<lparr>v_drained_on := AList.update s (ch_subscription ch) (v_drained_on v)\<rparr>))
      | _ \<Rightarrow> r)"

definition drain_stream :: "view_config \<Rightarrow> view_world \<Rightarrow> string \<Rightarrow> stream_change option \<Rightarrow> view
    \<Rightarrow> (drain_end \<times> view) option" where
  "drain_stream c w s change v =
     (if \<exists>ch \<in> set_option change. covers ch (position_of s v) (map_of (v_drained_on v) s) then Some (Over, v)
      else
        case (case change of None \<Rightarrow> None | Some ch \<Rightarrow> ch_head ch) of
          None \<Rightarrow>
            (case tail_head w s v of
               (None, v) \<Rightarrow> Some (Raised DoorFailed, v)
             | (Some h, v) \<Rightarrow> map_option (after_pages w s change) (drain_pages c w s h True v))
        | Some h \<Rightarrow> map_option (after_pages w s change) (drain_pages c w s h True v))"

fun drain_streams :: "view_config \<Rightarrow> view_world \<Rightarrow> bool \<Rightarrow> string list \<Rightarrow> view \<Rightarrow> (drain_end \<times> view) option" where
  "drain_streams c w hinted [] v = Some (Over, v)"
| "drain_streams c w hinted (s # ss) v =
     Option.bind (drain_stream c w s (if hinted then vw_hint w (v_calls v) s else None) v) (\<lambda>(e, v).
       if e = Over then drain_streams c w hinted ss v else Some (e, v))"

section \<open>A snapshot\<close>

definition versions_of :: "view_world \<Rightarrow> string list \<Rightarrow> view \<Rightarrow> (string, nat) dict" where
  "versions_of w ss v = map (\<lambda>s. (s, vw_version w (v_calls v) s)) ss"

definition publish_view :: "nat \<Rightarrow> (string, nat) dict \<Rightarrow> view \<Rightarrow> view" where
  "publish_view previous versions v0 =
     (let v = v0\<lparr>v_revision := (if v_available v0 then v_revision v0 else v_revision v0 + 1), v_available := True,
                 v_failing := None\<rparr>;
          v = (if v_revision v \<noteq> previous then v\<lparr>v_notified := v_notified v + 1\<rparr> else v);
          v = v\<lparr>v_versions := fold (\<lambda>(s, n). AList.update s n) versions (v_versions v)\<rparr>
      in if map_option fst (v_published v) = Some (v_revision v) then v
         else v\<lparr>v_published := Some (v_revision v, v_entries v)\<rparr>)"

text \<open>\<open>tries\<close> attempts are left; \<open>None\<close> when a drain does not return.\<close>

fun attempts :: "view_config \<Rightarrow> view_world \<Rightarrow> bool \<Rightarrow> nat \<Rightarrow> nat \<Rightarrow> string list \<Rightarrow> (string, nat) dict \<Rightarrow> view
    \<Rightarrow> (view_fail option \<times> view) option" where
  "attempts c w hinted 0 previous selected versions v = Some (Some CannotCatchUp, v)"
| "attempts c w hinted (Suc tries) previous selected versions v =
     (case (if v_initialized v then (True, v) else bootstrap c w v) of
        (False, v') \<Rightarrow> Some (Some DoorFailed, v')
      | (True, v') \<Rightarrow>
          let selected = (if v_initialized v then selected else vc_streams c);
              versions = (if v_initialized v then versions else versions_of w (vc_streams c) v)
          in Option.bind (drain_streams c w hinted selected v') (\<lambda>(e, v).
               case e of
                 Raised x \<Rightarrow> Some (Some x, v)
               | _ \<Rightarrow> if e = Over \<and> \<not> vw_stop w (v_calls v) then Some (None, publish_view previous versions v)
                      else attempts c w hinted tries previous selected versions v))"

definition take_snapshot :: "view_config \<Rightarrow> view_world \<Rightarrow> bool \<Rightarrow> string list option \<Rightarrow> view \<Rightarrow> (view_fail option \<times> view) option" where
  "take_snapshot c w hinted streams v =
     (let selected = (case streams of None \<Rightarrow> vc_streams c | Some ss \<Rightarrow> ss)
      in attempts c w hinted 3 (v_revision v) selected (versions_of w selected v) v)"

section \<open>Reads and refreshes\<close>

definition make_unavailable :: "view \<Rightarrow> view" where
  "make_unavailable v0 =
     (let v = v0\<lparr>v_failing := None\<rparr>
      in if v_available v then v\<lparr>v_available := False, v_revision := v_revision v + 1, v_notified := v_notified v + 1\<rparr> else v)"

definition synchronize :: "view_config \<Rightarrow> view_world \<Rightarrow> view \<Rightarrow> (view_fail option \<times> view) option" where
  "synchronize c w v =
     map_option (\<lambda>(e, v). (e, if e = None then v else make_unavailable v)) (take_snapshot c w False None v)"

definition STALE_GRACE_S :: real where "STALE_GRACE_S = 30"

text \<open>\<open>snapshot\<close>: what a reader gets, and when; \<open>Inl\<close>: it raises.\<close>

definition view_snapshot :: "view_config \<Rightarrow> view_world \<Rightarrow> real \<Rightarrow> view
    \<Rightarrow> ((view_fail + nat \<times> (string, kv_entry) dict) \<times> view) option" where
  "view_snapshot c w now v =
     (if \<not> v_initialized v
      then map_option (\<lambda>(e, v). (case e of Some x \<Rightarrow> Inl x | None \<Rightarrow> Inr (the (v_published v)), v)) (synchronize c w v)
      else
        let v = (case v_failing v of Some t \<Rightarrow> if STALE_GRACE_S \<le> now - t then make_unavailable v else v | None \<Rightarrow> v)
        in Some (if \<not> v_available v then Inl Unreadable
                 else (case v_published v of None \<Rightarrow> Inl Unreadable | Some p \<Rightarrow> Inr p), v))"

definition refresh_changed :: "view_config \<Rightarrow> view_world \<Rightarrow> bool \<Rightarrow> view \<Rightarrow> (view_fail option \<times> view) option" where
  "refresh_changed c w unhinted v =
     (if unhinted then take_snapshot c w False None v
      else
        let ss = filter (\<lambda>s. \<not> v_available v \<or> map_of (v_versions v) s \<noteq> Some (vw_version w (v_calls v) s)) (vc_streams c)
        in if ss = [] then Some (None, v) else take_snapshot c w True (Some ss) v)"

text \<open>\<open>_tolerate\<close>, of the request that raised (the last one made).\<close>

definition tolerate :: "view_world \<Rightarrow> real \<Rightarrow> view \<Rightarrow> bool \<times> view" where
  "tolerate w now v =
     (if \<not> v_available v \<or> \<not> vw_expected w (v_calls v) then (False, v)
      else let t = (case v_failing v of None \<Rightarrow> now | Some t \<Rightarrow> t)
           in (now - t < STALE_GRACE_S, v\<lparr>v_failing := Some t\<rparr>))"

text \<open>One round of \<open>_run\<close> before its wait.\<close>

definition refresh_round :: "view_config \<Rightarrow> view_world \<Rightarrow> real \<Rightarrow> bool \<Rightarrow> view \<Rightarrow> view option" where
  "refresh_round c w now silent v =
     map_option (\<lambda>(e, v).
        if e = None then v
        else (case tolerate w now v of (True, v) \<Rightarrow> v | (False, v) \<Rightarrow> make_unavailable v))
       (refresh_changed c w silent v)"

text \<open>\<open>wait_caught_up\<close> returns True when it finds this.\<close>

definition view_caught_up :: "(string, int) dict \<Rightarrow> view \<Rightarrow> bool" where
  "view_caught_up heads v = (\<forall>(s, h) \<in> set heads. h \<le> position_of s v)"


section \<open>What the node promises\<close>

text \<open>\<open>state_at rs t x\<close>: the retained record of topic \<open>t\<close> when the stream \<open>rs\<close> had got to offset \<open>x\<close>.\<close>

definition state_at :: "record_ list \<Rightarrow> string \<Rightarrow> int \<Rightarrow> kv_entry option" where
  "state_at rs t x =
     (let mine = filter (\<lambda>r. r_topic r = t \<and> r_offset r \<le> x) rs
      in if mine = [] \<or> is_tombstone (last mine) then None else Some (entry_of (last mine)))"

definition on_stream :: "record_ list \<Rightarrow> string \<Rightarrow> bool" where
  "on_stream rs t \<longleftrightarrow> (\<exists>r \<in> set rs. r_topic r = t)"

definition view_page_ok :: "view_config \<Rightarrow> record_ list \<Rightarrow> int \<Rightarrow> int \<Rightarrow> page \<Rightarrow> bool" where
  "view_page_ok c rs admitted p pg \<longleftrightarrow>
     p \<le> p_next pg \<and> p_next pg \<le> max p (admitted + 1) \<and> (p_start pg = None \<or> p_start pg = Some p)
     \<and> (\<exists>sel. (\<forall>r \<in> set rs. relevant c (r_topic r) \<longrightarrow> sel r)
          \<and> p_records pg = filter (\<lambda>r. p \<le> r_offset r \<and> r_offset r < p_next pg \<and> sel r) rs)"

definition view_kv_ok :: "view_config \<Rightarrow> (string \<Rightarrow> record_ list) \<Rightarrow> (string \<Rightarrow> int) \<Rightarrow> string \<Rightarrow> kv_entry list \<Rightarrow> bool" where
  "view_kv_ok c lg admitted p es \<longleftrightarrow>
     (\<forall>e \<in> set es. scope_contains (vc_scope c) (e_path e) \<longrightarrow> relevant c (e_topic e) \<and>
        (\<exists>s \<in> set (vc_streams c). on_stream (lg s) (e_topic e) \<and> state_at (lg s) (e_topic e) (admitted s) = Some e))
     \<and> (\<forall>s \<in> set (vc_streams c). \<forall>t e. relevant c t \<and> in_prefix (sc_depth (vc_scope c)) (topic_path t) p
          \<and> state_at (lg s) t (admitted s) = Some e \<longrightarrow> e \<in> set es)"

text \<open>\<open>lg s\<close> is stream \<open>s\<close>, \<open>admitted n s\<close> its last offset when the \<open>n\<close>-th request was answered. A topic lives on one
  stream. A page without a gap holds every record of the filter from the cursor up to its \<open>next\<close>; \<open>/kv\<close> gives the retained
  records of its moment. \<open>stop\<close> is never cleared.\<close>

definition view_node_ok :: "view_config \<Rightarrow> (string \<Rightarrow> record_ list) \<Rightarrow> (nat \<Rightarrow> string \<Rightarrow> int) \<Rightarrow> view_world \<Rightarrow> bool" where
  "view_node_ok c lg admitted w \<longleftrightarrow>
     (\<forall>s. sorted_wrt (<) (map r_offset (lg s)) \<and> (\<forall>r \<in> set (lg s). 0 < r_offset r))
     \<and> (\<forall>s s' r r'. r \<in> set (lg s) \<and> r' \<in> set (lg s') \<and> r_topic r = r_topic r' \<longrightarrow> s = s')
     \<and> (\<forall>n m s. n \<le> m \<longrightarrow> 0 \<le> admitted n s \<and> admitted n s \<le> admitted m s)
     \<and> (\<forall>n s p pg. vw_page w n s p = Some pg \<and> p_gap pg = None \<longrightarrow> view_page_ok c (lg s) (admitted n s) p pg)
     \<and> (\<forall>n s t. vw_tail w n s = Some t \<longrightarrow> t = admitted n s + 1)
     \<and> (\<forall>n p es. vw_kv w n p = Some es \<longrightarrow> view_kv_ok c lg (admitted n) p es)
     \<and> (\<forall>n m. n \<le> m \<and> vw_stop w n \<longrightarrow> vw_stop w m)"

section \<open>Topics\<close>

lemma state_at_cong:
  assumes "sorted_wrt (<) (map r_offset rs)" "x \<le> y" "\<forall>r \<in> set rs. r_topic r = t \<longrightarrow> \<not> (x < r_offset r \<and> r_offset r \<le> y)"
  shows "state_at rs t y = state_at rs t x"
proof -
  have "filter (\<lambda>r. r_topic r = t \<and> r_offset r \<le> y) rs = filter (\<lambda>r. r_topic r = t \<and> r_offset r \<le> x) rs"
    by (rule filter_cong) (use assms in force)+
  then show ?thesis by (simp add: state_at_def)
qed

lemma state_at_record:
  assumes "sorted_wrt (<) (map r_offset rs)" "r \<in> set rs"
  shows "state_at rs (r_topic r) (r_offset r) = (if is_tombstone r then None else Some (entry_of r))"
proof -
  obtain as bs where rs: "rs = as @ r # bs" using assms(2) by (auto simp: in_set_conv_decomp)
  then have "\<forall>b \<in> set bs. r_offset r < r_offset b" using assms(1) by (simp add: sorted_wrt_append)
  then have "filter (\<lambda>x. r_topic x = r_topic r \<and> r_offset x \<le> r_offset r) bs = []" by (force simp: filter_empty_conv)
  then show ?thesis by (simp add: state_at_def rs Let_def)
qed

definition topic_ok :: "record_ list \<Rightarrow> int \<Rightarrow> int \<Rightarrow> view \<Rightarrow> string \<Rightarrow> bool" where
  "topic_ok rs f b v t \<longleftrightarrow>
     (\<exists>x \<ge> f. x \<le> b \<and> map_of (v_entries v) t = state_at rs t x \<and> (\<forall>n. map_of (v_offsets v) t = Some n \<longrightarrow> n \<le> x))"

text \<open>Records the cursor may show again have been counted.\<close>

definition counted_from :: "view_config \<Rightarrow> record_ list \<Rightarrow> int \<Rightarrow> int \<Rightarrow> view \<Rightarrow> bool" where
  "counted_from c rs p f v \<longleftrightarrow>
     (\<forall>r \<in> set rs. relevant c (r_topic r) \<and> p \<le> r_offset r \<and> r_offset r \<le> f \<longrightarrow>
        (\<exists>n. map_of (v_offsets v) (r_topic r) = Some n \<and> r_offset r \<le> n))"

lemma apply_record_simps [simp]:
  "v_positions (apply_record c r v) = v_positions v" "v_cursors (apply_record c r v) = v_cursors v"
  "v_calls (apply_record c r v) = v_calls v" "v_initialized (apply_record c r v) = v_initialized v"
  "v_published (apply_record c r v) = v_published v" "v_available (apply_record c r v) = v_available v"
  "v_drained_on (apply_record c r v) = v_drained_on v"
  by (simp_all add: apply_record_def)

lemma apply_record_other: "r_topic r \<noteq> t \<Longrightarrow>
    map_of (v_entries (apply_record c r v)) t = map_of (v_entries v) t
    \<and> map_of (v_offsets (apply_record c r v)) t = map_of (v_offsets v) t"
  by (simp add: apply_record_def)

lemma apply_records_simps [simp]:
  "v_positions (fold (apply_record c) rs v) = v_positions v" "v_cursors (fold (apply_record c) rs v) = v_cursors v"
  "v_calls (fold (apply_record c) rs v) = v_calls v" "v_initialized (fold (apply_record c) rs v) = v_initialized v"
  "v_published (fold (apply_record c) rs v) = v_published v" "v_available (fold (apply_record c) rs v) = v_available v"
  by (induction rs arbitrary: v) simp_all

lemma apply_records_other: "\<forall>r \<in> set rs. r_topic r \<noteq> t \<Longrightarrow>
    map_of (v_entries (fold (apply_record c) rs v)) t = map_of (v_entries v) t
    \<and> map_of (v_offsets (fold (apply_record c) rs v)) t = map_of (v_offsets v) t"
  by (induction rs arbitrary: v) (simp_all add: apply_record_other)

lemma offsets_grow:
  "map_of (v_offsets v) t = Some n \<Longrightarrow> \<exists>m. map_of (v_offsets (fold (apply_record c) rs v)) t = Some m \<and> n \<le> m"
proof (induction rs arbitrary: v n)
  case (Cons r rs)
  have "\<exists>m. map_of (v_offsets (apply_record c r v)) t = Some m \<and> n \<le> m"
    using Cons.prems by (cases "r_topic r = t") (auto simp: apply_record_def)
  then show ?case using Cons.IH by (metis fold_simps(2) order_trans)
qed simp

lemma offsets_cover:
  "r \<in> set rs \<Longrightarrow> relevant c (r_topic r) \<Longrightarrow> 0 < r_offset r \<Longrightarrow>
     \<exists>n. map_of (v_offsets (fold (apply_record c) rs v)) (r_topic r) = Some n \<and> r_offset r \<le> n"
proof (induction rs arbitrary: v)
  case (Cons x rs)
  show ?case
  proof (cases "r \<in> set rs")
    case False
    then have "r = x" using Cons.prems by simp
    then have "\<exists>n. map_of (v_offsets (apply_record c x v)) (r_topic r) = Some n \<and> r_offset r \<le> n"
      using Cons.prems(2,3) by (auto simp: apply_record_def split: option.splits)
    then obtain n where "map_of (v_offsets (apply_record c x v)) (r_topic r) = Some n" "r_offset r \<le> n" by blast
    then show ?thesis using offsets_grow [of "apply_record c x v" "r_topic r" n c rs] by auto
  qed (use Cons in auto)
qed simp

lemma apply_record_topic_ok:
  assumes so: "sorted_wrt (<) (map r_offset rs)" and r: "r \<in> set rs" "0 < r_offset r" "r_offset r \<le> b" and v: "topic_ok rs f b v t"
    and rel: "relevant c t" and cov: "relevant c (r_topic r) \<Longrightarrow> r_offset r \<le> f \<Longrightarrow>
          \<exists>n. map_of (v_offsets v) (r_topic r) = Some n \<and> r_offset r \<le> n"
    and only: "\<forall>r' \<in> set rs. relevant c (r_topic r') \<and> f < r_offset r' \<and> r_offset r' \<le> r_offset r \<longrightarrow> r' = r"
  shows "topic_ok rs (max f (r_offset r)) b (apply_record c r v) t"
proof -
  obtain x where x: "f \<le> x" "map_of (v_entries v) t = state_at rs t x" "\<forall>n. map_of (v_offsets v) t = Some n \<longrightarrow> n \<le> x" "x \<le> b"
    using v unfolding topic_ok_def by blast
  show ?thesis
  proof (cases "r_topic r = t")
    case False
    have "state_at rs t (max x (r_offset r)) = state_at rs t x"
    proof (rule state_at_cong [OF so])
      show "\<forall>r' \<in> set rs. r_topic r' = t \<longrightarrow> \<not> (x < r_offset r' \<and> r_offset r' \<le> max x (r_offset r))"
        using only x(1) rel False by fastforce
    qed simp
    then have "map_of (v_entries (apply_record c r v)) t = state_at rs t (max x (r_offset r))"
      using apply_record_other [OF False] x(2) by simp
    moreover have "\<forall>n. map_of (v_offsets (apply_record c r v)) t = Some n \<longrightarrow> n \<le> max x (r_offset r)"
      using apply_record_other [OF False] x(3) by (auto intro: order_trans [OF _ max.cobounded1])
    moreover have "max f (r_offset r) \<le> max x (r_offset r)" "max x (r_offset r) \<le> b" using x(1,4) r(3) by simp_all
    ultimately show ?thesis unfolding topic_ok_def by blast
  next
    case True
    show ?thesis
    proof (cases "r_offset r \<le> (case map_of (v_offsets v) t of Some n \<Rightarrow> n | None \<Rightarrow> -1)")
      case le: True
      then have "apply_record c r v = v" using True by (simp add: apply_record_def)
      moreover have "r_offset r \<le> x" using le x(3) r(2) by (auto split: option.splits)
      ultimately show ?thesis using x unfolding topic_ok_def by (intro exI [of _ x]) simp
    next
      case False
      then have "f < r_offset r" using cov True rel by (fastforce split: option.splits)
      moreover have "map_of (v_entries (apply_record c r v)) t = state_at rs t (r_offset r)"
        "map_of (v_offsets (apply_record c r v)) t = Some (r_offset r)"
        using False True rel state_at_record [OF so r(1)] by (simp_all add: apply_record_def)
      ultimately show ?thesis using r(3) unfolding topic_ok_def by (intro exI [of _ "r_offset r"]) auto
    qed
  qed
qed


lemma topic_ok_later:
  assumes so: "sorted_wrt (<) (map r_offset rs)" and v: "topic_ok rs f b v t" and rel: "relevant c t" and gb: "g \<le> b"
    and none: "\<forall>r \<in> set rs. relevant c (r_topic r) \<longrightarrow> \<not> (f < r_offset r \<and> r_offset r \<le> g)"
  shows "topic_ok rs (max f g) b v t"
proof -
  obtain x where x: "f \<le> x" "map_of (v_entries v) t = state_at rs t x" "\<forall>n. map_of (v_offsets v) t = Some n \<longrightarrow> n \<le> x" "x \<le> b"
    using v unfolding topic_ok_def by blast
  have "state_at rs t (max x g) = state_at rs t x"
    by (rule state_at_cong [OF so]) (use none x(1) rel in fastforce)+
  moreover have "\<forall>n. map_of (v_offsets v) t = Some n \<longrightarrow> n \<le> max x g" using x(3) by fastforce
  ultimately show ?thesis using x(1,2,4) gb unfolding topic_ok_def by (intro exI [of _ "max x g"]) auto
qed

lemma apply_records_topic_ok:
  assumes so: "sorted_wrt (<) (map r_offset rs)" and pos: "\<forall>r \<in> set rs. 0 < r_offset r" and rel: "relevant c t" and gb: "g \<le> b"
    and sub: "set xs \<subseteq> set rs" "sorted_wrt (<) (map r_offset xs)" "\<forall>r \<in> set xs. r_offset r \<le> g" and v: "topic_ok rs f b v t"
    and cov: "\<forall>r \<in> set xs. relevant c (r_topic r) \<and> r_offset r \<le> f \<longrightarrow>
          (\<exists>n. map_of (v_offsets v) (r_topic r) = Some n \<and> r_offset r \<le> n)"
    and all: "\<forall>r \<in> set rs. relevant c (r_topic r) \<and> f < r_offset r \<and> r_offset r \<le> g \<longrightarrow> r \<in> set xs"
  shows "topic_ok rs (max f g) b (fold (apply_record c) xs v) t"
  using sub v cov all
proof (induction xs arbitrary: f v)
  case Nil
  have "\<forall>r \<in> set rs. relevant c (r_topic r) \<longrightarrow> \<not> (f < r_offset r \<and> r_offset r \<le> g)" using Nil.prems(6) by auto
  from topic_ok_later [OF so Nil.prems(4) rel gb this] show ?case by simp
next
  case (Cons r xs)
  have later: "\<forall>x \<in> set xs. r_offset r < r_offset x" using Cons.prems(2) by auto
  let ?v = "apply_record c r v" and ?f = "max f (r_offset r)"
  have only: "r' = r" if "r' \<in> set rs" "relevant c (r_topic r')" "f < r_offset r'" "r_offset r' \<le> r_offset r" for r'
  proof -
    have "r_offset r' \<le> g" using that(4) Cons.prems(3) by force
    then have "r' \<in> set (r # xs)" using Cons.prems(6) that by blast
    then show ?thesis using later that(4) by auto
  qed
  have step: "topic_ok rs ?f b ?v t"
  proof (rule apply_record_topic_ok [OF so _ _ _ Cons.prems(4) rel])
    show "r \<in> set rs" "0 < r_offset r" "r_offset r \<le> b" using Cons.prems(1,3) pos gb by auto
    show "\<exists>n. map_of (v_offsets v) (r_topic r) = Some n \<and> r_offset r \<le> n" if "relevant c (r_topic r)" "r_offset r \<le> f"
      using Cons.prems(5) that by simp
  qed (use only in blast)
  have c1: "\<exists>n. map_of (v_offsets ?v) (r_topic x) = Some n \<and> r_offset x \<le> n"
    if x: "x \<in> set xs" "relevant c (r_topic x)" "r_offset x \<le> ?f" for x
  proof -
    have "r_offset x \<le> f" using later x by fastforce
    then obtain n where n: "map_of (v_offsets v) (r_topic x) = Some n" "r_offset x \<le> n" using Cons.prems(5) x by auto
    then show ?thesis using offsets_grow [OF n(1), of c "[r]"] by auto
  qed
  have c2: "\<forall>x \<in> set rs. relevant c (r_topic x) \<and> ?f < r_offset x \<and> r_offset x \<le> g \<longrightarrow> x \<in> set xs"
    using Cons.prems(6) by fastforce
  have "topic_ok rs (max ?f g) b (fold (apply_record c) xs ?v) t"
  proof (rule Cons.IH [OF _ _ _ step _ c2])
    show "set xs \<subseteq> set rs" "sorted_wrt (<) (map r_offset xs)" "\<forall>r \<in> set xs. r_offset r \<le> g" using Cons.prems(1-3) by simp_all
  qed (use c1 in blast)
  moreover have "max ?f g = max f g" using Cons.prems(3) by auto
  ultimately show ?case by simp
qed

section \<open>The invariant\<close>

text \<open>Stream \<open>s\<close> has been applied up to \<open>f\<close>, and nothing from beyond \<open>b\<close> is in it.\<close>

definition stream_applied :: "view_config \<Rightarrow> record_ list \<Rightarrow> string \<Rightarrow> int \<Rightarrow> int \<Rightarrow> view \<Rightarrow> bool" where
  "stream_applied c rs s f b v \<longleftrightarrow>
     position_of s v \<le> f \<and> v_cursors v s \<le> f + 1 \<and> counted_from c rs (v_cursors v s) f v
     \<and> (\<forall>t. relevant c t \<and> on_stream rs t \<longrightarrow> topic_ok rs f b v t)"

definition entries_known :: "view_config \<Rightarrow> (string \<Rightarrow> record_ list) \<Rightarrow> view \<Rightarrow> bool" where
  "entries_known c lg v \<longleftrightarrow>
     (\<forall>t \<in> dom (map_of (v_entries v)). relevant c t \<and> (\<exists>s \<in> set (vc_streams c). on_stream (lg s) t))"

definition published_ok :: "view \<Rightarrow> bool" where
  "published_ok v \<longleftrightarrow> (\<forall>n es. v_published v = Some (n, es) \<longrightarrow>
     n \<le> v_revision v \<and> (v_initialized v \<and> n = v_revision v \<longrightarrow> es = v_entries v))"

definition cursors_ok :: "(nat \<Rightarrow> string \<Rightarrow> int) \<Rightarrow> view \<Rightarrow> bool" where
  "cursors_ok admitted v \<longleftrightarrow> (\<forall>s. v_cursors v s \<le> admitted (v_calls v) s + 1)"

definition applied_ok :: "view_config \<Rightarrow> (string \<Rightarrow> record_ list) \<Rightarrow> (string \<Rightarrow> int) \<Rightarrow> view \<Rightarrow> bool" where
  "applied_ok c lg adm v \<longleftrightarrow> entries_known c lg v \<and> (\<forall>s \<in> set (vc_streams c). \<exists>f. stream_applied c (lg s) s f (adm s) v)"

definition view_inv :: "view_config \<Rightarrow> (string \<Rightarrow> record_ list) \<Rightarrow> (nat \<Rightarrow> string \<Rightarrow> int) \<Rightarrow> view \<Rightarrow> bool" where
  "view_inv c lg admitted v \<longleftrightarrow> cursors_ok admitted v \<and> published_ok v \<and> (v_initialized v \<longrightarrow> applied_ok c lg (admitted (v_calls v)) v)"

lemma view_node_okD:
  assumes "view_node_ok c lg admitted w"
  shows "sorted_wrt (<) (map r_offset (lg s))" "\<forall>r \<in> set (lg s). 0 < r_offset r"
    and "\<lbrakk>r \<in> set (lg s); r' \<in> set (lg s'); r_topic r = r_topic r'\<rbrakk> \<Longrightarrow> s = s'"
    and "n \<le> m \<Longrightarrow> admitted n s \<le> admitted m s" "0 \<le> admitted n s"
    and "\<lbrakk>vw_page w n s p = Some pg; p_gap pg = None\<rbrakk> \<Longrightarrow> view_page_ok c (lg s) (admitted n s) p pg"
    and "vw_tail w n s = Some t \<Longrightarrow> t = admitted n s + 1"
    and "vw_kv w n q = Some es \<Longrightarrow> view_kv_ok c lg (admitted n) q es"
    and "\<lbrakk>vw_stop w n; n \<le> m\<rbrakk> \<Longrightarrow> vw_stop w m"
proof -
  note ok = assms [unfolded view_node_ok_def]
  have a: "\<forall>s. sorted_wrt (<) (map r_offset (lg s)) \<and> (\<forall>r \<in> set (lg s). 0 < r_offset r)" using ok by (elim conjE)
  have b: "\<forall>s s' r r'. r \<in> set (lg s) \<and> r' \<in> set (lg s') \<and> r_topic r = r_topic r' \<longrightarrow> s = s'" using ok by (elim conjE)
  have m: "\<forall>n m s. n \<le> m \<longrightarrow> 0 \<le> admitted n s \<and> admitted n s \<le> admitted m s" using ok by (elim conjE)
  have p: "\<forall>n s p pg. vw_page w n s p = Some pg \<and> p_gap pg = None \<longrightarrow> view_page_ok c (lg s) (admitted n s) p pg" using ok by (elim conjE)
  have t: "\<forall>n s t. vw_tail w n s = Some t \<longrightarrow> t = admitted n s + 1" using ok by (elim conjE)
  have k: "\<forall>n p es. vw_kv w n p = Some es \<longrightarrow> view_kv_ok c lg (admitted n) p es" using ok by (elim conjE)
  have st: "\<forall>n m. n \<le> m \<and> vw_stop w n \<longrightarrow> vw_stop w m" using ok by (elim conjE)
  show "sorted_wrt (<) (map r_offset (lg s))" "\<forall>r \<in> set (lg s). 0 < r_offset r" using a by blast+
  show "\<lbrakk>r \<in> set (lg s); r' \<in> set (lg s'); r_topic r = r_topic r'\<rbrakk> \<Longrightarrow> s = s'" using b by blast
  show "0 \<le> admitted n s" "n \<le> m \<Longrightarrow> admitted n s \<le> admitted m s" using m order_refl [of n] by blast+
  show "\<lbrakk>vw_page w n s p = Some pg; p_gap pg = None\<rbrakk> \<Longrightarrow> view_page_ok c (lg s) (admitted n s) p pg" using p by blast
  show "vw_tail w n s = Some t \<Longrightarrow> t = admitted n s + 1" using t by blast
  show "vw_kv w n q = Some es \<Longrightarrow> view_kv_ok c lg (admitted n) q es" using k by blast
  show "\<lbrakk>vw_stop w n; n \<le> m\<rbrakk> \<Longrightarrow> vw_stop w m" using st by blast
qed

text \<open>What a page's records do to their stream, and that they leave the others alone.\<close>

lemma fold_apply_stream:
  assumes so: "sorted_wrt (<) (map r_offset rs)" and pos: "\<forall>r \<in> set rs. 0 < r_offset r"
    and v: "stream_applied c rs s f b v" and p: "view_page_ok c rs adm (v_cursors v s) pg" and gb: "p_next pg - 1 \<le> b"
  shows "stream_applied c rs s (max f (p_next pg - 1)) b (fold (apply_record c) (p_records pg) v)"
proof -
  let ?p = "v_cursors v s" and ?g = "p_next pg - 1"
  let ?v = "fold (apply_record c) (p_records pg) v"
  obtain sel where sel: "\<forall>r \<in> set rs. relevant c (r_topic r) \<longrightarrow> sel r"
    "p_records pg = filter (\<lambda>r. ?p \<le> r_offset r \<and> r_offset r < p_next pg \<and> sel r) rs"
    using p unfolding view_page_ok_def by blast
  have v': "position_of s v \<le> f" "?p \<le> f + 1" "counted_from c rs ?p f v" "\<And>t. relevant c t \<and> on_stream rs t \<Longrightarrow> topic_ok rs f b v t"
    using v unfolding stream_applied_def by blast+
  have xs: "set (p_records pg) \<subseteq> set rs" "sorted_wrt (<) (map r_offset (p_records pg))" "\<forall>r \<in> set (p_records pg). r_offset r \<le> ?g"
    using so by (auto simp: sel(2) sorted_wrt_map sorted_wrt_filter)
  have "topic_ok rs (max f ?g) b ?v t" if t: "relevant c t \<and> on_stream rs t" for t
  proof (rule apply_records_topic_ok [OF so pos _ gb xs v'(4) [OF t]])
    show "\<forall>r \<in> set (p_records pg). relevant c (r_topic r) \<and> r_offset r \<le> f \<longrightarrow>
        (\<exists>n. map_of (v_offsets v) (r_topic r) = Some n \<and> r_offset r \<le> n)"
      using v'(3) unfolding counted_from_def sel(2) by auto
    show "\<forall>r \<in> set rs. relevant c (r_topic r) \<and> f < r_offset r \<and> r_offset r \<le> ?g \<longrightarrow> r \<in> set (p_records pg)"
      using sel v'(2) by auto
  qed (use t in blast)
  moreover have "counted_from c rs ?p (max f ?g) ?v"
    unfolding counted_from_def
  proof (intro ballI impI)
    fix r assume r: "r \<in> set rs" "relevant c (r_topic r) \<and> ?p \<le> r_offset r \<and> r_offset r \<le> max f ?g"
    show "\<exists>n. map_of (v_offsets ?v) (r_topic r) = Some n \<and> r_offset r \<le> n"
    proof (cases "r_offset r \<le> f")
      case True
      then obtain n where n: "map_of (v_offsets v) (r_topic r) = Some n" "r_offset r \<le> n"
        using v'(3) r unfolding counted_from_def by blast
      then show ?thesis using offsets_grow [OF n(1), of c "p_records pg"] by force
    next
      case False
      then have "r \<in> set (p_records pg)" using r sel by auto
      then show ?thesis using r pos by (intro offsets_cover) auto
    qed
  qed
  ultimately show ?thesis using v'(1,2) by (auto simp: stream_applied_def position_of_def)
qed

lemma stream_applied_frame:
  assumes "stream_applied c rs s f b v" "position_of s v' = position_of s v" "v_cursors v' s = v_cursors v s"
    "\<And>t. on_stream rs t \<Longrightarrow> map_of (v_entries v') t = map_of (v_entries v) t \<and> map_of (v_offsets v') t = map_of (v_offsets v) t"
  shows "stream_applied c rs s f b v'"
proof -
  have "topic_ok rs f b v' t" if "topic_ok rs f b v t" "on_stream rs t" for t
    using that assms(4) [OF that(2)] by (simp add: topic_ok_def)
  moreover have "counted_from c rs (v_cursors v' s) f v'"
    unfolding counted_from_def
  proof (intro ballI impI)
    fix r assume r: "r \<in> set rs" "relevant c (r_topic r) \<and> v_cursors v' s \<le> r_offset r \<and> r_offset r \<le> f"
    then have "\<exists>n. map_of (v_offsets v) (r_topic r) = Some n \<and> r_offset r \<le> n"
      using assms(1,3) by (auto simp: stream_applied_def counted_from_def)
    moreover have "on_stream rs (r_topic r)" using r(1) by (auto simp: on_stream_def)
    ultimately show "\<exists>n. map_of (v_offsets v') (r_topic r) = Some n \<and> r_offset r \<le> n" using assms(4) by simp
  qed
  ultimately show ?thesis using assms(1-3) by (simp add: stream_applied_def)
qed

lemma entries_known_apply:
  "entries_known c lg v \<Longrightarrow> s \<in> set (vc_streams c) \<Longrightarrow> set rs \<subseteq> set (lg s) \<Longrightarrow> entries_known c lg (fold (apply_record c) rs v)"
proof (induction rs arbitrary: v)
  case (Cons r rs)
  have "entries_known c lg (apply_record c r v)"
    using Cons.prems by (auto simp: entries_known_def apply_record_def on_stream_def split: if_splits)
  then show ?case using Cons by simp
qed simp


text \<open>What the requests of a drain leave as it was.\<close>

definition evolves :: "view \<Rightarrow> view \<Rightarrow> bool" where
  "evolves v v' \<longleftrightarrow> v_published v' = v_published v \<and> v_available v' = v_available v \<and> v_revision v \<le> v_revision v'
     \<and> (v_revision v' = v_revision v \<longrightarrow> v_entries v' = v_entries v) \<and> v_calls v \<le> v_calls v'
     \<and> (v_initialized v' \<longrightarrow> v_initialized v)"

lemma evolves_refl [simp]: "evolves v v" by (simp add: evolves_def)

lemma evolves_trans: "evolves a b \<Longrightarrow> evolves b c \<Longrightarrow> evolves a c"
  unfolding evolves_def by (metis order_antisym order_trans)

lemma published_ok_evolves: "published_ok v \<Longrightarrow> evolves v v' \<Longrightarrow> published_ok v'"
  unfolding published_ok_def evolves_def by (metis order_antisym order_trans)

lemma evolves_apply: "evolves v (fold (apply_record c) rs v)"
proof (induction rs arbitrary: v)
  case (Cons r rs)
  have "evolves v (apply_record c r v)" by (auto simp: evolves_def apply_record_def)
  then show ?case using Cons evolves_trans by simp
qed simp

lemma applied_ok_cong:
  assumes "v_positions v' = v_positions v" "v_cursors v' = v_cursors v" "v_entries v' = v_entries v" "v_offsets v' = v_offsets v"
  shows "applied_ok c lg adm v' = applied_ok c lg adm v"
  by (simp add: applied_ok_def entries_known_def stream_applied_def position_of_def counted_from_def topic_ok_def assms)

lemma view_ack_simps [simp]:
  "v_positions (snd (view_ack w s off v)) = v_positions v" "v_entries (snd (view_ack w s off v)) = v_entries v"
  "v_offsets (snd (view_ack w s off v)) = v_offsets v" "v_calls (snd (view_ack w s off v)) = v_calls v + 1"
  "v_initialized (snd (view_ack w s off v)) = v_initialized v" "v_published (snd (view_ack w s off v)) = v_published v"
  "v_revision (snd (view_ack w s off v)) = v_revision v" "v_available (snd (view_ack w s off v)) = v_available v"
  by (auto simp: view_ack_def Let_def split: ack_fate.splits)

lemma view_ack_cursor:
  "v_cursors (snd (view_ack w s off v)) = v_cursors v \<and> \<not> fst (view_ack w s off v)
   \<or> v_cursors (snd (view_ack w s off v)) = (v_cursors v)(s := max (v_cursors v s) (off + 1))"
  by (auto simp: view_ack_def Let_def split: ack_fate.splits)

lemma cursors_ok_mono:
  assumes "view_node_ok c lg admitted w" "cursors_ok admitted v" "v_cursors v' = v_cursors v" "v_calls v \<le> v_calls v'"
  shows "cursors_ok admitted v'"
  unfolding cursors_ok_def
proof
  fix s
  have "admitted (v_calls v) s \<le> admitted (v_calls v') s" using view_node_okD(4) [OF assms(1,4)] .
  then show "v_cursors v' s \<le> admitted (v_calls v') s + 1" using assms(2,3) unfolding cursors_ok_def by (metis add_right_mono order_trans)
qed

lemma cursors_ok_ack:
  assumes ok: "view_node_ok c lg admitted w" "cursors_ok admitted v" and off: "off \<le> admitted (v_calls v) s"
  shows "cursors_ok admitted (snd (view_ack w s off v))"
proof -
  have "v_cursors (snd (view_ack w s off v)) t \<le> admitted (v_calls v) t + 1" for t
    using view_ack_cursor [of w s off v] ok(2) off by (auto simp: cursors_ok_def)
  moreover have "admitted (v_calls v) t \<le> admitted (v_calls v + 1) t" for t using view_node_okD(4) [OF ok(1)] by simp
  ultimately show ?thesis unfolding cursors_ok_def by (simp, meson add_right_mono order_trans)
qed

text \<open>Other streams keep what was applied.\<close>

lemma applied_ok_stream:
  assumes ok: "view_node_ok c lg admitted w" and v: "applied_ok c lg adm v" and s: "s \<in> set (vc_streams c)"
    and st: "stream_applied c (lg s) s f (adm s) v'" and ek: "entries_known c lg v'"
    and same: "\<And>s'. s' \<noteq> s \<Longrightarrow> position_of s' v' = position_of s' v \<and> v_cursors v' s' = v_cursors v s'"
    and other: "\<And>t. \<not> on_stream (lg s) t \<Longrightarrow> map_of (v_entries v') t = map_of (v_entries v) t \<and> map_of (v_offsets v') t = map_of (v_offsets v) t"
  shows "applied_ok c lg adm v'"
  unfolding applied_ok_def
proof (intro conjI ballI)
  fix s' assume s': "s' \<in> set (vc_streams c)"
  show "\<exists>f. stream_applied c (lg s') s' f (adm s') v'"
  proof (cases "s' = s")
    case False
    obtain g where g: "stream_applied c (lg s') s' g (adm s') v" using v s' unfolding applied_ok_def by blast
    have "\<not> on_stream (lg s) t" if "on_stream (lg s') t" for t
      using that False view_node_okD(3) [OF ok] unfolding on_stream_def by metis
    then show ?thesis using stream_applied_frame [OF g] same [OF False] other by blast
  qed (use st in blast)
qed (rule ek)

lemma applied_ok_later:
  assumes "applied_ok c lg adm v" "\<And>s. adm s \<le> adm' s"
  shows "applied_ok c lg adm' v"
proof -
  have "topic_ok rs f b' v t" if "topic_ok rs f b v t" "b \<le> b'" for rs f b b' t
    using that unfolding topic_ok_def by (meson order_trans)
  then have "stream_applied c rs s f b' v" if "stream_applied c rs s f b v" "b \<le> b'" for rs s f b b'
    using that unfolding stream_applied_def by blast
  then show ?thesis using assms unfolding applied_ok_def by blast
qed

definition drained_ok :: "view_config \<Rightarrow> (string \<Rightarrow> record_ list) \<Rightarrow> (nat \<Rightarrow> string \<Rightarrow> int) \<Rightarrow> drain_end \<Rightarrow> view \<Rightarrow> view \<Rightarrow> bool" where
  "drained_ok c lg admitted e v v' \<longleftrightarrow> evolves v v' \<and> cursors_ok admitted v'
     \<and> (if e = FoundGap then \<not> v_initialized v' else v_initialized v' \<and> applied_ok c lg (admitted (v_calls v')) v')"

lemma stream_applied_advance:
  assumes "stream_applied c rs s f b v" "v_entries v' = v_entries v" "v_offsets v' = v_offsets v"
    "position_of s v' \<le> f" "v_cursors v s \<le> v_cursors v' s" "v_cursors v' s \<le> f + 1"
  shows "stream_applied c rs s f b v'"
proof -
  have "counted_from c rs (v_cursors v' s) f v'"
    unfolding counted_from_def
  proof (intro ballI impI)
    fix r assume "r \<in> set rs" "relevant c (r_topic r) \<and> v_cursors v' s \<le> r_offset r \<and> r_offset r \<le> f"
    then show "\<exists>n. map_of (v_offsets v') (r_topic r) = Some n \<and> r_offset r \<le> n"
      using assms(1,3,5) order_trans [OF assms(5)] unfolding stream_applied_def counted_from_def by (simp only: assms(3))
  qed
  then show ?thesis using assms by (simp add: stream_applied_def topic_ok_def)
qed

lemma view_page_ack:
  assumes "view_page_ok c rs adm cur p" "p_gap p = None"
  shows "ack_offset p = Some off \<Longrightarrow> off = p_next p - 1 \<and> cur < p_next p" "ack_offset p = None \<Longrightarrow> p_records p = []"
proof -
  assume a: "ack_offset p = Some off"
  show "off = p_next p - 1 \<and> cur < p_next p"
  proof (cases "p_records p = []")
    case True
    then show ?thesis using a assms by (auto simp: ack_offset_def view_page_ok_def split: if_splits)
  next
    case False
    then have "last (p_records p) \<in> set (p_records p)" by simp
    then have "cur \<le> r_offset (last (p_records p)) \<and> r_offset (last (p_records p)) < p_next p"
      using assms(1) unfolding view_page_ok_def by auto
    then show ?thesis using a False by (simp add: ack_offset_def)
  qed
qed (simp add: ack_offset_def split: if_splits)

lemma drain_step_inv:
  assumes ok: "view_node_ok c lg admitted w" and s: "s \<in> set (vc_streams c)"
    and v: "v_initialized v" "applied_ok c lg (admitted (v_calls v)) v" "cursors_ok admitted v" and h: "drain_step c w s head first v = (e, v')"
  shows "drained_ok c lg admitted e v v'
     \<and> (e = Over \<longrightarrow> head \<le> position_of s v')
     \<and> (e = More \<longrightarrow> v_cursors v s < v_cursors v' s \<and> v_cursors v s \<le> head)
     \<and> (\<forall>s'. s' \<noteq> s \<longrightarrow> position_of s' v' = position_of s' v)"
proof -
  let ?v1 = "v\<lparr>v_calls := v_calls v + 1\<rparr>"
  have c1: "cursors_ok admitted ?v1" by (rule cursors_ok_mono [OF ok v(3)]) simp_all
  let ?A = "admitted (v_calls v)"
  have a1: "applied_ok c lg ?A ?v1" using v(2) by (subst applied_ok_cong [of _ v]) simp_all
  have later: "applied_ok c lg (admitted n) v'" if "applied_ok c lg ?A v'" "v_calls v \<le> n" for v' n
    using that(1) by (rule applied_ok_later) (rule view_node_okD(4) [OF ok that(2)])
  show ?thesis
  proof (cases "vw_page w (v_calls v) s (v_cursors v s)")
    case None
    then show ?thesis using h c1 later [OF a1] v(1) by (auto simp: drain_step_def drained_ok_def evolves_def position_of_def)
  next
    case (Some p)
    show ?thesis
    proof (cases "(first \<and> (\<exists>st \<in> set_option (p_start p). st - 1 < position_of s ?v1)) \<or> p_gap p \<noteq> None")
      case True
      then have "e = FoundGap" "v' = ?v1\<lparr>v_initialized := False\<rparr>" using h Some by (simp_all add: drain_step_def Let_def)
      then show ?thesis using c1 v(1) by (auto simp: drained_ok_def evolves_def position_of_def cursors_ok_def)
    next
      case False
      have pg: "view_page_ok c (lg s) (admitted (v_calls v) s) (v_cursors v s) p"
        using view_node_okD(6) [OF ok Some] False by blast
      let ?v2 = "fold (apply_record c) (p_records p) ?v1"
      have upto: "p_next p - 1 \<le> ?A s"
      proof -
        have "v_cursors v s \<le> ?A s + 1" using v(3) by (simp add: cursors_ok_def)
        then show ?thesis using pg by (auto simp: view_page_ok_def)
      qed
      obtain f where "stream_applied c (lg s) s f (?A s) ?v1" using a1 s unfolding applied_ok_def by blast
      then have st2: "stream_applied c (lg s) s (max f (p_next p - 1)) (?A s) ?v2"
        using fold_apply_stream [OF view_node_okD(1) [OF ok] view_node_okD(2) [OF ok] _ _ upto] pg by simp
      have sub: "set (p_records p) \<subseteq> set (lg s)" using pg by (auto simp: view_page_ok_def)
      have ek2: "entries_known c lg ?v2" using a1 by (intro entries_known_apply [where s = s] s sub) (simp add: applied_ok_def)
      have oth2: "map_of (v_entries ?v2) t = map_of (v_entries v) t \<and> map_of (v_offsets ?v2) t = map_of (v_offsets v) t"
        if "\<not> on_stream (lg s) t" for t
        using apply_records_other [of "p_records p" t c ?v1] that sub unfolding on_stream_def by auto
      have a2: "applied_ok c lg ?A ?v2" by (rule applied_ok_stream [OF ok v(2) s st2 ek2]) (use oth2 in \<open>auto simp: position_of_def\<close>)
      have e2: "evolves v ?v2" by (rule evolves_trans [OF _ evolves_apply]) (simp add: evolves_def)
      have c2: "cursors_ok admitted ?v2" using c1 by (simp add: cursors_ok_def)
      have v2: "v_initialized ?v2" "position_of t ?v2 = position_of t v" "v_cursors ?v2 = v_cursors v" for t
        using v(1) by (simp_all add: position_of_def)
      have pos2: "position_of s ?v2 \<le> max f (p_next p - 1)" using st2 by (simp add: stream_applied_def)
      note ack = view_page_ack [OF pg]
      have gap: "p_gap p = None" using False by simp
      have eq: "(e, v') = (case ack_offset p of
            None \<Rightarrow>
              if p_next p \<le> head then (Raised StoppedBeforeHead, ?v2)
              else (Over, if p_records p = [] \<and> position_of s ?v2 < p_next p - 1
                          then ?v2\<lparr>v_positions := AList.update s (p_next p - 1) (v_positions ?v2), v_applied := v_applied ?v2 + 1\<rparr>
                          else ?v2)
          | Some off \<Rightarrow>
              (case view_ack w s off ?v2 of
                 (False, v) \<Rightarrow> (Raised DoorFailed, v)
               | (True, v) \<Rightarrow>
                   (if head \<le> off then Over else More,
                    v\<lparr>v_positions := AList.update s off (v_positions v), v_applied := v_applied v + 1\<rparr>)))"
        unfolding h [symmetric] by (simp only: drain_step_def Let_def Some option.case False if_False)
      show ?thesis
      proof (cases "ack_offset p")
        case None
        let ?v3 = "if position_of s ?v2 < p_next p - 1
            then ?v2\<lparr>v_positions := AList.update s (p_next p - 1) (v_positions ?v2), v_applied := v_applied ?v2 + 1\<rparr> else ?v2"
        have r: "p_records p = []" using ack(2) gap None by blast
        have "(e, v') = (if p_next p \<le> head then (Raised StoppedBeforeHead, ?v2) else (Over, ?v3))"
          using eq None r by simp
        moreover have "applied_ok c lg ?A ?v3"
          by (rule applied_ok_stream [OF ok v(2) s, of "max f (p_next p - 1)"])
            (use st2 ek2 oth2 in \<open>auto simp: stream_applied_def entries_known_def position_of_def counted_from_def topic_ok_def\<close>)
        moreover have "evolves v ?v3" "cursors_ok admitted ?v3" "v_initialized ?v3" "\<forall>s'. s' \<noteq> s \<longrightarrow> position_of s' ?v3 = position_of s' v"
          using e2 c2 v2 by (auto simp: evolves_def cursors_ok_def position_of_def)
        moreover have "\<not> p_next p \<le> head \<Longrightarrow> head \<le> position_of s ?v3" by (auto simp: position_of_def)
        ultimately show ?thesis using later [OF a2] later e2 c2 v2 by (cases "p_next p \<le> head") (auto simp: drained_ok_def)
      next
        case (Some off)
        have off: "off = p_next p - 1" "v_cursors v s < p_next p" using ack(1) gap Some by blast+
        have adm: "off \<le> admitted (v_calls ?v2) s"
        proof -
          have "admitted (v_calls v) s \<le> admitted (v_calls v + 1) s" using view_node_okD(4) [OF ok] by simp
          then show ?thesis using off upto by simp
        qed
        let ?a = "snd (view_ack w s off ?v2)"
        have cur: "v_cursors ?a = v_cursors v \<and> \<not> fst (view_ack w s off ?v2)
            \<or> v_cursors ?a = (v_cursors v)(s := max (v_cursors v s) (off + 1))" using view_ack_cursor [of w s off ?v2] v2(3) by simp
        have sta: "stream_applied c (lg s) s (max f (p_next p - 1)) (?A s) ?a"
          using st2 cur off v2(3) by (auto simp: stream_applied_def position_of_def counted_from_def topic_ok_def)
        have aa: "applied_ok c lg ?A ?a"
          by (rule applied_ok_stream [OF ok v(2) s sta])
            (use ek2 oth2 cur in \<open>auto simp: entries_known_def position_of_def\<close>)
        have ea: "evolves v ?a" using e2 by (simp add: evolves_def)
        have ca: "cursors_ok admitted ?a" by (rule cursors_ok_ack [OF ok c2 adm])
        show ?thesis
        proof (cases "fst (view_ack w s off ?v2)")
          case False2: False
          then have "e = Raised DoorFailed" "v' = ?a" using eq Some by (auto split: prod.splits bool.splits)
          then show ?thesis using later [OF aa] ea ca v2 by (auto simp: drained_ok_def position_of_def)
        next
          case True
          then obtain a where a: "view_ack w s off ?v2 = (True, a)" by (cases "view_ack w s off ?v2") auto
          then have sa: "?a = a" by simp
          let ?v3 = "a\<lparr>v_positions := AList.update s off (v_positions a), v_applied := v_applied a + 1\<rparr>"
          have ev: "e = (if head \<le> off then Over else More)" "v' = ?v3" using eq Some a by simp_all
          have pa: "v_positions a = v_positions v" "v_entries a = v_entries ?v2" "v_offsets a = v_offsets ?v2" "v_initialized a"
            using view_ack_simps(1-3,5) [of w s off ?v2] v2(1) unfolding sa by simp_all
          have ca': "v_cursors a = (v_cursors v)(s := max (v_cursors v s) (off + 1))" using cur True unfolding sa by simp
          have "stream_applied c (lg s) s (max f (p_next p - 1)) (?A s) ?v3"
            by (rule stream_applied_advance [OF st2]) (use pa ca' off v2(3) in \<open>auto simp: position_of_def\<close>)
          then have a3: "applied_ok c lg ?A ?v3"
            by (rule applied_ok_stream [OF ok v(2) s]) (use ek2 oth2 ca' pa in \<open>auto simp: entries_known_def position_of_def\<close>)
          have "v_calls v \<le> v_calls ?v3" using ea unfolding sa by (simp add: evolves_def)
          then have "applied_ok c lg (admitted (v_calls ?v3)) ?v3" by (rule later [OF a3])
          moreover have "evolves v ?v3" "cursors_ok admitted ?v3" using ea ca unfolding sa by (simp_all add: evolves_def cursors_ok_def)
          ultimately show ?thesis unfolding ev using pa ca' off by (auto simp: drained_ok_def position_of_def)
        qed
      qed
    qed
  qed
qed


lemma drained_ok_trans:
  assumes "drained_ok c lg admitted e1 a b" "e1 \<noteq> FoundGap" "drained_ok c lg admitted e b d"
  shows "drained_ok c lg admitted e a d"
  using assms evolves_trans unfolding drained_ok_def by blast

lemma drained_ok_refl:
  "\<lbrakk>v_initialized v; applied_ok c lg (admitted (v_calls v)) v; cursors_ok admitted v; e \<noteq> FoundGap\<rbrakk> \<Longrightarrow> drained_ok c lg admitted e v v"
  by (simp add: drained_ok_def)

lemma drained_okD:
  assumes "drained_ok c lg admitted e v v'" "e \<noteq> FoundGap"
  shows "v_initialized v'" "applied_ok c lg (admitted (v_calls v')) v'" "cursors_ok admitted v'" "v_calls v \<le> v_calls v'"
  using assms by (simp_all add: drained_ok_def evolves_def)

lemma drain_pages_inv:
  assumes ok: "view_node_ok c lg admitted w" and s: "s \<in> set (vc_streams c)"
    and v: "v_initialized v" "applied_ok c lg (admitted (v_calls v)) v" "cursors_ok admitted v"
  shows "\<exists>e v'. drain_pages c w s head first v = Some (e, v') \<and> e \<noteq> More \<and> drained_ok c lg admitted e v v'
     \<and> (e = Over \<longrightarrow> vw_stop w (v_calls v') \<or> head \<le> position_of s v')
     \<and> (\<forall>s'. s' \<noteq> s \<longrightarrow> position_of s' v' = position_of s' v)"
  using v
proof (induction "nat (head + 1 - v_cursors v s)" arbitrary: v first rule: less_induct)
  case less
  show ?case
  proof (cases "vw_stop w (v_calls v)")
    case True
    then have "drain_pages c w s head first v = Some (Over, v)" by (subst drain_pages.simps) simp
    then show ?thesis using True less.prems drained_ok_refl by auto
  next
    case False
    obtain e v1 where st: "drain_step c w s head first v = (e, v1)" by force
    note inv = drain_step_inv [OF ok s less.prems st]
    show ?thesis
    proof (cases "e = More")
      case True
      have d: "drained_ok c lg admitted More v v1" and lt: "nat (head + 1 - v_cursors v1 s) < nat (head + 1 - v_cursors v s)"
        using inv True by auto
      note v1 = drained_okD(1-3) [OF d]
      from less.hyps [OF lt v1 [simplified], of False] obtain e2 v2 where r: "drain_pages c w s head False v1 = Some (e2, v2)" "e2 \<noteq> More"
        "drained_ok c lg admitted e2 v1 v2" "e2 = Over \<longrightarrow> vw_stop w (v_calls v2) \<or> head \<le> position_of s v2"
        "\<forall>s'. s' \<noteq> s \<longrightarrow> position_of s' v2 = position_of s' v1" by blast
      have "drain_pages c w s head first v = Some (e2, v2)"
        by (subst drain_pages.simps) (simp add: False st True r(1))
      moreover have "drained_ok c lg admitted e2 v v2" by (rule drained_ok_trans [OF d _ r(3)]) simp
      moreover have "\<forall>s'. s' \<noteq> s \<longrightarrow> position_of s' v2 = position_of s' v" using r(5) inv by simp
      ultimately show ?thesis using r(2,4) by blast
    next
      case no: False
      have "drain_pages c w s head first v = Some (e, v1)"
        by (subst drain_pages.simps) (simp add: False st no)
      then show ?thesis using inv no by blast
    qed
  qed
qed

lemma after_pages_result:
  assumes "drained_ok c lg admitted e v v'"
  shows "\<exists>v2. after_pages w s change (e, v') = (e, v2) \<and> drained_ok c lg admitted e v v2 \<and> v_positions v2 = v_positions v'
     \<and> v_calls v2 = v_calls v'"
proof (cases "e = Over \<and> change \<noteq> None \<and> \<not> vw_stop w (v_calls v')")
  case True
  then obtain ch where ch: "change = Some ch" by auto
  let ?v2 = "v'\<lparr>v_drained_on := AList.update s (ch_subscription ch) (v_drained_on v')\<rparr>"
  have "applied_ok c lg adm ?v2 = applied_ok c lg adm v'" for adm by (rule applied_ok_cong) simp_all
  then have "drained_ok c lg admitted e v ?v2" using assms True by (simp add: drained_ok_def evolves_def cursors_ok_def)
  then show ?thesis using True ch by (simp add: after_pages_def)
next
  case False
  then have "after_pages w s change (e, v') = (e, v')" by (cases e; cases change) (auto simp: after_pages_def)
  then show ?thesis using assms by simp
qed

lemma tail_head_inv:
  assumes ok: "view_node_ok c lg admitted w" and h: "tail_head w s v = (h, v')"
  shows "v' = v\<lparr>v_calls := v_calls v + 1\<rparr>" "h = Some n \<Longrightarrow> n = admitted (v_calls v) s"
  using h view_node_okD(7) [OF ok, of "v_calls v" s] by (auto simp: tail_head_def)

lemma calls_inv:
  assumes ok: "view_node_ok c lg admitted w" and v: "v_initialized v" "applied_ok c lg (admitted (v_calls v)) v" "cursors_ok admitted v"
  shows "drained_ok c lg admitted (Raised x) v (v\<lparr>v_calls := v_calls v + 1\<rparr>)"
proof -
  have "applied_ok c lg (admitted (v_calls v)) (v\<lparr>v_calls := v_calls v + 1\<rparr>)" using v(2) by (subst applied_ok_cong [of _ v]) simp_all
  then have "applied_ok c lg (admitted (v_calls v + 1)) (v\<lparr>v_calls := v_calls v + 1\<rparr>)"
    by (rule applied_ok_later) (rule view_node_okD(4) [OF ok], simp)
  moreover have "cursors_ok admitted (v\<lparr>v_calls := v_calls v + 1\<rparr>)" by (rule cursors_ok_mono [OF ok v(3)]) simp_all
  ultimately show ?thesis using v by (simp add: drained_ok_def evolves_def)
qed

lemma drain_stream_inv:
  assumes ok: "view_node_ok c lg admitted w" and s: "s \<in> set (vc_streams c)"
    and v: "v_initialized v" "applied_ok c lg (admitted (v_calls v)) v" "cursors_ok admitted v"
  shows "\<exists>e v'. drain_stream c w s change v = Some (e, v') \<and> drained_ok c lg admitted e v v'
     \<and> (e = Over \<and> change = None \<longrightarrow> vw_stop w (v_calls v') \<or> admitted (v_calls v) s \<le> position_of s v')
     \<and> (\<forall>s'. s' \<noteq> s \<longrightarrow> position_of s' v' = position_of s' v)"
proof (cases "\<exists>ch \<in> set_option change. covers ch (position_of s v) (map_of (v_drained_on v) s)")
  case True
  then have "drain_stream c w s change v = Some (Over, v)" "change \<noteq> None" by (auto simp: drain_stream_def)
  then show ?thesis using v drained_ok_refl by auto
next
  case False
  have pages: "\<exists>e v2. map_option (after_pages w s change) (drain_pages c w s h True v1) = Some (e, v2)
      \<and> drained_ok c lg admitted e v v2 \<and> (e = Over \<longrightarrow> vw_stop w (v_calls v2) \<or> h \<le> position_of s v2)
      \<and> (\<forall>s'. s' \<noteq> s \<longrightarrow> position_of s' v2 = position_of s' v)"
    if d: "drained_ok c lg admitted (Raised x) v v1" and p: "v_positions v1 = v_positions v" for h v1 x
  proof -
    note v1 = drained_okD(1-3) [OF d]
    obtain e v' where r: "drain_pages c w s h True v1 = Some (e, v')" "drained_ok c lg admitted e v1 v'"
      "e = Over \<longrightarrow> vw_stop w (v_calls v') \<or> h \<le> position_of s v'" "\<forall>s'. s' \<noteq> s \<longrightarrow> position_of s' v' = position_of s' v1"
      using drain_pages_inv [OF ok s v1, of h True] by auto
    have "drained_ok c lg admitted e v v'" by (rule drained_ok_trans [OF d _ r(2)]) simp
    then obtain v2 where "after_pages w s change (e, v') = (e, v2)" "drained_ok c lg admitted e v v2"
      "v_positions v2 = v_positions v'" "v_calls v2 = v_calls v'"
      using after_pages_result [of c lg admitted e v v' w s change] by blast
    then show ?thesis using r p by (auto simp: position_of_def)
  qed
  show ?thesis
  proof (cases "case change of None \<Rightarrow> None | Some ch \<Rightarrow> ch_head ch")
    case (Some h)
    then have "drain_stream c w s change v = map_option (after_pages w s change) (drain_pages c w s h True v)"
      using False by (auto simp: drain_stream_def)
    moreover have "change \<noteq> None" using Some by (cases change) auto
    ultimately show ?thesis using pages [OF drained_ok_refl [OF v], of DoorFailed h] by auto
  next
    case None
    obtain h v1 where t: "tail_head w s v = (h, v1)" by force
    note v1 = tail_head_inv [OF ok t]
    have d: "drained_ok c lg admitted (Raised DoorFailed) v v1" unfolding v1(1) by (rule calls_inv [OF ok v])
    show ?thesis
    proof (cases h)
      case n: None
      then have "drain_stream c w s change v = Some (Raised DoorFailed, v1)" using False None t by (simp add: drain_stream_def)
      then show ?thesis using d v1(1) by (auto simp: position_of_def)
    next
      case (Some n)
      then have "drain_stream c w s change v = map_option (after_pages w s change) (drain_pages c w s n True v1)"
        using False None t by (simp add: drain_stream_def)
      moreover have "n = admitted (v_calls v) s" using v1(2) Some by blast
      ultimately show ?thesis using pages [OF d, of n] v1(1) by auto
    qed
  qed
qed

lemma drain_streams_inv:
  assumes ok: "view_node_ok c lg admitted w" and s: "set ss \<subseteq> set (vc_streams c)"
    and v: "v_initialized v" "applied_ok c lg (admitted (v_calls v)) v" "cursors_ok admitted v"
  shows "\<exists>e v'. drain_streams c w hinted ss v = Some (e, v') \<and> drained_ok c lg admitted e v v'
     \<and> (e = Over \<and> \<not> hinted \<longrightarrow> vw_stop w (v_calls v') \<or> (\<forall>s \<in> set ss. admitted (v_calls v) s \<le> position_of s v'))
     \<and> (\<forall>s'. s' \<notin> set ss \<longrightarrow> position_of s' v' = position_of s' v)"
  using s v
proof (induction ss arbitrary: v)
  case Nil
  then show ?case using drained_ok_refl by auto
next
  case (Cons s ss)
  let ?ch = "if hinted then vw_hint w (v_calls v) s else None"
  obtain e v1 where r: "drain_stream c w s ?ch v = Some (e, v1)" "drained_ok c lg admitted e v v1"
    "e = Over \<and> ?ch = None \<longrightarrow> vw_stop w (v_calls v1) \<or> admitted (v_calls v) s \<le> position_of s v1"
    "\<forall>s'. s' \<noteq> s \<longrightarrow> position_of s' v1 = position_of s' v"
    using drain_stream_inv [OF ok _ Cons.prems(2-4), of s ?ch] Cons.prems(1) by auto
  show ?case
  proof (cases "e = Over")
    case False
    then show ?thesis using r by auto
  next
    case True
    note v1 = drained_okD [OF r(2), simplified True, simplified]
    obtain e2 v2 where q: "drain_streams c w hinted ss v1 = Some (e2, v2)" "drained_ok c lg admitted e2 v1 v2"
      "e2 = Over \<and> \<not> hinted \<longrightarrow> vw_stop w (v_calls v2) \<or> (\<forall>s \<in> set ss. admitted (v_calls v1) s \<le> position_of s v2)"
      "\<forall>s'. s' \<notin> set ss \<longrightarrow> position_of s' v2 = position_of s' v1"
      using Cons.IH [OF _ v1(1-3)] Cons.prems(1) by auto
    have "drain_streams c w hinted (s # ss) v = Some (e2, v2)" using r(1) q(1) True by simp
    moreover have "drained_ok c lg admitted e2 v v2" by (rule drained_ok_trans [OF r(2) _ q(2)]) (simp add: True)
    moreover have "vw_stop w (v_calls v2) \<or> (\<forall>s \<in> set (s # ss). admitted (v_calls v) s \<le> position_of s v2)"
      if e: "e2 = Over \<and> \<not> hinted"
    proof (cases "vw_stop w (v_calls v2)")
      case False
      have "v_calls v1 \<le> v_calls v2" using drained_okD(4) [OF q(2)] e by simp
      then have "\<not> vw_stop w (v_calls v1)" using False view_node_okD(9) [OF ok] by blast
      then have "admitted (v_calls v) s \<le> position_of s v1" using r(3) True e by simp
      moreover have "admitted (v_calls v) t \<le> admitted (v_calls v1) t" for t using view_node_okD(4) [OF ok v1(4)] .
      ultimately show ?thesis using q(3,4) e False by (cases "s \<in> set ss") (auto intro: order_trans)
    qed simp
    moreover have "\<forall>s'. s' \<notin> set (s # ss) \<longrightarrow> position_of s' v2 = position_of s' v" using r(4) q(4) by simp
    ultimately show ?thesis by blast
  qed
qed

end
