(* ===== verification/Chaski_View_Life.thy ===== *)
theory Chaski_View_Life
  imports Chaski_Retained_View
begin

text \<open>
  The life of a retained view: its first snapshot, its snapshots and refreshes, and what its readers see
  (\<open>src/chaski/retained_view.py\<close>).
\<close>

section \<open>The first snapshot\<close>









section \<open>Snapshots\<close>












section \<open>The abstract view\<close>




section \<open>Reachable views\<close>



lemma make_unavailable_simps [simp]:
  "v_entries (make_unavailable v) = v_entries v" "v_offsets (make_unavailable v) = v_offsets v"
  "v_positions (make_unavailable v) = v_positions v" "v_cursors (make_unavailable v) = v_cursors v"
  "v_calls (make_unavailable v) = v_calls v" "v_initialized (make_unavailable v) = v_initialized v"
  "v_published (make_unavailable v) = v_published v" "\<not> v_available (make_unavailable v)" "v_revision v \<le> v_revision (make_unavailable v)"
  by (simp_all add: make_unavailable_def Let_def)











section \<open>Properties\<close>



section \<open>A view of two topics\<close>










end
