(* ===== verification/Chaski_Resolve.thy ===== *)
theory Chaski_Resolve
  imports Chaski_View_Life
begin

text \<open>
  Resolution of names to ids over a snapshot of the node's definitions: \<open>src/chaski/dataops/resolve.py\<close> (\<open>_index_of\<close> and the
  resolvers). A record is its topic and its payload, a JSON object; \<open>None\<close> is a tombstone or an entry that is no
  object. Names, ids and tags are the JSON values the payload holds. Which snapshot a pass is pinned to is
  the caller's.
\<close>

section \<open>The index\<close>

record index =
  ix_elements :: "(json, json) dict"
  ix_types :: "(json, json) dict"
  ix_signals :: "(json, (string, json) dict list) dict"
  ix_bindings :: "(json, string \<times> json) dict"
  ix_metric_topics :: "(json, string) dict"
  ix_element_paths :: "(json, string) dict"
  ix_signal_paths :: "(json, string) dict"
  ix_disabled :: "json list"
  ix_signal_ids :: "(string, json) dict"

definition empty_index :: index where
  "empty_index = \<lparr>ix_elements = [], ix_types = [], ix_signals = [], ix_bindings = [], ix_metric_topics = [],
     ix_element_paths = [], ix_signal_paths = [], ix_disabled = [], ix_signal_ids = []\<rparr>"

definition payload_of :: "json \<Rightarrow> (string, json) dict option" where
  "payload_of j = (case j of JObj d \<Rightarrow> if d = [] then None else Some d | _ \<Rightarrow> None)"

definition path_of :: "string \<Rightarrow> string" where
  "path_of topic = join ''/'' (drop 4 (split_on (CHR ''/'') topic))"

definition metric_topic_for :: "string \<Rightarrow> string" where
  "metric_topic_for topic = join ''/'' ((split_on (CHR ''/'') topic)[2 := ''_Metric''])"

text \<open>\<open>needle in topic\<close>.\<close>

definition contains :: "string \<Rightarrow> string \<Rightarrow> bool" where
  "contains needle s \<longleftrightarrow> (\<exists>i < length s + 1. take (length needle) (drop i s) = needle)"

definition get :: "(string, json) dict \<Rightarrow> string \<Rightarrow> json" where
  "get d k = (case map_of d k of Some v \<Rightarrow> v | None \<Rightarrow> JNull)"

definition index_element :: "string \<Rightarrow> (string, json) dict \<Rightarrow> index \<Rightarrow> index" where
  "index_element topic p x =
     (let name = get p ''name''; i = get p ''id'' in
      x\<lparr>ix_elements := (if name \<noteq> JNull \<and> truthy i then insert_row name i (ix_elements x) else ix_elements x),
        ix_element_paths := (if truthy i then AList.update i (path_of topic) (ix_element_paths x) else ix_element_paths x)\<rparr>)"

definition index_type :: "(string, json) dict \<Rightarrow> index \<Rightarrow> index" where
  "index_type p x =
     (let name = get p ''name''; i = get p ''id'' in
      x\<lparr>ix_types := (if name \<noteq> JNull \<and> truthy i then insert_row name i (ix_types x) else ix_types x)\<rparr>)"

definition index_signal :: "string \<Rightarrow> (string, json) dict \<Rightarrow> index \<Rightarrow> index" where
  "index_signal topic p x =
     (let name = get p ''name''; tag = get p ''data_tag''; i = get p ''id''; published = truthy (get p ''is_published'') in
      x\<lparr>ix_signals := (if name \<noteq> JNull
            then AList.update name ((case map_of (ix_signals x) name of Some ps \<Rightarrow> ps | None \<Rightarrow> []) @ [p]) (ix_signals x)
            else ix_signals x),
        ix_metric_topics := (if truthy i then AList.update i (metric_topic_for topic) (ix_metric_topics x) else ix_metric_topics x),
        ix_signal_paths := (if truthy i then AList.update i (path_of topic) (ix_signal_paths x) else ix_signal_paths x),
        ix_signal_ids := (if truthy i then insert_row (path_of topic) i (ix_signal_ids x) else ix_signal_ids x),
        ix_disabled := (if truthy tag \<and> \<not> published then List.insert tag (ix_disabled x) else ix_disabled x),
        ix_bindings := (if truthy tag \<and> truthy i \<and> published then insert_row tag (metric_topic_for topic, i) (ix_bindings x)
                        else ix_bindings x)\<rparr>)"

definition index_record :: "string \<times> (string, json) dict option \<Rightarrow> index \<Rightarrow> index" where
  "index_record r x =
     (case r of
        (topic, None) \<Rightarrow> x
      | (topic, Some p) \<Rightarrow>
          if contains ''/_SystemElement/'' topic then index_element topic p x
          else if contains ''/_AnnotationType/'' topic then index_type p x
          else if contains ''/_Signal/'' topic then index_signal topic p x
          else x)"

definition index_of :: "(string \<times> (string, json) dict option) list \<Rightarrow> index" where
  "index_of rs =
     (let x = fold index_record rs empty_index
      in x\<lparr>ix_disabled := filter (\<lambda>t. map_of (ix_bindings x) t = None) (ix_disabled x)\<rparr>)"

section \<open>The resolvers\<close>

definition resolve_metric_topics :: "index \<Rightarrow> json list \<Rightarrow> (json, string) dict" where
  "resolve_metric_topics x sids =
     fold (\<lambda>sid d. case map_of (ix_metric_topics x) sid of Some t \<Rightarrow> AList.update sid t d | None \<Rightarrow> d) sids []"

definition resolve_signal_path :: "index \<Rightarrow> string \<Rightarrow> json option" where
  "resolve_signal_path x path = map_of (ix_signal_ids x) (strip_char (CHR ''/'') path)"

definition resolve_system_element :: "index \<Rightarrow> json \<Rightarrow> json option" where
  "resolve_system_element x name = map_of (ix_elements x) name"

text \<open>\<open>None\<close> and the \<open>None\<close> of a signal that holds no id are both \<open>JNull\<close>.\<close>

definition resolve_signal :: "index \<Rightarrow> json \<Rightarrow> json option \<Rightarrow> json" where
  "resolve_signal x name element =
     (case (case element of None \<Rightarrow> Some None | Some e \<Rightarrow> map_option Some (map_of (ix_elements x) e)) of
        None \<Rightarrow> JNull
      | Some scope \<Rightarrow>
          (case List.find (\<lambda>p. \<forall>i. scope = Some i \<longrightarrow> get p ''system_element_id'' = i)
                  (case map_of (ix_signals x) name of Some ps \<Rightarrow> ps | None \<Rightarrow> []) of
             None \<Rightarrow> JNull
           | Some p \<Rightarrow> get p ''id''))"

definition signals_outside_element :: "index \<Rightarrow> json \<Rightarrow> json list \<Rightarrow> json list" where
  "signals_outside_element x element sids =
     (case map_of (ix_element_paths x) element of
        None \<Rightarrow> []
      | Some base \<Rightarrow>
          filter (\<lambda>sid. case map_of (ix_signal_paths x) sid of
             None \<Rightarrow> False
           | Some path \<Rightarrow> \<not> (base = [] \<or> take (length base + 1) path = base @ ''/'')) sids)"

definition resolve_annotation_type :: "index \<Rightarrow> json \<Rightarrow> json option" where
  "resolve_annotation_type x name = map_of (ix_types x) name"

definition output_disabled :: "index \<Rightarrow> json \<Rightarrow> bool" where
  "output_disabled x tag \<longleftrightarrow> tag \<in> set (ix_disabled x)"

definition resolve_output_binding :: "index \<Rightarrow> json \<Rightarrow> (string \<times> json) option" where
  "resolve_output_binding x tag = map_of (ix_bindings x) tag"

section \<open>What they answer\<close>

text \<open>The snapshot read record by record: the first one that answers, and the last.\<close>

fun first_answer :: "('r \<Rightarrow> ('k \<times> 'v) option) \<Rightarrow> 'k \<Rightarrow> 'r list \<Rightarrow> 'v option" where
  "first_answer f k [] = None"
| "first_answer f k (r # rs) = (case f r of Some (k', v) \<Rightarrow> if k' = k then Some v else first_answer f k rs | None \<Rightarrow> first_answer f k rs)"

definition last_answer :: "('r \<Rightarrow> ('k \<times> 'v) option) \<Rightarrow> 'k \<Rightarrow> 'r list \<Rightarrow> 'v option" where
  "last_answer f k rs = first_answer f k (rev rs)"

lemma first_answer_append: "first_answer f k (xs @ ys) = (case first_answer f k xs of Some v \<Rightarrow> Some v | None \<Rightarrow> first_answer f k ys)"
  by (induction xs) (auto split: option.split)

text \<open>A record of one kind.\<close>

type_synonym def_record = "string \<times> (string, json) dict option"

definition element_record :: "def_record \<Rightarrow> bool" where
  "element_record r \<longleftrightarrow> snd r \<noteq> None \<and> contains ''/_SystemElement/'' (fst r)"

definition type_record :: "def_record \<Rightarrow> bool" where
  "type_record r \<longleftrightarrow> snd r \<noteq> None \<and> \<not> contains ''/_SystemElement/'' (fst r) \<and> contains ''/_AnnotationType/'' (fst r)"

definition signal_def_record :: "def_record \<Rightarrow> bool" where
  "signal_def_record r \<longleftrightarrow> snd r \<noteq> None \<and> \<not> contains ''/_SystemElement/'' (fst r) \<and> \<not> contains ''/_AnnotationType/'' (fst r)
     \<and> contains ''/_Signal/'' (fst r)"

abbreviation fld :: "def_record \<Rightarrow> string \<Rightarrow> json" where
  "fld r k \<equiv> get (the (snd r)) k"

definition named_id :: "(def_record \<Rightarrow> bool) \<Rightarrow> def_record \<Rightarrow> (json \<times> json) option" where
  "named_id kind r = (if kind r \<and> fld r ''name'' \<noteq> JNull \<and> truthy (fld r ''id'') then Some (fld r ''name'', fld r ''id'') else None)"

definition id_path :: "(def_record \<Rightarrow> bool) \<Rightarrow> def_record \<Rightarrow> (json \<times> string) option" where
  "id_path kind r = (if kind r \<and> truthy (fld r ''id'') then Some (fld r ''id'', path_of (fst r)) else None)"

definition path_id :: "def_record \<Rightarrow> (string \<times> json) option" where
  "path_id r = (if signal_def_record r \<and> truthy (fld r ''id'') then Some (path_of (fst r), fld r ''id'') else None)"

definition id_metric_topic :: "def_record \<Rightarrow> (json \<times> string) option" where
  "id_metric_topic r = (if signal_def_record r \<and> truthy (fld r ''id'') then Some (fld r ''id'', metric_topic_for (fst r)) else None)"

definition tag_binding :: "def_record \<Rightarrow> (json \<times> string \<times> json) option" where
  "tag_binding r =
     (if signal_def_record r \<and> truthy (fld r ''data_tag'') \<and> truthy (fld r ''id'') \<and> truthy (fld r ''is_published'')
      then Some (fld r ''data_tag'', metric_topic_for (fst r), fld r ''id'') else None)"

definition tag_off :: "json \<Rightarrow> def_record \<Rightarrow> bool" where
  "tag_off tag r \<longleftrightarrow> signal_def_record r \<and> truthy tag \<and> fld r ''data_tag'' = tag \<and> \<not> truthy (fld r ''is_published'')"

lemma last_answer_Cons:
  "last_answer f k (r # rs) =
     (case last_answer f k rs of Some v \<Rightarrow> Some v | None \<Rightarrow> (case f r of Some (k', v) \<Rightarrow> if k' = k then Some v else None | None \<Rightarrow> None))"
  by (auto simp: last_answer_def first_answer_append split: option.split)

lemmas kind_defs = element_record_def type_record_def signal_def_record_def named_id_def id_path_def path_id_def
  id_metric_topic_def tag_binding_def tag_off_def

lemmas index_record_defs = index_record_def index_element_def index_type_def index_signal_def Let_def

section \<open>Fields that keep the first answer, and fields that keep the last\<close>

locale keeps_first =
  fixes field :: "index \<Rightarrow> ('k, 'v) dict" and answer :: "def_record \<Rightarrow> ('k \<times> 'v) option"
  assumes one_record: "field (index_record r x) = (case answer r of Some (k, v) \<Rightarrow> insert_row k v (field x) | None \<Rightarrow> field x)"
begin

lemma all_records: "map_of (field (fold index_record rs x)) k = (case map_of (field x) k of Some v \<Rightarrow> Some v | None \<Rightarrow> first_answer answer k rs)"
proof (induction rs arbitrary: x)
  case (Cons r rs)
  then show ?case by (auto simp: one_record map_of_insert_row split: option.splits)
qed (simp split: option.split)

end

locale keeps_last =
  fixes field :: "index \<Rightarrow> ('k, 'v) dict" and answer :: "def_record \<Rightarrow> ('k \<times> 'v) option"
  assumes one_record: "field (index_record r x) = (case answer r of Some (k, v) \<Rightarrow> AList.update k v (field x) | None \<Rightarrow> field x)"
begin

lemma all_records: "map_of (field (fold index_record rs x)) k = (case last_answer answer k rs of Some v \<Rightarrow> Some v | None \<Rightarrow> map_of (field x) k)"
proof (induction rs arbitrary: x)
  case Nil
  then show ?case by (simp add: last_answer_def)
next
  case (Cons r rs)
  then show ?case by (auto simp: one_record last_answer_Cons split: option.splits)
qed

end

interpretation elements: keeps_first ix_elements "named_id element_record"
  by unfold_locales (auto simp: index_record_defs kind_defs split: prod.split option.split)

interpretation types: keeps_first ix_types "named_id type_record"
  by unfold_locales (auto simp: index_record_defs kind_defs split: prod.split option.split)

interpretation signal_ids: keeps_first ix_signal_ids path_id
  by unfold_locales (auto simp: index_record_defs kind_defs split: prod.split option.split)

interpretation tag_bindings: keeps_first ix_bindings tag_binding
  by unfold_locales (auto simp: index_record_defs kind_defs split: prod.split option.split)

interpretation element_paths: keeps_last ix_element_paths "id_path element_record"
  by unfold_locales (auto simp: index_record_defs kind_defs split: prod.split option.split)

interpretation signal_paths: keeps_last ix_signal_paths "id_path signal_def_record"
  by unfold_locales (auto simp: index_record_defs kind_defs split: prod.split option.split)

interpretation metric_topics: keeps_last ix_metric_topics id_metric_topic
  by unfold_locales (auto simp: index_record_defs kind_defs split: prod.split option.split)

lemma disabled_one: "set (ix_disabled (index_record r x)) = set (ix_disabled x) \<union> {tag. tag_off tag r}"
  by (auto simp: index_record_defs kind_defs split: prod.split option.split)

lemma disabled_all: "set (ix_disabled (fold index_record rs x)) = set (ix_disabled x) \<union> {tag. \<exists>r \<in> set rs. tag_off tag r}"
  by (induction rs arbitrary: x) (auto simp: disabled_one)

definition signals_named :: "json \<Rightarrow> index \<Rightarrow> (string, json) dict list" where
  "signals_named name x = (case map_of (ix_signals x) name of Some ps \<Rightarrow> ps | None \<Rightarrow> [])"

definition named_signal :: "json \<Rightarrow> def_record \<Rightarrow> bool" where
  "named_signal name r \<longleftrightarrow> signal_def_record r \<and> fld r ''name'' = name \<and> name \<noteq> JNull"

lemma signals_one: "signals_named name (index_record r x) = signals_named name x @ (if named_signal name r then [the (snd r)] else [])"
  by (auto simp: signals_named_def named_signal_def index_record_defs kind_defs split: prod.split option.split)

lemma signals_all:
  "signals_named name (fold index_record rs x) = signals_named name x @ map (\<lambda>r. the (snd r)) (filter (named_signal name) rs)"
  by (induction rs arbitrary: x) (simp_all add: signals_one)

lemma empty_index_fields [simp]:
  "ix_elements empty_index = []" "ix_types empty_index = []" "ix_bindings empty_index = []" "ix_metric_topics empty_index = []"
  "ix_element_paths empty_index = []" "ix_signal_paths empty_index = []" "ix_disabled empty_index = []"
  "ix_signal_ids empty_index = []" "signals_named name empty_index = []"
  by (simp_all add: empty_index_def signals_named_def)

section \<open>Properties of an index\<close>

lemma signals_named_disabled [simp]: "signals_named k (x\<lparr>ix_disabled := ts\<rparr>) = signals_named k x"
  by (simp add: signals_named_def)

lemma option_case_self [simp]: "(case x of None \<Rightarrow> None | Some v \<Rightarrow> Some v) = x"
  by (cases x) simp_all

lemma index_of_fields:
  "map_of (ix_elements (index_of rs)) k = first_answer (named_id element_record) k rs"
  "map_of (ix_types (index_of rs)) k = first_answer (named_id type_record) k rs"
  "map_of (ix_signal_ids (index_of rs)) path = first_answer path_id path rs"
  "map_of (ix_bindings (index_of rs)) k = first_answer tag_binding k rs"
  "map_of (ix_element_paths (index_of rs)) k = last_answer (id_path element_record) k rs"
  "map_of (ix_signal_paths (index_of rs)) k = last_answer (id_path signal_def_record) k rs"
  "map_of (ix_metric_topics (index_of rs)) k = last_answer id_metric_topic k rs"
  "k \<in> set (ix_disabled (index_of rs)) \<longleftrightarrow> (\<exists>r \<in> set rs. tag_off k r) \<and> first_answer tag_binding k rs = None"
  "signals_named k (index_of rs) = map (\<lambda>r. the (snd r)) (filter (named_signal k) rs)"
  using elements.all_records [of rs empty_index] types.all_records [of rs empty_index] signal_ids.all_records [of rs empty_index]
    tag_bindings.all_records [of rs empty_index] element_paths.all_records [of rs empty_index]
    signal_paths.all_records [of rs empty_index] metric_topics.all_records [of rs empty_index]
    disabled_all [of rs empty_index] signals_all [of k rs empty_index]
  by (simp_all add: index_of_def Let_def cong: option.case_cong)

lemma find_map_filter: "List.find P (map f (filter Q xs)) = map_option f (List.find (\<lambda>x. Q x \<and> P (f x)) xs)"
  by (induction xs) auto

lemma resolve_metric_topics_map:
  "map_of (resolve_metric_topics x sids) sid = (if sid \<in> set sids then map_of (ix_metric_topics x) sid else None)
   \<and> dict_ok (resolve_metric_topics x sids)"
proof -
  define put where "put = (\<lambda>sid d. case map_of (ix_metric_topics x) sid of Some t \<Rightarrow> AList.update sid t d | None \<Rightarrow> d)"
  have "map_of (fold put sids d) sid = (if sid \<in> set sids \<and> map_of (ix_metric_topics x) sid \<noteq> None then map_of (ix_metric_topics x) sid else map_of d sid)
      \<and> (dict_ok d \<longrightarrow> dict_ok (fold put sids d))" for d
  proof (induction sids arbitrary: d)
    case (Cons s sids)
    have "dict_ok d \<longrightarrow> dict_ok (put s d)" by (simp add: put_def distinct_update split: option.split)
    moreover have "map_of (put s d) sid = (if sid = s \<and> map_of (ix_metric_topics x) sid \<noteq> None then map_of (ix_metric_topics x) sid else map_of d sid)"
      by (auto simp: put_def update_conv' split: option.split)
    ultimately show ?case using Cons.IH [of "put s d"] by auto
  qed simp
  from this [of "[]"] show ?thesis unfolding resolve_metric_topics_def put_def [symmetric] by (auto split: if_splits)
qed

text \<open>C30: The index answers what a walk over the snapshot would: names, paths and tags by the first record that
  has them, the id's place by the last; a signal by name in the scope of an element by the first record of both; a tag is
  disabled exactly when some signal names it unpublished and none published. For several signals: the topics are those of
  every signal asked for that has one, once each, and of no other; the signals outside an element are all those asked for
  whose path is known and is not under the element's, in the order asked.\<close>

theorem resolvers_answer_snapshot:
  "resolve_system_element (index_of rs) name = first_answer (named_id element_record) name rs
   \<and> resolve_annotation_type (index_of rs) name = first_answer (named_id type_record) name rs
   \<and> resolve_signal_path (index_of rs) path = first_answer path_id (strip_char (CHR ''/'') path) rs
   \<and> resolve_output_binding (index_of rs) tag = first_answer tag_binding tag rs
   \<and> output_disabled (index_of rs) tag = (list_ex (tag_off tag) rs \<and> first_answer tag_binding tag rs = None)
   \<and> map_of (resolve_metric_topics (index_of rs) sids) sid = (if sid \<in> set sids then last_answer id_metric_topic sid rs else None)
   \<and> distinct (map fst (resolve_metric_topics (index_of rs) sids))
   \<and> resolve_signal (index_of rs) name None = (case List.find (named_signal name) rs of None \<Rightarrow> JNull | Some r \<Rightarrow> fld r ''id'')
   \<and> resolve_signal (index_of rs) name (Some element) =
       (case first_answer (named_id element_record) element rs of
          None \<Rightarrow> JNull
        | Some e \<Rightarrow> (case List.find (\<lambda>r. named_signal name r \<and> fld r ''system_element_id'' = e) rs of
                      None \<Rightarrow> JNull | Some r \<Rightarrow> fld r ''id''))
   \<and> signals_outside_element (index_of rs) e sids =
       filter (\<lambda>sid. case (last_answer (id_path element_record) e rs, last_answer (id_path signal_def_record) sid rs) of
          (Some base, Some path) \<Rightarrow> base \<noteq> [] \<and> take (length base + 1) path \<noteq> base @ ''/''
        | _ \<Rightarrow> False) sids"
  using index_of_fields(9) [of name rs, unfolded signals_named_def]
  by (simp add: resolve_system_element_def resolve_annotation_type_def resolve_signal_path_def resolve_output_binding_def
      output_disabled_def resolve_metric_topics_map resolve_signal_def signals_outside_element_def index_of_fields
      find_map_filter list_ex_iff split: option.split)

section \<open>The live index\<close>

text \<open>\<open>LiveIndex\<close> over a retained view: the index built last and the revision it was built from. \<open>Inl\<close>: it raises.\<close>

record live_index =
  li_revision :: "nat option"
  li_index :: "index option"


definition build_index :: "kv_entry list \<Rightarrow> index" where
  "build_index es = index_of (map (\<lambda>e. (e_topic e, payload_of (e_payload e))) es)"

definition index_now :: "view_config \<Rightarrow> view_world \<Rightarrow> real \<Rightarrow> view \<Rightarrow> live_index
    \<Rightarrow> ((view_fail + index) \<times> view \<times> live_index) option" where
  "index_now c w now v li =
     (if v_available v \<and> li_index li \<noteq> None \<and> li_revision li = Some (v_revision v) then Some (Inr (the (li_index li)), v, li)
      else map_option (\<lambda>(r, v).
             case r of
               Inl e \<Rightarrow> (Inl e, v, li)
             | Inr (n, es) \<Rightarrow>
                 let ix = build_index (map snd es) in (Inr ix, v, \<lparr>li_revision = Some n, li_index = Some ix\<rparr>))
             (view_snapshot c w now v))"

text \<open>\<open>_live_index\<close> of a door with an index attached: \<open>None\<close> of \<open>current\<close> raises \<open>ColcaUnavailable\<close>.\<close>

definition live_lookup :: "view_config \<Rightarrow> view_world \<Rightarrow> real \<Rightarrow> view \<Rightarrow> live_index
    \<Rightarrow> ((view_fail + index) \<times> view \<times> live_index) option" where
  "live_lookup c w now v li = (if v_available v then index_now c w now v li else Some (Inl Unreadable, v, li))"








section \<open>One snapshot per pass\<close>

text \<open>\<open>Snapshot.index\<close>. \<open>held\<close>: what \<open>_live_index\<close> answers now (\<open>Inl\<close>: it raises, \<open>Inr None\<close>: no index is attached);
  \<open>read\<close>: what a KV read would give, \<open>None\<close> when it raises; \<open>shared\<close>: the door has a shared view, whose failure is raised.\<close>

record pass_snapshot =
  ps_index :: "index option"
  ps_failed :: bool

definition mk_pass_snapshot :: pass_snapshot where
  "mk_pass_snapshot = \<lparr>ps_index = None, ps_failed = False\<rparr>"

definition pass_index :: "index option outcome \<Rightarrow> index option \<Rightarrow> bool \<Rightarrow> pass_snapshot \<Rightarrow> index option outcome \<times> pass_snapshot" where
  "pass_index held read shared ps =
     (if ps_index ps = None \<and> \<not> ps_failed ps
      then (case held of
              Inl e \<Rightarrow> (Inl e, ps)
            | Inr (Some ix) \<Rightarrow> (Inr (Some ix), ps\<lparr>ps_index := Some ix\<rparr>)
            | Inr None \<Rightarrow>
                (case read of
                   Some ix \<Rightarrow> (Inr (Some ix), ps\<lparr>ps_index := Some ix\<rparr>)
                 | None \<Rightarrow> if shared then (Inl Unavailable, ps) else (Inr None, ps\<lparr>ps_failed := True\<rparr>)))
      else (Inr (ps_index ps), ps))"

text \<open>\<open>_snapshot\<close>: the index a resolver uses.\<close>

definition resolver_index :: "index option outcome \<Rightarrow> index option \<Rightarrow> bool \<Rightarrow> pass_snapshot option
    \<Rightarrow> index outcome \<times> pass_snapshot option" where
  "resolver_index held read shared pinned =
     (let alone = (case held of
          Inl e \<Rightarrow> Inl e
        | Inr (Some ix) \<Rightarrow> Inr ix
        | Inr None \<Rightarrow> (case read of Some ix \<Rightarrow> Inr ix | None \<Rightarrow> Inl Unavailable))
      in case pinned of
           None \<Rightarrow> (alone, None)
         | Some ps \<Rightarrow>
             (case pass_index held read shared ps of
                (Inl e, ps) \<Rightarrow> (Inl e, Some ps)
              | (Inr (Some ix), ps) \<Rightarrow> (Inr ix, Some ps)
              | (Inr None, ps) \<Rightarrow> (alone, Some ps)))"

text \<open>A pass: the resolvers called one after the other, each with what the door and the node answer then.\<close>

fun resolve_pass :: "(index option outcome \<times> index option \<times> bool) list \<Rightarrow> pass_snapshot option \<Rightarrow> index outcome list" where
  "resolve_pass [] pinned = []"
| "resolve_pass ((held, read, shared) # ws) pinned =
     (case resolver_index held read shared pinned of (r, pinned) \<Rightarrow> r # resolve_pass ws pinned)"

lemma pass_after_pin: "ps_index ps = Some ix \<Longrightarrow> resolve_pass ws (Some ps) = replicate (length ws) (Inr ix)"
  by (induction ws) (auto simp: resolver_index_def pass_index_def)

text \<open>Within a pass that has not failed to read, every resolver that answers uses one index.\<close>

lemma pass_is_one_snapshot:
  assumes "\<forall>(held, read, shared) \<in> set ws. shared \<or> read \<noteq> None"
    and "Inr x \<in> set (resolve_pass ws (Some mk_pass_snapshot))" "Inr y \<in> set (resolve_pass ws (Some mk_pass_snapshot))"
  shows "x = y"
proof -
  have "\<exists>z. \<forall>x. Inr x \<in> set (resolve_pass ws (Some ps)) \<longrightarrow> x = z" if "ps = mk_pass_snapshot" for ps
    using assms(1) that
  proof (induction ws)
    case (Cons q ws)
    obtain held read shared where q: "q = (held, read, shared)" by (cases q)
    consider e where "resolver_index held read shared (Some ps) = (Inl e, Some ps)"
      | ix ps' where "resolver_index held read shared (Some ps) = (Inr ix, Some ps')" "ps_index ps' = Some ix"
      using Cons.prems unfolding q
      by (cases held; cases "projr held"; cases read) (auto simp: resolver_index_def pass_index_def mk_pass_snapshot_def)
    then show ?case
    proof cases
      case 1
      then show ?thesis using Cons unfolding q by auto
    next
      case 2
      then show ?thesis unfolding q by (auto simp: pass_after_pin)
    qed
  qed simp
  then show ?thesis using assms(2,3) by blast
qed

end
