(* ===== verification/Chaski_Catalogue.thy ===== *)
theory Chaski_Catalogue
  imports Chaski_Prelude
begin

text \<open>
  The catalogue of the sources a service offers (\<open>src/chaski/catalogue.py\<close>), when \<open>src/chaski/service.py\<close> republishes it
  (\<open>_catalogue_to_publish\<close>, \<open>_publish_catalogue\<close>, \<open>_reannounce\<close>, \<open>declare\<close>), and the bindings of the node's signals to it
  (\<open>_set_binding\<close>, \<open>_on_signal\<close>). New ULIDs, \<open>str\<close> of a JSON value and the content hash \<open>DataTags.version\<close> are arguments. A
  record of the node is the JSON object \<open>GET /kv\<close> returns; a \<open>meta\<close> that is not an object raises.
\<close>

section \<open>Tags\<close>

record data_tag =
  dt_id :: string
  dt_name :: string
  dt_source :: string
  dt_writable :: bool
  dt_readable :: bool
  dt_type :: json
  dt_stale :: bool
  dt_meta :: "(string, json) dict"

definition infer_data_type :: "json \<Rightarrow> string" where
  "infer_data_type v =
     (case v of JBool _ \<Rightarrow> ''boolean'' | JInt _ \<Rightarrow> ''int'' | JFloat _ \<Rightarrow> ''float'' | _ \<Rightarrow> ''string'')"

definition element_for :: "string \<Rightarrow> string \<Rightarrow> string" where
  "element_for path mount =
     (if CHR ''/'' \<notin> set path then []
      else let parent = join ''/'' (butlast (split_on (CHR ''/'') path))
           in if mount = [] then parent else mount @ ''/'' @ parent)"

definition meta_field :: "string \<Rightarrow> string option \<Rightarrow> (string, json) dict" where
  "meta_field k v = (case v of None \<Rightarrow> [] | Some s \<Rightarrow> if s = [] then [] else [(k, JStr s)])"

definition tag_meta :: "string option \<Rightarrow> string option \<Rightarrow> string option \<Rightarrow> string option \<Rightarrow> (string, json) dict" where
  "tag_meta element unit semantic_type description =
     meta_field ''description'' description @ meta_field ''element'' element @ meta_field ''unit'' unit
     @ meta_field ''semantic_type'' semantic_type"

text \<open>\<open>d | e\<close> and \<open>d.update(e)\<close>.\<close>

definition updated :: "('k, 'v) dict \<Rightarrow> ('k, 'v) dict \<Rightarrow> ('k, 'v) dict" where
  "updated d e = fold (\<lambda>(k, v). AList.update k v) e d"

definition raw_field :: "(string, json) dict \<Rightarrow> string \<Rightarrow> json" where
  "raw_field raw k = (case map_of raw k of Some v \<Rightarrow> v | None \<Rightarrow> JNull)"

definition tag_from_record :: "(json \<Rightarrow> string) \<Rightarrow> (string, json) dict \<Rightarrow> data_tag outcome" where
  "tag_from_record py_str raw =
     bind_outcome (case raw_field raw ''meta'' of JObj m \<Rightarrow> Inr m | v \<Rightarrow> if truthy v then Inl TypeError else Inr [])
       (\<lambda>meta. Inr \<lparr>dt_id = py_str (raw_field raw ''id''),
          dt_name = (case map_of raw ''name'' of Some v \<Rightarrow> py_str v | None \<Rightarrow> []),
          dt_source = py_str (raw_field raw ''source''), dt_writable = truthy (raw_field raw ''is_writable''),
          dt_readable = truthy (raw_field raw ''is_readable''), dt_type = raw_field raw ''data_type'',
          dt_stale = truthy (raw_field raw ''is_stale''), dt_meta = meta\<rparr>)"

section \<open>The catalogue\<close>

record catalogue =
  ca_connector :: string
  ca_mount :: string
  ca_tags :: "(string, data_tag) dict"
  ca_last :: "string option"
  ca_dirty :: bool

definition mk_catalogue :: "string \<Rightarrow> string \<Rightarrow> catalogue" where
  "mk_catalogue connector mount = \<lparr>ca_connector = connector, ca_mount = mount, ca_tags = [], ca_last = None, ca_dirty = False\<rparr>"

definition migrate :: "data_tag \<Rightarrow> data_tag" where
  "migrate t = (if dt_type t = JStr ''bool'' then t\<lparr>dt_type := JStr ''boolean''\<rparr> else t)"

fun load_tags :: "(json \<Rightarrow> string) \<Rightarrow> json list \<Rightarrow> (string, data_tag) dict \<Rightarrow> bool \<Rightarrow> unit outcome \<times> (string, data_tag) dict \<times> bool" where
  "load_tags py_str [] tags migrated = (Inr (), tags, migrated)"
| "load_tags py_str (JObj raw # raws) tags migrated =
     (if \<not> truthy (raw_field raw ''source'') \<or> \<not> truthy (raw_field raw ''id'') then load_tags py_str raws tags migrated
      else case tag_from_record py_str raw of
             Inl err \<Rightarrow> (Inl err, tags, migrated)
           | Inr t \<Rightarrow> load_tags py_str raws (AList.update (dt_source t) (migrate t) tags) (migrated \<or> dt_type t = JStr ''bool''))"
| "load_tags py_str (_ # raws) tags migrated = (Inl TypeError, tags, migrated)"

definition revision_text :: "string \<Rightarrow> string \<Rightarrow> string" where
  "revision_text connector version = connector @ [CHR 0x00] @ version"

definition load_previous :: "(json \<Rightarrow> string) \<Rightarrow> (string, json) dict option \<Rightarrow> catalogue \<Rightarrow> unit outcome \<times> catalogue" where
  "load_previous py_str payload c =
     (case payload of
        None \<Rightarrow> (Inr (), c)
      | Some p \<Rightarrow>
          if p = [] then (Inr (), c)
          else
            let raws = (case raw_field p ''data_tags'' of JList xs \<Rightarrow> Inr xs | v \<Rightarrow> if truthy v then Inl TypeError else Inr [])
            in case raws of
                 Inl err \<Rightarrow> (Inl err, c)
               | Inr raws \<Rightarrow>
                   (case load_tags py_str raws (ca_tags c) False of
                      (Inl err, tags, _) \<Rightarrow> (Inl err, c\<lparr>ca_tags := tags\<rparr>)
                    | (Inr _, tags, migrated) \<Rightarrow>
                        let version = raw_field p ''version'';
                            c = c\<lparr>ca_tags := tags\<rparr>;
                            c = (if truthy version
                                 then c\<lparr>ca_last := Some (revision_text (py_str (raw_field p ''connector'')) (py_str version))\<rparr> else c)
                        in (Inr (), c\<lparr>ca_dirty := migrated\<rparr>)))"

text \<open>\<open>_upsert\<close>; \<open>fresh\<close> is the ULID it mints for a new path.\<close>

definition upsert :: "string \<Rightarrow> string \<Rightarrow> string \<Rightarrow> (string, json) dict \<Rightarrow> bool \<Rightarrow> catalogue \<Rightarrow> (string \<times> bool) \<times> catalogue" where
  "upsert fresh path data_type stated state_type c =
     (case map_of (ca_tags c) path of
        None \<Rightarrow>
          let tag = \<lparr>dt_id = fresh, dt_name = last (split_on (CHR ''/'') path), dt_source = path, dt_writable = False, dt_readable = True,
                dt_type = JStr data_type, dt_stale = False,
                dt_meta = updated (tag_meta (Some (element_for path (ca_mount c))) None None None) stated\<rparr>
          in ((fresh, True), c\<lparr>ca_tags := AList.update path tag (ca_tags c), ca_dirty := True\<rparr>)
      | Some tag \<Rightarrow>
          let retype = (dt_type tag = JNull \<or> state_type \<and> dt_type tag \<noteq> JStr data_type);
              remeta = (\<exists>(k, v) \<in> set stated. map_of (dt_meta tag) k \<noteq> Some v);
              changed = (dt_stale tag \<or> retype \<or> remeta)
          in ((dt_id tag, changed),
              if changed
              then c\<lparr>ca_tags := AList.update path (tag\<lparr>dt_stale := False,
                        dt_type := (if retype then JStr data_type else dt_type tag),
                        dt_meta := (if remeta then updated (dt_meta tag) stated else dt_meta tag)\<rparr>) (ca_tags c),
                     ca_dirty := True\<rparr>
              else c))"

definition ensure :: "string \<Rightarrow> string \<Rightarrow> json \<Rightarrow> string option \<Rightarrow> string option \<Rightarrow> string option \<Rightarrow> catalogue
    \<Rightarrow> (string \<times> bool) \<times> catalogue" where
  "ensure fresh path v unit semantic_type description =
     upsert fresh path (infer_data_type v) (tag_meta None unit semantic_type description) False"

definition ensure_declared :: "string \<Rightarrow> string \<Rightarrow> string \<Rightarrow> string option \<Rightarrow> string option \<Rightarrow> string option \<Rightarrow> catalogue
    \<Rightarrow> (string \<times> bool) \<times> catalogue" where
  "ensure_declared fresh path data_type unit semantic_type description =
     upsert fresh path data_type (tag_meta None unit semantic_type description) True"

text \<open>\<open>declare\<close>: \<open>mint source\<close> is the ULID minted for a new source.\<close>

definition found_tag :: "catalogue \<Rightarrow> (string \<Rightarrow> string) \<Rightarrow> string \<Rightarrow> data_tag \<Rightarrow> data_tag" where
  "found_tag c mint source raw =
     raw\<lparr>dt_id := (case map_of (ca_tags c) source of Some old \<Rightarrow> dt_id old | None \<Rightarrow> mint source), dt_source := source, dt_stale := False\<rparr>"

definition gone_tag :: "data_tag \<Rightarrow> data_tag" where
  "gone_tag old = (if dt_stale old then old else old\<lparr>dt_stale := True\<rparr>)"

definition declare_tags :: "(string \<Rightarrow> string) \<Rightarrow> (string, data_tag) dict \<Rightarrow> catalogue \<Rightarrow> catalogue" where
  "declare_tags mint tags c =
     c\<lparr>ca_tags := map (\<lambda>(source, raw). (source, found_tag c mint source raw)) tags
          @ map (\<lambda>(source, old). (source, gone_tag old)) (filter (\<lambda>(source, _). source \<notin> fst ` set tags) (ca_tags c)),
        ca_dirty := True\<rparr>"

definition seal :: "string set \<Rightarrow> catalogue \<Rightarrow> bool \<times> catalogue" where
  "seal seen c =
     (let goes = (\<lambda>(source, tag). source \<notin> seen \<and> \<not> dt_stale tag)
      in if \<exists>st \<in> set (ca_tags c). goes st
         then (True, c\<lparr>ca_tags := map (\<lambda>(s, t). (s, if goes (s, t) then t\<lparr>dt_stale := True\<rparr> else t)) (ca_tags c), ca_dirty := True\<rparr>)
         else (False, c))"

definition tag_id :: "catalogue \<Rightarrow> string \<Rightarrow> string option" where
  "tag_id c source = map_option dt_id (map_of (ca_tags c) source)"

definition source_for_tag :: "catalogue \<Rightarrow> string \<Rightarrow> string option" where
  "source_for_tag c i = map_option fst (List.find (\<lambda>(s, t). dt_id t = i) (ca_tags c))"

definition data_tags :: "catalogue \<Rightarrow> data_tag list" where
  "data_tags c = map snd (ca_tags c)"

definition revision :: "(data_tag list \<Rightarrow> string) \<Rightarrow> catalogue \<Rightarrow> string" where
  "revision version c = revision_text (ca_connector c) (version (data_tags c))"

definition record_published :: "string \<Rightarrow> catalogue \<Rightarrow> catalogue" where
  "record_published r c = c\<lparr>ca_last := Some r, ca_dirty := False\<rparr>"

section \<open>Republishing\<close>

text \<open>\<open>_catalogue_to_publish\<close>: what is to be published, if anything, with its revision.\<close>

definition catalogue_to_publish :: "(data_tag list \<Rightarrow> string) \<Rightarrow> catalogue \<Rightarrow> ((string \<times> data_tag list) \<times> string) option \<times> catalogue" where
  "catalogue_to_publish version c =
     (if \<not> ca_dirty c then (None, c)
      else if ca_last c = Some (revision version c) then (None, c\<lparr>ca_dirty := False\<rparr>)
      else (Some ((ca_connector c, data_tags c), revision version c), c))"

text \<open>A re-placement (\<open>_reannounce\<close>).\<close>

definition re_placed :: "string \<Rightarrow> catalogue \<Rightarrow> catalogue" where
  "re_placed mount c = c\<lparr>ca_mount := mount, ca_last := None, ca_dirty := True\<rparr>"

section \<open>Bindings\<close>

text \<open>A \<open>_Signal\<close> record: the tag it names and the rest of it. \<open>None\<close>: a tombstone.\<close>

record signal_record =
  sg_tag :: "string option"
  sg_id :: string
  sg_published :: bool

record binding =
  bd_tag :: string
  bd_node :: string
  bd_context :: "string list"
  bd_signal :: signal_record

record binding_table =
  bt_bindings :: "(string, binding) dict"
  bt_by_tag :: "(string, binding list) dict"

definition bindings_for :: "string \<Rightarrow> binding_table \<Rightarrow> binding list" where
  "bindings_for i t = (case map_of (bt_by_tag t) i of Some bs \<Rightarrow> bs | None \<Rightarrow> [])"

definition index_binding :: "binding \<Rightarrow> (string, binding list) dict \<Rightarrow> (string, binding list) dict" where
  "index_binding b d = AList.update (bd_tag b) ((case map_of d (bd_tag b) of Some bs \<Rightarrow> bs | None \<Rightarrow> []) @ [b]) d"

definition set_binding :: "string \<Rightarrow> binding option \<Rightarrow> binding_table \<Rightarrow> bool \<times> binding_table" where
  "set_binding topic b t =
     (if b = None \<and> map_of (bt_bindings t) topic = None then (False, t)
      else
        let bs = (case b of None \<Rightarrow> AList.delete topic (bt_bindings t) | Some b \<Rightarrow> AList.update topic b (bt_bindings t))
        in (True, \<lparr>bt_bindings = bs, bt_by_tag = fold (index_binding \<circ> snd) bs []\<rparr>))"

text \<open>The table and whether \<open>_bindings_changed\<close> is called.\<close>

definition on_signal_record :: "catalogue \<Rightarrow> string \<Rightarrow> signal_record option \<Rightarrow> binding_table \<Rightarrow> bool \<times> binding_table" where
  "on_signal_record c topic signal t =
     (let parts = split_on (CHR ''/'') topic in
      if length parts < 5 then (False, t)
      else
        case signal of
          None \<Rightarrow> set_binding topic None t
        | Some s \<Rightarrow>
            (case (case sg_tag s of Some i \<Rightarrow> if i = [] then None else map_option (\<lambda>_. i) (source_for_tag c i) | None \<Rightarrow> None) of
               None \<Rightarrow> set_binding topic None t
             | Some i \<Rightarrow>
                 (True, snd (set_binding topic
                   (Some \<lparr>bd_tag = i, bd_node = parts ! 3, bd_context = drop 4 parts, bd_signal = s\<rparr>) t))))"

section \<open>Well-formed catalogues\<close>

definition tag_ok :: "string \<Rightarrow> data_tag \<Rightarrow> bool" where
  "tag_ok source t \<longleftrightarrow> dt_source t = source \<and> source \<noteq> [] \<and> dt_id t \<noteq> [] \<and> dt_type t \<noteq> JStr ''bool'' \<and> dict_ok (dt_meta t)"

text \<open>One tag per source, one source per id.\<close>

definition catalogue_ok :: "catalogue \<Rightarrow> bool" where
  "catalogue_ok c \<longleftrightarrow> dict_ok (ca_tags c) \<and> (\<forall>(s, t) \<in> set (ca_tags c). tag_ok s t) \<and> distinct (map (dt_id \<circ> snd) (ca_tags c))"

definition ids_of :: "catalogue \<Rightarrow> string set" where
  "ids_of c = dt_id ` snd ` set (ca_tags c)"

text \<open>The changes a service makes to its catalogue while it runs.\<close>

datatype catalogue_op =
    Ensures string string json "string option" "string option" "string option"
  | Declares string string string "string option" "string option" "string option"
  | Discovers "string \<Rightarrow> string" "(string, data_tag) dict"
  | Seals "string set"
  | Placed string

fun catalogue_step :: "catalogue_op \<Rightarrow> catalogue \<Rightarrow> catalogue" where
  "catalogue_step (Ensures fresh path v unit semantic_type description) c = snd (ensure fresh path v unit semantic_type description c)"
| "catalogue_step (Declares fresh path data_type unit semantic_type description) c =
     snd (ensure_declared fresh path data_type unit semantic_type description c)"
| "catalogue_step (Discovers mint tags) c = declare_tags mint tags c"
| "catalogue_step (Seals seen) c = snd (seal seen c)"
| "catalogue_step (Placed mount) c = re_placed mount c"

text \<open>A ULID is minted once; a path is not empty; the data type is one of the vocabulary, which \<open>bool\<close> is not.\<close>

fun op_ok :: "catalogue \<Rightarrow> catalogue_op \<Rightarrow> bool" where
  "op_ok c (Ensures fresh path _ _ _ _) = (fresh \<noteq> [] \<and> fresh \<notin> ids_of c \<and> path \<noteq> [])"
| "op_ok c (Declares fresh path data_type _ _ _) = (fresh \<noteq> [] \<and> fresh \<notin> ids_of c \<and> path \<noteq> [] \<and> data_type \<noteq> ''bool'')"
| "op_ok c (Discovers mint tags) =
     (dict_ok tags \<and> inj_on mint (fst ` set tags)
      \<and> (\<forall>(s, t) \<in> set tags. s \<noteq> [] \<and> mint s \<noteq> [] \<and> mint s \<notin> ids_of c \<and> dt_type t \<noteq> JStr ''bool'' \<and> dict_ok (dt_meta t)))"
| "op_ok c _ = True"

fun ops_ok :: "catalogue_op list \<Rightarrow> catalogue \<Rightarrow> bool" where
  "ops_ok [] c = True"
| "ops_ok (op # ops) c = (op_ok c op \<and> ops_ok ops (catalogue_step op c))"

definition catalogue_run :: "catalogue_op list \<Rightarrow> catalogue \<Rightarrow> catalogue" where
  "catalogue_run ops c = fold catalogue_step ops c"

text \<open>Every source keeps its id.\<close>

definition keeps_ids :: "catalogue \<Rightarrow> catalogue \<Rightarrow> bool" where
  "keeps_ids c c' \<longleftrightarrow> (\<forall>s i. tag_id c s = Some i \<longrightarrow> tag_id c' s = Some i)"

lemma dict_ok_updated: "dict_ok d \<Longrightarrow> dict_ok (updated d e)"
  unfolding updated_def by (induction e arbitrary: d) (auto intro: dict_ok_update)

lemma dict_ok_tag_meta: "dict_ok (tag_meta e u s d)"
  by (auto simp: tag_meta_def meta_field_def split: option.splits)

lemma tag_id_mem:
  assumes "dict_ok (ca_tags c)"
  shows "tag_id c s = Some i \<longleftrightarrow> (\<exists>t. (s, t) \<in> set (ca_tags c) \<and> dt_id t = i)"
  using assms by (auto simp: tag_id_def map_of_eq_Some_iff)

text \<open>The catalogue as the map of ids it stands for.\<close>

lemma catalogue_ok_iff:
  "catalogue_ok c \<longleftrightarrow> dict_ok (ca_tags c) \<and> (\<forall>s t. map_of (ca_tags c) s = Some t \<longrightarrow> tag_ok s t)
     \<and> (\<forall>s s' i. tag_id c s = Some i \<longrightarrow> tag_id c s' = Some i \<longrightarrow> s = s')"
proof (cases "dict_ok (ca_tags c)")
  case True
  have "distinct (map (dt_id \<circ> snd) (ca_tags c)) \<longleftrightarrow> inj_on (dt_id \<circ> snd) (set (ca_tags c))"
    using True by (simp add: distinct_map)
  also have "\<dots> \<longleftrightarrow> (\<forall>s s' i. tag_id c s = Some i \<longrightarrow> tag_id c s' = Some i \<longrightarrow> s = s')"
  proof
    assume inj: "inj_on (dt_id \<circ> snd) (set (ca_tags c))"
    show "\<forall>s s' i. tag_id c s = Some i \<longrightarrow> tag_id c s' = Some i \<longrightarrow> s = s'"
      unfolding tag_id_mem [OF True] using inj unfolding inj_on_def by force
  next
    assume one: "\<forall>s s' i. tag_id c s = Some i \<longrightarrow> tag_id c s' = Some i \<longrightarrow> s = s'"
    show "inj_on (dt_id \<circ> snd) (set (ca_tags c))"
    proof (rule inj_onI)
      fix x y assume x: "x \<in> set (ca_tags c)" "y \<in> set (ca_tags c)" "(dt_id \<circ> snd) x = (dt_id \<circ> snd) y"
      then have same: "fst x = fst y" using one unfolding tag_id_mem [OF True] by (metis comp_apply prod.collapse)
      have "(fst x, snd x) \<in> set (ca_tags c)" using x(1) by simp
      moreover have "(fst x, snd y) \<in> set (ca_tags c)" using x(2) by (simp add: same)
      ultimately have "snd x = snd y" by (rule eq_key_imp_eq_value [OF True])
      then show "x = y" using same by (simp add: prod_eq_iff)
    qed
  qed
  finally show ?thesis using True by (auto simp: catalogue_ok_def map_of_eq_Some_iff)
qed (simp add: catalogue_ok_def)

lemma source_for_tag_iff:
  assumes "catalogue_ok c"
  shows "source_for_tag c i = Some s \<longleftrightarrow> tag_id c s = Some i"
proof -
  have dict: "dict_ok (ca_tags c)" and one: "\<And>s s'. tag_id c s = Some i \<Longrightarrow> tag_id c s' = Some i \<Longrightarrow> s = s'"
    using assms by (auto simp: catalogue_ok_iff)
  have hit: "List.find (\<lambda>(s, t). dt_id t = i) xs = Some u \<Longrightarrow> u \<in> set xs \<and> dt_id (snd u) = i" for xs u
    by (induction xs) (auto split: if_splits prod.splits)
  have miss: "List.find (\<lambda>(s, t). dt_id t = i) xs = None \<Longrightarrow> u \<in> set xs \<Longrightarrow> dt_id (snd u) \<noteq> i" for xs u
    by (induction xs) (auto split: if_splits prod.splits)
  show ?thesis
  proof
    assume "source_for_tag c i = Some s"
    then obtain u where "List.find (\<lambda>(s, t). dt_id t = i) (ca_tags c) = Some u" "fst u = s" by (auto simp: source_for_tag_def)
    then show "tag_id c s = Some i" using hit unfolding tag_id_mem [OF dict] by (metis prod.collapse)
  next
    assume s: "tag_id c s = Some i"
    then obtain t where t: "(s, t) \<in> set (ca_tags c)" "dt_id t = i" unfolding tag_id_mem [OF dict] by blast
    then obtain u where u: "List.find (\<lambda>(s, t). dt_id t = i) (ca_tags c) = Some u" using miss [of "ca_tags c" "(s, t)"] by fastforce
    then have "tag_id c (fst u) = Some i" using hit unfolding tag_id_mem [OF dict] by (metis prod.collapse)
    then show "source_for_tag c i = Some s" using one [OF s] u by (simp add: source_for_tag_def)
  qed
qed

lemma ids_of_iff: "dict_ok (ca_tags c) \<Longrightarrow> i \<in> ids_of c \<longleftrightarrow> (\<exists>s. tag_id c s = Some i)"
  by (force simp: ids_of_def tag_id_mem)

section \<open>Each change keeps it\<close>

lemma catalogue_ok_update:
  assumes "catalogue_ok c" "tag_ok s t" "tag_id c s = Some (dt_id t) \<or> tag_id c s = None \<and> dt_id t \<notin> ids_of c"
  shows "catalogue_ok (c\<lparr>ca_tags := AList.update s t (ca_tags c), ca_dirty := d\<rparr>)
     \<and> keeps_ids c (c\<lparr>ca_tags := AList.update s t (ca_tags c), ca_dirty := d\<rparr>)"
proof -
  have ok: "dict_ok (ca_tags c)" "\<And>s t. map_of (ca_tags c) s = Some t \<Longrightarrow> tag_ok s t"
    "\<And>s s' i. tag_id c s = Some i \<Longrightarrow> tag_id c s' = Some i \<Longrightarrow> s = s'"
    using assms(1) by (auto simp: catalogue_ok_iff)
  let ?c = "c\<lparr>ca_tags := AList.update s t (ca_tags c), ca_dirty := d\<rparr>"
  have id: "tag_id ?c u = (if u = s then Some (dt_id t) else tag_id c u)" for u by (simp add: tag_id_def)
  have new: "u = s" if "tag_id c u = Some (dt_id t)" for u
    using that assms(3) ok(3) ids_of_iff [OF ok(1)] by blast
  have "u = u'" if "tag_id ?c u = Some i" "tag_id ?c u' = Some i" for u u' i
    using that ok(3) new unfolding id by (metis option.inject)
  moreover have "tag_ok u v" if "map_of (ca_tags ?c) u = Some v" for u v
    using that ok(2) assms(2) by (auto split: if_splits)
  moreover have "dict_ok (ca_tags ?c)" using ok(1) by (simp add: dict_ok_update)
  ultimately have "catalogue_ok ?c" unfolding catalogue_ok_iff by blast
  moreover have "keeps_ids c ?c" unfolding keeps_ids_def id using assms(3) by auto
  ultimately show ?thesis by blast
qed

lemma upsert_ok:
  assumes "catalogue_ok c" "fresh \<noteq> []" "fresh \<notin> ids_of c" "path \<noteq> []" "data_type \<noteq> ''bool''" "dict_ok stated"
  shows "catalogue_ok (snd (upsert fresh path data_type stated state_type c))
     \<and> keeps_ids c (snd (upsert fresh path data_type stated state_type c))
     \<and> tag_id (snd (upsert fresh path data_type stated state_type c)) path = Some (fst (fst (upsert fresh path data_type stated state_type c)))"
proof (cases "map_of (ca_tags c) path")
  case None
  let ?t = "\<lparr>dt_id = fresh, dt_name = last (split_on (CHR ''/'') path), dt_source = path, dt_writable = False, dt_readable = True,
      dt_type = JStr data_type, dt_stale = False,
      dt_meta = updated (tag_meta (Some (element_for path (ca_mount c))) None None None) stated\<rparr>"
  have "tag_ok path ?t" using assms by (simp add: tag_ok_def dict_ok_updated dict_ok_tag_meta)
  moreover have "tag_id c path = None" using None by (simp add: tag_id_def)
  ultimately show ?thesis
    using catalogue_ok_update [OF assms(1), of path ?t True] None assms(3) by (simp add: upsert_def tag_id_def)
next
  case (Some tag)
  have ok: "tag_ok path tag" using assms(1) Some by (auto simp: catalogue_ok_iff)
  define retype where "retype = (dt_type tag = JNull \<or> state_type \<and> dt_type tag \<noteq> JStr data_type)"
  define remeta where "remeta = (\<exists>(k, v) \<in> set stated. map_of (dt_meta tag) k \<noteq> Some v)"
  let ?t = "tag\<lparr>dt_stale := False, dt_type := (if retype then JStr data_type else dt_type tag),
      dt_meta := (if remeta then updated (dt_meta tag) stated else dt_meta tag)\<rparr>"
  have t: "tag_ok path ?t" using ok assms(5) by (simp add: tag_ok_def dict_ok_updated)
  have id: "tag_id c path = Some (dt_id ?t)" using Some by (simp add: tag_id_def)
  have run: "upsert fresh path data_type stated state_type c = ((dt_id tag, dt_stale tag \<or> retype \<or> remeta),
      if dt_stale tag \<or> retype \<or> remeta then c\<lparr>ca_tags := AList.update path ?t (ca_tags c), ca_dirty := True\<rparr> else c)"
    unfolding upsert_def Some retype_def remeta_def by (simp add: Let_def)
  show ?thesis
  proof (cases "dt_stale tag \<or> retype \<or> remeta")
    case True
    show ?thesis unfolding run if_P [OF True] using catalogue_ok_update [OF assms(1) t, of True] id by (simp add: tag_id_def)
  next
    case False
    show ?thesis unfolding run if_not_P [OF False] using assms(1) Some by (simp add: keeps_ids_def tag_id_def)
  qed
qed

lemma tag_ok_stale [simp]: "tag_ok s (if p then t\<lparr>dt_stale := True\<rparr> else t) = tag_ok s t" "dt_id (if p then t\<lparr>dt_stale := True\<rparr> else t) = dt_id t"
  by (simp_all add: tag_ok_def)

lemma tag_ok_gone [simp]: "tag_ok s (gone_tag t) = tag_ok s t" "dt_id (gone_tag t) = dt_id t"
  by (simp_all add: tag_ok_def gone_tag_def)

lemma seal_ok: "catalogue_ok c \<Longrightarrow> catalogue_ok (snd (seal seen c)) \<and> keeps_ids c (snd (seal seen c))"
proof -
  assume ok: "catalogue_ok c"
  let ?f = "\<lambda>s t. if s \<notin> seen \<and> \<not> dt_stale t then t\<lparr>dt_stale := True\<rparr> else t"
  have keys: "map fst (map (\<lambda>(s, t). (s, ?f s t)) d) = map fst d" for d by (induction d) auto
  have get: "map_of (map (\<lambda>(s, t). (s, ?f s t)) d) s = map_option (?f s) (map_of d s)" for d s by (induction d) auto
  have run: "ca_tags (snd (seal seen c)) = map (\<lambda>(s, t). (s, ?f s t)) (ca_tags c) \<or> snd (seal seen c) = c"
    by (auto simp: seal_def Let_def)
  then show ?thesis
  proof
    assume tags: "ca_tags (snd (seal seen c)) = map (\<lambda>(s, t). (s, ?f s t)) (ca_tags c)"
    have id: "tag_id (snd (seal seen c)) s = tag_id c s" for s
      unfolding tag_id_def tags get by (cases "map_of (ca_tags c) s") auto
    have "tag_ok s t" if "map_of (ca_tags (snd (seal seen c))) s = Some t" for s t
      using that ok unfolding tags get by (auto simp: catalogue_ok_iff)
    then show ?thesis using ok unfolding catalogue_ok_iff keeps_ids_def id by (simp add: tags keys del: map_map)
  qed (use ok in \<open>simp add: keeps_ids_def\<close>)
qed

lemma map_of_map_values: "map_of (map (\<lambda>(s, t). (s, f s t)) d) s = map_option (f s) (map_of d s)" "map fst (map (\<lambda>(s, t). (s, f s t)) d) = map fst d"
  by (induction d) auto

lemma map_of_declare_tags:
  "map_of (ca_tags (declare_tags mint tags c)) s =
     (case map_of tags s of Some raw \<Rightarrow> Some (found_tag c mint s raw) | None \<Rightarrow> map_option gone_tag (map_of (ca_tags c) s))"
proof -
  have "filter (\<lambda>(source, _). source \<notin> fst ` set tags) d = filter (\<lambda>kv. fst kv \<notin> fst ` set tags) d" for d :: "(string, data_tag) dict"
    by (simp only: case_prod_unfold)
  then have kept: "map_of (filter (\<lambda>(source, _). source \<notin> fst ` set tags) (ca_tags c)) s
      = (if map_of tags s = None then map_of (ca_tags c) s else None)"
    using map_of_filter_key [of "\<lambda>s. s \<notin> fst ` set tags" "ca_tags c" s] by (simp add: map_of_eq_None_iff)
  show ?thesis by (simp add: declare_tags_def map_add_def map_of_map_values kept split: option.split)
qed

lemma dict_ok_declare_tags:
  assumes "dict_ok tags" "dict_ok (ca_tags c)"
  shows "dict_ok (ca_tags (declare_tags mint tags c))"
proof -
  have "dict_ok (filter (\<lambda>(source, _). source \<notin> fst ` set tags) (ca_tags c))" using assms(2) by (rule dict_ok_filter)
  then show ?thesis using assms(1) by (force simp: declare_tags_def map_of_map_values(2) simp del: map_map)
qed

lemma declare_tags_ok:
  assumes "catalogue_ok c" "op_ok c (Discovers mint tags)"
  shows "catalogue_ok (declare_tags mint tags c) \<and> keeps_ids c (declare_tags mint tags c)"
proof -
  let ?c = "declare_tags mint tags c"
  have ok: "dict_ok (ca_tags c)" "\<And>s t. map_of (ca_tags c) s = Some t \<Longrightarrow> tag_ok s t"
    "\<And>s s' i. tag_id c s = Some i \<Longrightarrow> tag_id c s' = Some i \<Longrightarrow> s = s'"
    using assms(1) by (auto simp: catalogue_ok_iff)
  have tags: "dict_ok tags" "inj_on mint (fst ` set tags)"
    "\<And>s t. map_of tags s = Some t \<Longrightarrow> s \<noteq> [] \<and> mint s \<noteq> [] \<and> mint s \<notin> ids_of c \<and> dt_type t \<noteq> JStr ''bool'' \<and> dict_ok (dt_meta t)"
    using assms(2) by (auto dest!: map_of_SomeD)
  have id: "tag_id ?c s = (case tag_id c s of Some i \<Rightarrow> Some i | None \<Rightarrow> if map_of tags s = None then None else Some (mint s))" for s
    unfolding tag_id_def map_of_declare_tags
    by (auto simp: found_tag_def gone_tag_def split: option.split)
  have minted: "tag_id c s = Some i \<Longrightarrow> map_of tags u = Some raw \<Longrightarrow> i \<noteq> mint u" for s i u raw
    using tags(3) [of u] ids_of_iff [OF ok(1)] by blast
  have apart: "map_of tags u = Some raw \<Longrightarrow> map_of tags w = Some raw' \<Longrightarrow> mint u = mint w \<Longrightarrow> u = w" for u w raw raw'
    by (rule inj_onD [OF tags(2)]) (auto dest: map_of_SomeD intro: rev_image_eqI)
  have "s = s'" if "tag_id ?c s = Some i" "tag_id ?c s' = Some i" for s s' i
    using that unfolding id by (auto split: option.splits if_splits dest: ok(3) minted apart)
  moreover have "tag_ok s t" if "map_of (ca_tags ?c) s = Some t" for s t
  proof (cases "map_of tags s")
    case None
    then show ?thesis using that ok(2) by (auto simp: map_of_declare_tags)
  next
    case (Some raw)
    have "dt_id t \<noteq> []"
      using that Some ok(2) tags(3) [OF Some] by (auto simp: map_of_declare_tags found_tag_def tag_ok_def split: option.splits)
    then show ?thesis using that Some tags(3) [OF Some] by (auto simp: map_of_declare_tags found_tag_def tag_ok_def)
  qed
  ultimately show ?thesis
    unfolding catalogue_ok_iff keeps_ids_def using dict_ok_declare_tags [OF tags(1) ok(1)] by (auto simp: id)
qed

lemma catalogue_step_ok:
  assumes "catalogue_ok c" "op_ok c op"
  shows "catalogue_ok (catalogue_step op c) \<and> keeps_ids c (catalogue_step op c)"
proof (cases op)
  case (Ensures fresh path v u s d)
  have "infer_data_type v \<noteq> ''bool''" by (simp add: infer_data_type_def split: json.split)
  then show ?thesis using upsert_ok [OF assms(1)] assms(2) by (auto simp: Ensures ensure_def dict_ok_tag_meta)
next
  case (Declares fresh path ty u s d)
  then show ?thesis using upsert_ok [OF assms(1)] assms(2) by (auto simp: ensure_declared_def dict_ok_tag_meta)
next
  case (Discovers mint tags)
  then show ?thesis using declare_tags_ok [OF assms(1)] assms(2) by simp
next
  case (Seals seen)
  then show ?thesis using seal_ok [OF assms(1)] by simp
next
  case (Placed mount)
  then show ?thesis using assms(1) by (simp add: re_placed_def catalogue_ok_def keeps_ids_def tag_id_def)
qed

lemma catalogue_run_ok:
  "catalogue_ok c \<Longrightarrow> ops_ok ops c \<Longrightarrow> catalogue_ok (catalogue_run ops c) \<and> keeps_ids c (catalogue_run ops c)"
proof (induction ops arbitrary: c)
  case Nil
  then show ?case by (simp add: catalogue_run_def keeps_ids_def)
next
  case (Cons op ops)
  have one: "catalogue_ok (catalogue_step op c)" "keeps_ids c (catalogue_step op c)" using catalogue_step_ok [OF Cons.prems(1), of op] Cons.prems(2) by simp_all
  then have "catalogue_ok (catalogue_run ops (catalogue_step op c))" "keeps_ids (catalogue_step op c) (catalogue_run ops (catalogue_step op c))"
    using Cons.IH [OF one(1)] Cons.prems(2) by simp_all
  then show ?case using one(2) by (simp add: catalogue_run_def keeps_ids_def)
qed

end
