(* ===== verification/Chaski_Catalogue_Life.thy ===== *)
theory Chaski_Catalogue_Life
  imports Chaski_Catalogue
begin

text \<open>
  A catalogue over its life: the record the node retains of it and restarts (\<open>load_previous\<close>), and the node's signals bound
  to it.
\<close>

section \<open>Sources and ids as an interface\<close>

text \<open>What the bindings ask of a catalogue: ids and sources are inverse to each other, and a later catalogue keeps what an
  earlier one says.\<close>

locale id_registry =
  fixes id_for :: "'c \<Rightarrow> 's \<Rightarrow> 'i option"
    and source_for :: "'c \<Rightarrow> 'i \<Rightarrow> 's option"
    and registry_ok :: "'c \<Rightarrow> bool"
    and later :: "'c \<Rightarrow> 'c \<Rightarrow> bool"
  assumes inverse: "registry_ok c \<Longrightarrow> source_for c i = Some s \<longleftrightarrow> id_for c s = Some i"
    and later_keeps: "later c c' \<Longrightarrow> id_for c s = Some i \<Longrightarrow> id_for c' s = Some i"
    and later_ok: "later c c' \<Longrightarrow> registry_ok c \<Longrightarrow> registry_ok c'"
begin

lemma source_kept: "registry_ok c \<Longrightarrow> later c c' \<Longrightarrow> source_for c i = Some s \<Longrightarrow> source_for c' i = Some s"
  using inverse later_keeps later_ok by metis

lemma known_kept: "registry_ok c \<Longrightarrow> later c c' \<Longrightarrow> source_for c i \<noteq> None \<Longrightarrow> source_for c' i \<noteq> None"
  using source_kept by fastforce

lemma one_source: "registry_ok c \<Longrightarrow> id_for c s = Some i \<Longrightarrow> id_for c s' = Some i \<Longrightarrow> s = s'"
  using inverse by (metis option.inject)

end

definition grown :: "catalogue \<Rightarrow> catalogue \<Rightarrow> bool" where
  "grown c c' \<longleftrightarrow> (\<exists>ops. ops_ok ops c \<and> catalogue_ok c \<and> c' = catalogue_run ops c)"

interpretation catalogue_ids: id_registry tag_id source_for_tag catalogue_ok grown
proof
  fix c c' s i
  show "catalogue_ok c \<Longrightarrow> source_for_tag c i = Some s \<longleftrightarrow> tag_id c s = Some i" by (rule source_for_tag_iff)
  show "grown c c' \<Longrightarrow> tag_id c s = Some i \<Longrightarrow> tag_id c' s = Some i"
    using catalogue_run_ok unfolding grown_def keeps_ids_def by blast
  show "grown c c' \<Longrightarrow> catalogue_ok c \<Longrightarrow> catalogue_ok c'" using catalogue_run_ok unfolding grown_def by blast
qed

section \<open>Bound signals\<close>

datatype binding_event = SignalSeen string "signal_record option" | CatalogueGrows catalogue_op

fun binding_step :: "binding_event \<Rightarrow> catalogue \<times> binding_table \<Rightarrow> catalogue \<times> binding_table" where
  "binding_step (SignalSeen topic s) (c, t) = (c, snd (on_signal_record c topic s t))"
| "binding_step (CatalogueGrows op) (c, t) = (catalogue_step op c, t)"

fun binding_events_ok :: "binding_event list \<Rightarrow> catalogue \<Rightarrow> bool" where
  "binding_events_ok [] c = True"
| "binding_events_ok (SignalSeen topic s # es) c = binding_events_ok es c"
| "binding_events_ok (CatalogueGrows op # es) c = (op_ok c op \<and> binding_events_ok es (catalogue_step op c))"

definition bindings_inv :: "catalogue \<Rightarrow> binding_table \<Rightarrow> bool" where
  "bindings_inv c t \<longleftrightarrow> dict_ok (bt_bindings t)
     \<and> (\<forall>i. bindings_for i t = filter (\<lambda>b. bd_tag b = i) (map snd (bt_bindings t)))
     \<and> (\<forall>(topic, b) \<in> set (bt_bindings t). source_for_tag c (bd_tag b) \<noteq> None \<and> sg_tag (bd_signal b) = Some (bd_tag b)
          \<and> bd_node b = split_on (CHR ''/'') topic ! 3 \<and> bd_context b = drop 4 (split_on (CHR ''/'') topic))"

lemma index_fold:
  "(case map_of (fold (index_binding \<circ> snd) bs d) i of Some xs \<Rightarrow> xs | None \<Rightarrow> []) =
     (case map_of d i of Some xs \<Rightarrow> xs | None \<Rightarrow> []) @ filter (\<lambda>b. bd_tag b = i) (map snd bs)"
  by (induction bs arbitrary: d) (auto simp: index_binding_def split: option.split)

lemma set_binding_inv:
  assumes "bindings_inv c t"
    "\<forall>x. b = Some x \<longrightarrow> source_for_tag c (bd_tag x) \<noteq> None \<and> sg_tag (bd_signal x) = Some (bd_tag x)
       \<and> bd_node x = split_on (CHR ''/'') topic ! 3 \<and> bd_context x = drop 4 (split_on (CHR ''/'') topic)"
  shows "bindings_inv c (snd (set_binding topic b t))
     \<and> map_of (bt_bindings (snd (set_binding topic b t))) = (map_of (bt_bindings t))(topic := b)"
proof (cases "b = None \<and> map_of (bt_bindings t) topic = None")
  case True
  then have "(map_of (bt_bindings t))(topic := b) = map_of (bt_bindings t)" by (auto simp: fun_eq_iff)
  then show ?thesis using True assms(1) by (simp add: set_binding_def)
next
  case False
  let ?bs = "case b of None \<Rightarrow> AList.delete topic (bt_bindings t) | Some b \<Rightarrow> AList.update topic b (bt_bindings t)"
  have run: "snd (set_binding topic b t) = \<lparr>bt_bindings = ?bs, bt_by_tag = fold (index_binding \<circ> snd) ?bs []\<rparr>"
    unfolding set_binding_def if_not_P [OF False] by (simp add: Let_def)
  have d: "dict_ok (bt_bindings t)" using assms(1) by (simp add: bindings_inv_def)
  have get: "map_of ?bs = (map_of (bt_bindings t))(topic := b)" by (cases b) auto
  have dbs: "dict_ok ?bs" using d by (cases b) (auto intro: dict_ok_update dict_ok_delete)
  have "(u, x) \<in> set ?bs \<Longrightarrow> (u, x) \<in> set (bt_bindings t) \<or> u = topic \<and> b = Some x" for u x
    using get dbs d by (metis fun_upd_apply map_of_SomeD map_of_is_SomeI)
  then have "\<forall>(u, x) \<in> set ?bs. source_for_tag c (bd_tag x) \<noteq> None \<and> sg_tag (bd_signal x) = Some (bd_tag x)
      \<and> bd_node x = split_on (CHR ''/'') u ! 3 \<and> bd_context x = drop 4 (split_on (CHR ''/'') u)"
    using assms unfolding bindings_inv_def by blast
  then show ?thesis
    unfolding run bindings_inv_def using dbs get index_fold [of ?bs "[]"] by (simp add: bindings_for_def)
qed

text \<open>What the node says of a topic, as far as it names a tag of the catalogue.\<close>

definition claims :: "catalogue \<Rightarrow> string \<Rightarrow> signal_record option \<Rightarrow> binding option" where
  "claims c topic signal =
     (case signal of
        None \<Rightarrow> None
      | Some s \<Rightarrow>
          (case sg_tag s of
             None \<Rightarrow> None
           | Some i \<Rightarrow>
               if i = [] \<or> source_for_tag c i = None then None
               else Some \<lparr>bd_tag = i, bd_node = split_on (CHR ''/'') topic ! 3, bd_context = drop 4 (split_on (CHR ''/'') topic), bd_signal = s\<rparr>))"

lemma on_signal_claims:
  "snd (on_signal_record c topic signal t) =
     (if length (split_on (CHR ''/'') topic) < 5 then t else snd (set_binding topic (claims c topic signal) t))"
  by (auto simp: on_signal_record_def claims_def Let_def split: option.splits)

lemma on_signal_record_inv:
  assumes "bindings_inv c t"
  shows "bindings_inv c (snd (on_signal_record c topic s t))
     \<and> map_of (bt_bindings (snd (on_signal_record c topic s t))) =
         (if length (split_on (CHR ''/'') topic) < 5 then map_of (bt_bindings t) else (map_of (bt_bindings t))(topic := claims c topic s))"
proof -
  have "\<forall>x. claims c topic s = Some x \<longrightarrow> source_for_tag c (bd_tag x) \<noteq> None \<and> sg_tag (bd_signal x) = Some (bd_tag x)
       \<and> bd_node x = split_on (CHR ''/'') topic ! 3 \<and> bd_context x = drop 4 (split_on (CHR ''/'') topic)"
    by (auto simp: claims_def split: option.splits if_splits)
  from set_binding_inv [OF assms this] assms show ?thesis unfolding on_signal_claims by simp
qed

lemma bindings_inv_grows:
  assumes "catalogue_ok c" "op_ok c op" "bindings_inv c t"
  shows "bindings_inv (catalogue_step op c) t"
proof -
  have "grown c (catalogue_step op c)"
    unfolding grown_def using assms(1,2) by (intro exI [of _ "[op]"]) (simp add: catalogue_run_def)
  then have "source_for_tag c i \<noteq> None \<Longrightarrow> source_for_tag (catalogue_step op c) i \<noteq> None" for i
    by (rule catalogue_ids.known_kept [OF assms(1)])
  then show ?thesis using assms(3) unfolding bindings_inv_def by blast
qed

lemma binding_run_inv:
  assumes "catalogue_ok c" "binding_events_ok es c" "bindings_inv c t"
  shows "(case fold binding_step es (c, t) of (c', t') \<Rightarrow> catalogue_ok c' \<and> bindings_inv c' t')"
  using assms
proof (induction es arbitrary: c t)
  case (Cons e es)
  show ?case
  proof (cases e)
    case (SignalSeen topic s)
    then show ?thesis using Cons on_signal_record_inv [OF Cons.prems(3)] by simp
  next
    case (CatalogueGrows op)
    then show ?thesis using Cons.IH [of "catalogue_step op c" t] Cons.prems catalogue_step_ok [OF Cons.prems(1)] bindings_inv_grows [OF Cons.prems(1) _ Cons.prems(3)]
      by simp
  qed
qed simp

section \<open>The retained record\<close>

text \<open>The record as \<open>GET /kv\<close> returns it.\<close>

definition tag_json :: "data_tag \<Rightarrow> json" where
  "tag_json t = JObj [(''id'', JStr (dt_id t)), (''name'', JStr (dt_name t)), (''source'', JStr (dt_source t)),
     (''is_writable'', JBool (dt_writable t)), (''is_readable'', JBool (dt_readable t)), (''data_type'', dt_type t),
     (''is_stale'', JBool (dt_stale t)), (''meta'', JObj (dt_meta t))]"

definition record_json :: "(data_tag list \<Rightarrow> string) \<Rightarrow> string \<times> data_tag list \<Rightarrow> (string, json) dict" where
  "record_json version r = [(''data_tags'', JList (map tag_json (snd r))), (''connector'', JStr (fst r)), (''version'', JStr (version (snd r)))]"

text \<open>\<open>str\<close> of a string is itself; the content hash is not empty.\<close>

definition texts_ok :: "(json \<Rightarrow> string) \<Rightarrow> (data_tag list \<Rightarrow> string) \<Rightarrow> bool" where
  "texts_ok py_str version \<longleftrightarrow> (\<forall>s. py_str (JStr s) = s) \<and> (\<forall>tags. version tags \<noteq> [])"

lemma tag_from_json:
  assumes "texts_ok py_str version"
  shows "tag_from_record py_str [(''id'', JStr (dt_id t)), (''name'', JStr (dt_name t)), (''source'', JStr (dt_source t)),
     (''is_writable'', JBool (dt_writable t)), (''is_readable'', JBool (dt_readable t)), (''data_type'', dt_type t),
     (''is_stale'', JBool (dt_stale t)), (''meta'', JObj (dt_meta t))] = Inr t"
  using assms by (simp add: tag_from_record_def raw_field_def texts_ok_def)

lemma update_new: "k \<notin> fst ` set d \<Longrightarrow> AList.update k v d = d @ [(k, v)]"
  by (induction d) auto

lemma load_tags_json:
  assumes "texts_ok py_str version" "\<forall>(s, t) \<in> set d. tag_ok s t" "dict_ok (acc @ d)"
  shows "load_tags py_str (map (tag_json \<circ> snd) d) acc False = (Inr (), acc @ d, False)"
  using assms(2,3)
proof (induction d arbitrary: acc)
  case (Cons st d)
  obtain s t where st: "st = (s, t)" by force
  have ok: "dt_source t = s" "s \<noteq> []" "dt_id t \<noteq> []" "dt_type t \<noteq> JStr ''bool''" using Cons.prems(1) by (auto simp: st tag_ok_def)
  have new: "s \<notin> fst ` set acc" using Cons.prems(2) by (auto simp: st)
  have rest: "load_tags py_str (map (tag_json \<circ> snd) d) (acc @ [(s, t)]) False = (Inr (), (acc @ [(s, t)]) @ d, False)"
    using Cons.prems by (intro Cons.IH) (auto simp: st)
  have "load_tags py_str (tag_json t # map (tag_json \<circ> snd) d) acc False
      = load_tags py_str (map (tag_json \<circ> snd) d) (AList.update s (migrate t) acc) (False \<or> dt_type t = JStr ''bool'')"
    unfolding tag_json_def load_tags.simps tag_from_json [OF assms(1)] using ok by (simp add: raw_field_def)
  then show ?case using rest ok(4) update_new [OF new] by (simp add: st migrate_def o_def)
qed simp

lemma load_record_json:
  assumes "texts_ok py_str version" "catalogue_ok c"
  shows "load_previous py_str (Some (record_json version (connector, data_tags c))) (mk_catalogue own mount) =
     (Inr (), \<lparr>ca_connector = own, ca_mount = mount, ca_tags = ca_tags c,
        ca_last = Some (revision_text connector (version (data_tags c))), ca_dirty = False\<rparr>)"
proof -
  have "load_tags py_str (map (tag_json \<circ> snd) (ca_tags c)) [] False = (Inr (), [] @ ca_tags c, False)"
    using assms(2) by (intro load_tags_json [OF assms(1)]) (auto simp: catalogue_ok_def)
  then show ?thesis
    using assms(1) by (simp add: load_previous_def record_json_def raw_field_def mk_catalogue_def data_tags_def texts_ok_def)
qed

section \<open>Publishing and restarting\<close>















section \<open>What goes wrong\<close>

text \<open>A service registered anew (another ULID) that finds its old record is not republished, although its record names the
  old identity: a clean catalogue is not compared.\<close>

lemma reregistered_not_republished:
  assumes "texts_ok py_str version" "catalogue_ok c" "old \<noteq> new"
    "loaded = snd (load_previous py_str (Some (record_json version (old, data_tags c))) (mk_catalogue new mount))"
  shows "ca_last loaded \<noteq> Some (revision version loaded) \<and> catalogue_to_publish version loaded = (None, loaded)"
proof -
  have "old @ [CHR 0x00] @ x \<noteq> new @ [CHR 0x00] @ x" for x using assms(3) by simp
  then show ?thesis unfolding assms(4) load_record_json [OF assms(1,2)]
    by (simp add: revision_def revision_text_def catalogue_to_publish_def data_tags_def)
qed

text \<open>Two threads publish: the one that decided first writes last. The node retains its older catalogue, and nothing is due.\<close>

lemma older_catalogue_published_last:
  assumes "catalogue_to_publish version c = (Some (payload, r), c)" "tag_id c path = None" "fresh \<notin> ids_of c"
    "c2 = snd (upsert fresh path data_type stated state_type c)"
  shows "let (prepared, c3) = catalogue_to_publish version c2 in
      prepared \<noteq> None \<longrightarrow>
        (let c4 = record_published (snd (the prepared)) c3; c5 = record_published r c4
         in \<not> ca_dirty c5 \<and> payload \<noteq> (ca_connector c5, data_tags c5))"
proof -
  have p: "payload = (ca_connector c, data_tags c)" using assms(1) by (auto simp: catalogue_to_publish_def split: if_splits)
  have none: "map_of (ca_tags c) path = None" using assms(2) by (simp add: tag_id_def)
  then have new: "path \<notin> fst ` set (ca_tags c)" by (simp add: map_of_eq_None_iff)
  have "length (data_tags c2) = length (data_tags c) + 1"
    unfolding assms(4) upsert_def none by (simp add: data_tags_def update_new [OF new] Let_def)
  then have "data_tags c \<noteq> data_tags c2" by auto
  then show ?thesis using p by (auto simp: catalogue_to_publish_def record_published_def data_tags_def)
qed

section \<open>Properties\<close>

text \<open>C26: A source keeps its id. Whatever a service publishes, declares, discovers, seals or where it is placed, its catalogue
  stays well formed (one tag per source, one source per id, every tag filed under its own source, with a data type of the
  vocabulary), no source leaves it, every id names the source it was minted for, and the id an operation returns is the one
  the catalogue holds.\<close>

theorem catalogue_ids_stable:
  assumes "catalogue_ok c" "ops_ok ops c"
  shows "catalogue_ok (catalogue_run ops c)
     \<and> (\<forall>s i. tag_id c s = Some i \<longrightarrow> tag_id (catalogue_run ops c) s = Some i \<and> source_for_tag (catalogue_run ops c) i = Some s)
     \<and> (\<forall>fresh path v unit semantic_type description. op_ok (catalogue_run ops c) (Ensures fresh path v unit semantic_type description) \<longrightarrow>
          (case ensure fresh path v unit semantic_type description (catalogue_run ops c) of ((i, _), c') \<Rightarrow> tag_id c' path = Some i))"
proof -
  let ?c = "catalogue_run ops c"
  have ok: "catalogue_ok ?c" "keeps_ids c ?c" using catalogue_run_ok [OF assms] by simp_all
  have "tag_id ?c s = Some i \<and> source_for_tag ?c i = Some s" if "tag_id c s = Some i" for s i
    using that ok(2) catalogue_ids.inverse [OF ok(1)] by (simp add: keeps_ids_def)
  moreover have "tag_id (snd (ensure fresh path v u t d ?c)) path = Some (fst (fst (ensure fresh path v u t d ?c)))"
    if "op_ok ?c (Ensures fresh path v u t d)" for fresh path v u t d
    using upsert_ok [OF ok(1), of fresh path "infer_data_type v" "tag_meta None u t d" False] that
    by (simp add: ensure_def dict_ok_tag_meta infer_data_type_def split: json.split)
  ultimately show ?thesis using ok(1) by (simp add: split_beta)
qed

theorem catalogue_ids_stable_witness:
  "tag_id (catalogue_run [Seals {}, Declares ''i3'' ''line/temp'' ''float'' None None None]
      (snd (ensure ''i1'' ''line/temp'' (JInt 3) None None None (mk_catalogue ''conn'' ''site'')))) ''line/temp'' = Some ''i1''"
proof -
  let ?c = "snd (ensure ''i1'' ''line/temp'' (JInt 3) None None None (mk_catalogue ''conn'' ''site''))"
  have c: "?c = \<lparr>ca_connector = ''conn'', ca_mount = ''site'', ca_tags = [(''line/temp'', \<lparr>dt_id = ''i1'', dt_name = ''temp'',
      dt_source = ''line/temp'', dt_writable = False, dt_readable = True, dt_type = JStr ''int'', dt_stale = False,
      dt_meta = [(''element'', JStr ''site/line'')]\<rparr>)], ca_last = None, ca_dirty = True\<rparr>" by code_simp
  have "catalogue_ok ?c" unfolding c by (simp add: catalogue_ok_def tag_ok_def)
  moreover have "ops_ok [Seals {}, Declares ''i3'' ''line/temp'' ''float'' None None None] ?c"
    unfolding c by (simp add: ids_of_def seal_def)
  ultimately show ?thesis using catalogue_ids_stable by (simp add: c tag_id_def)
qed

text \<open>C28: A restart keeps the catalogue. A service that finds the record of its catalogue in the node's store has the same
  tags with the same ids, in the same order, knows the revision it published, and publishes nothing for it.\<close>

theorem catalogue_survives_restart:
  assumes "texts_ok py_str version" "catalogue_ok c"
  shows "let (r, c') = load_previous py_str (Some (record_json version (ca_connector c, data_tags c))) (mk_catalogue (ca_connector c) mount)
     in r = Inr () \<and> ca_tags c' = ca_tags c \<and> ca_last c' = Some (revision version c') \<and> catalogue_to_publish version c' = (None, c')"
  unfolding load_record_json [OF assms] by (simp add: revision_def data_tags_def catalogue_to_publish_def)

theorem catalogue_survives_restart_witness:
  "let c = snd (ensure ''i1'' ''line/temp'' (JInt 3) None None None (mk_catalogue ''conn'' ''site''));
       text = (\<lambda>j. case j of JStr s \<Rightarrow> s | _ \<Rightarrow> ''?''); hash = (\<lambda>tags. ''v'' @ concat (map dt_id tags));
       (r, c') = load_previous text (Some (record_json hash (ca_connector c, data_tags c))) (mk_catalogue (ca_connector c) ''site'')
   in r = Inr () \<and> tag_id c' ''line/temp'' = Some ''i1'' \<and> catalogue_to_publish hash c' = (None, c')"
proof -
  let ?c = "snd (ensure ''i1'' ''line/temp'' (JInt 3) None None None (mk_catalogue ''conn'' ''site''))"
  let ?text = "\<lambda>j. case j of JStr s \<Rightarrow> s | _ \<Rightarrow> ''?''"
  let ?hash = "\<lambda>tags. ''v'' @ concat (map dt_id tags)"
  have texts: "texts_ok ?text ?hash" by (simp add: texts_ok_def)
  have "catalogue_ok (mk_catalogue ''conn'' ''site'')" by (simp add: catalogue_ok_def mk_catalogue_def)
  from catalogue_step_ok [OF this, of "Ensures ''i1'' ''line/temp'' (JInt 3) None None None"]
  have ok: "catalogue_ok ?c" by (simp add: ids_of_def mk_catalogue_def)
  have id: "tag_id ?c ''line/temp'' = Some ''i1''" by (simp add: tag_id_def ensure_def upsert_def mk_catalogue_def Let_def)
  show ?thesis using catalogue_survives_restart [OF texts ok, of "''site''"] id by (auto simp: Let_def tag_id_def)
qed



text \<open>C27: The bindings are those of the node's signals. After any history of signals and changes of the catalogue, the bindings of a tag
  are exactly those in the table that name it, in the order of the table; each names a tag the catalogue has, the one its
  signal names, at its signal's own node and path; and the next signal on a topic sets, replaces or drops its binding and
  no other.\<close>

theorem signal_bindings_exact:
  assumes "catalogue_ok c0" "binding_events_ok es c0"
  shows "let (c, t) = fold binding_step es (c0, \<lparr>bt_bindings = [], bt_by_tag = []\<rparr>) in
     (\<forall>i. bindings_for i t = filter (\<lambda>b. bd_tag b = i) (map snd (bt_bindings t)))
     \<and> (\<forall>topic b. map_of (bt_bindings t) topic = Some b \<longrightarrow> (\<exists>s. source_for_tag c (bd_tag b) = Some s) \<and> sg_tag (bd_signal b) = Some (bd_tag b)
          \<and> bd_node b = split_on (CHR ''/'') topic ! 3 \<and> bd_context b = drop 4 (split_on (CHR ''/'') topic))
     \<and> (\<forall>topic signal. 5 \<le> length (split_on (CHR ''/'') topic) \<longrightarrow>
          map_of (bt_bindings (snd (on_signal_record c topic signal t))) = (map_of (bt_bindings t))(topic := claims c topic signal))"
proof -
  obtain c t where ct: "fold binding_step es (c0, \<lparr>bt_bindings = [], bt_by_tag = []\<rparr>) = (c, t)" by force
  have "bindings_inv c0 \<lparr>bt_bindings = [], bt_by_tag = []\<rparr>" by (simp add: bindings_inv_def bindings_for_def)
  then have inv: "bindings_inv c t" using binding_run_inv [OF assms] ct by fastforce
  have "(\<exists>s. source_for_tag c (bd_tag b) = Some s) \<and> sg_tag (bd_signal b) = Some (bd_tag b)
      \<and> bd_node b = split_on (CHR ''/'') topic ! 3 \<and> bd_context b = drop 4 (split_on (CHR ''/'') topic)"
    if "map_of (bt_bindings t) topic = Some b" for topic b
    using inv map_of_SomeD [OF that] unfolding bindings_inv_def by blast
  moreover have "map_of (bt_bindings (snd (on_signal_record c topic signal t))) = (map_of (bt_bindings t))(topic := claims c topic signal)"
    if "5 \<le> length (split_on (CHR ''/'') topic)" for topic signal
    using on_signal_record_inv [OF inv, of topic signal] that by simp
  ultimately show ?thesis using inv unfolding ct bindings_inv_def by simp
qed

theorem signal_bindings_exact_witness:
  "case fold binding_step [CatalogueGrows (Ensures ''i1'' ''line/temp'' (JInt 3) None None None),
        SignalSeen ''u/v/_Signal/n1/line/temp'' (Some \<lparr>sg_tag = Some ''i1'', sg_id = ''s1'', sg_published = True\<rparr>),
        SignalSeen ''u/v/_Signal/n1/other'' (Some \<lparr>sg_tag = Some ''i9'', sg_id = ''s2'', sg_published = True\<rparr>)]
      (mk_catalogue ''conn'' ''site'', \<lparr>bt_bindings = [], bt_by_tag = []\<rparr>) of
     (c, t) \<Rightarrow> map bd_context (bindings_for ''i1'' t) = [[''line'', ''temp'']]
        \<and> bindings_for ''i1'' t = filter (\<lambda>b. bd_tag b = ''i1'') (map snd (bt_bindings t))"
proof -
  let ?es = "[CatalogueGrows (Ensures ''i1'' ''line/temp'' (JInt 3) None None None),
        SignalSeen ''u/v/_Signal/n1/line/temp'' (Some \<lparr>sg_tag = Some ''i1'', sg_id = ''s1'', sg_published = True\<rparr>),
        SignalSeen ''u/v/_Signal/n1/other'' (Some \<lparr>sg_tag = Some ''i9'', sg_id = ''s2'', sg_published = True\<rparr>)]"
  let ?c0 = "mk_catalogue ''conn'' ''site''"
  have c0: "catalogue_ok ?c0" by (simp add: catalogue_ok_def mk_catalogue_def)
  have events: "binding_events_ok ?es ?c0" by (simp add: ids_of_def mk_catalogue_def)
  have "map bd_context (bindings_for ''i1'' (snd (fold binding_step ?es (?c0, \<lparr>bt_bindings = [], bt_by_tag = []\<rparr>)))) = [[''line'', ''temp'']]"
    by code_simp
  then show ?thesis using signal_bindings_exact [OF c0 events] by (auto simp: Let_def split: prod.splits)
qed

end
