(* ===== verification/Chaski_Outputs.thy ===== *)
theory Chaski_Outputs
  imports Chaski_Pending Chaski_Resolve Chaski_Catalogue_Life
begin

text \<open>
  Output primitives of the producers: \<open>src/chaski/dataops/outputs.py\<close>. \<open>SignalOutput\<close> queues samples in the buffer until its
  signal is bound and drains the queue before it publishes on; \<open>AnnotationOutput\<close> writes and deletes interval annotations;
  \<open>build_catalogue\<close> and \<open>bind_annotation_outputs\<close> give them their identity. What a lookup, \<open>runtime.send\<close> and a settled
  batch answer, and the derivation of annotation ids, are arguments. Timestamps are epoch seconds (\<open>_epoch\<close> and the clock are applied).
\<close>

section \<open>Signal outputs\<close>

record metric =
  me_value :: json
  me_timestamp :: real
  me_signal :: json

text \<open>\<open>runtime_buffer = None\<close>: the runtime has no buffer. \<open>rt_calls\<close> numbers what the outside is asked. \<open>rt_log\<close> is
  what became of the samples of this output, in order.\<close>

datatype output_event =
    Queued real json
  | Drained string metric
  | Handed string metric
  | Disabled real json

record signal_output =
  so_source :: "string option"
  so_tag :: "string option"
  so_binding :: "(string \<times> json) option"
  so_maybe_queued :: bool
  rt_buffer :: "buffer option"
  rt_calls :: nat
  rt_log :: "output_event list"

datatype lookup_error = TooManyRequests | LookupFailed

text \<open>\<open>ow_index n\<close>: the index the \<open>n\<close>-th lookup resolves over; \<open>ow_send n\<close>: whether \<open>send\<close> takes the message and
  returns; \<open>ow_late n\<close>: whether a \<open>send\<close> of an annotation that raises had handed its message over before (its PUBACK does not
  come, or \<open>PublishBatch.add\<close> raises for an older write); \<open>ow_page n\<close>: whether every message of the page is sent and
  confirmed (else the batch raises).\<close>

record output_world =
  ow_index :: "nat \<Rightarrow> lookup_error + index"
  ow_send :: "nat \<Rightarrow> bool"
  ow_late :: "nat \<Rightarrow> bool"
  ow_page :: "nat \<Rightarrow> bool"

datatype output_error = LookupRaised lookup_error | Buffer py_error | NotBound | NoBuffer | SendRaised

definition mk_signal_output :: "buffer option \<Rightarrow> signal_output" where
  "mk_signal_output b =
     \<lparr>so_source = None, so_tag = None, so_binding = None, so_maybe_queued = True, rt_buffer = b, rt_calls = 0, rt_log = []\<rparr>"

definition output_forget :: "signal_output \<Rightarrow> signal_output" where
  "output_forget s = s\<lparr>so_binding := None\<rparr>"

definition output_bind :: "string \<Rightarrow> string \<Rightarrow> signal_output \<Rightarrow> signal_output" where
  "output_bind source tag s = s\<lparr>so_source := Some source, so_tag := Some tag\<rparr>"

definition bound_source :: "signal_output \<Rightarrow> output_error + string" where
  "bound_source s = (case so_source s of None \<Rightarrow> Inl NotBound | Some x \<Rightarrow> Inr x)"

definition bound_tag :: "signal_output \<Rightarrow> output_error + string" where
  "bound_tag s = (case so_tag s of None \<Rightarrow> Inl NotBound | Some x \<Rightarrow> Inr x)"

text \<open>\<open>self._binding or resolve.resolve_output_binding(door, self.tag_id)\<close>.\<close>

definition find_binding :: "output_world \<Rightarrow> signal_output \<Rightarrow> (output_error + (string \<times> json) option) \<times> signal_output" where
  "find_binding w s =
     (case so_binding s of
        Some x \<Rightarrow> (Inr (Some x), s)
      | None \<Rightarrow>
          (case bound_tag s of
             Inl e \<Rightarrow> (Inl e, s)
           | Inr tag \<Rightarrow>
               (case ow_index w (rt_calls s) of
                  Inl e \<Rightarrow> (Inl (LookupRaised e), s\<lparr>rt_calls := rt_calls s + 1\<rparr>)
                | Inr ix \<Rightarrow> (Inr (resolve_output_binding ix (JStr tag)), s\<lparr>rt_calls := rt_calls s + 1\<rparr>))))"

definition OUTPUT_LIMIT :: nat where "OUTPUT_LIMIT = 10000"
definition OUTPUT_PAGE :: nat where "OUTPUT_PAGE = 1000"

definition queue_sample :: "real \<Rightarrow> json \<Rightarrow> signal_output \<Rightarrow> (output_error + unit) \<times> signal_output" where
  "queue_sample ts v s =
     (case rt_buffer s of
        None \<Rightarrow> (Inl NoBuffer, s)
      | Some b \<Rightarrow>
          (case bound_source s of
             Inl e \<Rightarrow> (Inl e, s)
           | Inr source \<Rightarrow>
               (case queue_output OUTPUT_LIMIT source ts v b of
                  (Inl e, b) \<Rightarrow> (Inl (Buffer e), s\<lparr>rt_buffer := Some b\<rparr>)
                | (Inr _, b) \<Rightarrow> (Inr (), s\<lparr>rt_buffer := Some b, so_maybe_queued := True, rt_log := rt_log s @ [Queued ts v]\<rparr>))))"

text \<open>The queue of a source is a durable queue.\<close>

definition outbox :: "string \<Rightarrow> buffer \<Rightarrow> (real \<times> json) list" where
  "outbox source b = sort_key fst (map (\<lambda>((s, ts), v). (ts, v)) (rows_of source (db_pending (work b))))"

definition outbox_ok :: "buffer \<Rightarrow> bool" where
  "outbox_ok b \<longleftrightarrow> dict_ok (db_pending (work b))"

lemma fold_delete: "fold (\<lambda>ts. AList.delete (source, ts)) tss d = filter (\<lambda>r. fst r \<notin> Pair source ` set tss) d"
  by (induction tss arbitrary: d) (auto simp: AList.delete_eq intro!: filter_cong)

lemma dict_ok_fold_delete: "dict_ok d \<Longrightarrow> dict_ok (fold (\<lambda>ts. AList.delete (source, ts)) tss d)"
  unfolding fold_delete by (rule dict_ok_filter)

lemma distinct_outbox: "outbox_ok b \<Longrightarrow> distinct (map fst (outbox source b))"
proof -
  assume "outbox_ok b"
  then have "distinct (map fst (rows_of source (db_pending (work b))))" by (simp add: outbox_ok_def rows_of_def distinct_map_filter)
  then have "inj_on fst (set (rows_of source (db_pending (work b))))" "distinct (rows_of source (db_pending (work b)))"
    by (simp_all add: distinct_map)
  then have "distinct (map fst (map (\<lambda>((s, ts), v). (ts, v)) (rows_of source (db_pending (work b)))))"
    unfolding distinct_map by (auto simp: inj_on_def rows_of_def)
  then show ?thesis by (simp add: outbox_def distinct_map [of fst] del: map_map)
qed

interpretation outbox: durable_queue fst "outbox source" "\<lambda>n. pending_outputs n source" "outputs_sent source" outbox_ok for source
proof
  show "outbox source (outputs_sent source tss b) = filter (\<lambda>x. fst x \<notin> set tss) (outbox source b)" if "outbox_ok b" for tss b
  proof -
    have "rows_of source (filter (\<lambda>r. fst r \<notin> Pair source ` set tss) d) = filter (\<lambda>r. snd (fst r) \<notin> set tss) (rows_of source d)"
      for d :: "(string \<times> real, json) dict"
      by (auto simp: rows_of_def intro!: filter_cong)
    then show ?thesis
      by (simp add: outbox_def outputs_sent_def commit_def edit_def fold_delete filter_sort filter_map case_prod_unfold comp_def)
  qed
qed (auto simp: pending_outputs_def outbox_def [symmetric] distinct_outbox [unfolded outbox_ok_def] outbox_ok_def
    outputs_sent_def commit_def edit_def dict_ok_fold_delete)

function drain_queue :: "output_world \<Rightarrow> string \<Rightarrow> json \<Rightarrow> string \<Rightarrow> buffer \<Rightarrow> signal_output \<Rightarrow> (output_error + unit) \<times> signal_output" where
  "drain_queue w topic sid source b s =
     (let page = pending_outputs OUTPUT_PAGE source b
      in if page = [] then (Inr (), s\<lparr>rt_buffer := Some b, so_maybe_queued := False\<rparr>)
         else if ow_page w (rt_calls s)
         then drain_queue w topic sid source (outputs_sent source (map fst page) b)
                (s\<lparr>rt_calls := rt_calls s + 1,
                   rt_log := rt_log s @ map (\<lambda>(ts, v). Drained topic \<lparr>me_value = v, me_timestamp = ts, me_signal = sid\<rparr>) page\<rparr>)
         else (Inl SendRaised, s\<lparr>rt_buffer := Some b, rt_calls := rt_calls s + 1\<rparr>))"
  by pat_completeness auto

lemma outputs_sent_shorter:
  assumes "pending_outputs n source b \<noteq> []"
  shows "length (db_pending (work (outputs_sent source (map fst (pending_outputs n source b)) b))) < length (db_pending (work b))"
proof -
  obtain ts v where page: "(ts, v) \<in> set (pending_outputs n source b)" using assms by (metis list.set_intros(1) neq_Nil_conv surj_pair)
  then have "(ts, v) \<in> set (outbox source b)" unfolding pending_outputs_def outbox_def by (rule in_set_takeD)
  then have "((source, ts), v) \<in> set (db_pending (work b))" by (auto simp: outbox_def rows_of_def)
  moreover have "(source, ts) \<in> Pair source ` set (map fst (pending_outputs n source b))" using page by force
  ultimately show ?thesis
    unfolding outputs_sent_def commit_def edit_def fold_delete
    by (simp, intro length_filter_less [of "((source, ts), v)"]) simp_all
qed

termination drain_queue
  by (relation "measure (\<lambda>(w, topic, sid, source, b, s). length (db_pending (work b)))") (simp_all add: outputs_sent_shorter)

declare drain_queue.simps [simp del]

definition output_flush :: "output_world \<Rightarrow> signal_output \<Rightarrow> (output_error + unit) \<times> signal_output" where
  "output_flush w s =
     (case rt_buffer s of
        None \<Rightarrow> (Inr (), s)
      | Some b \<Rightarrow>
          (case bound_source s of
             Inl e \<Rightarrow> (Inl e, s)
           | Inr source \<Rightarrow>
               if pending_outputs OUTPUT_PAGE source b = [] then (Inr (), s\<lparr>so_maybe_queued := False\<rparr>)
               else (case find_binding w s of
                       (Inl e, s) \<Rightarrow> (Inl e, s)
                     | (Inr None, s) \<Rightarrow> (Inr (), s)
                     | (Inr (Some (topic, sid)), s) \<Rightarrow>
                         drain_queue w topic sid source b (s\<lparr>so_binding := Some (topic, sid)\<rparr>))))"

definition output_publish :: "output_world \<Rightarrow> real \<Rightarrow> json \<Rightarrow> signal_output \<Rightarrow> (output_error + unit) \<times> signal_output" where
  "output_publish w ts v s =
     (case find_binding w s of
        (Inl e, s) \<Rightarrow>
          if e = LookupRaised TooManyRequests
          then (case queue_sample ts v s of (Inl e', s) \<Rightarrow> (Inl e', s) | (Inr _, s) \<Rightarrow> (Inl e, s))
          else (Inl e, s)
      | (Inr None, s) \<Rightarrow>
          (case (bound_tag s, ow_index w (rt_calls s)) of
             (Inl e, _) \<Rightarrow> (Inl e, s)
           | (Inr tag, Inl e) \<Rightarrow> (Inl (LookupRaised e), s\<lparr>rt_calls := rt_calls s + 1\<rparr>)
           | (Inr tag, Inr ix) \<Rightarrow>
               let s = s\<lparr>rt_calls := rt_calls s + 1\<rparr>
               in if output_disabled ix (JStr tag) then (Inr (), s\<lparr>rt_log := rt_log s @ [Disabled ts v]\<rparr>)
                  else queue_sample ts v s)
      | (Inr (Some (topic, sid)), s) \<Rightarrow>
          let s = s\<lparr>so_binding := Some (topic, sid)\<rparr>
          in (case (if so_maybe_queued s then output_flush w s else (Inr (), s)) of
                (Inl e, s) \<Rightarrow> (Inl e, s)
              | (Inr _, s) \<Rightarrow>
                  let n = rt_calls s; s = s\<lparr>rt_calls := n + 1\<rparr>
                  in if ow_send w n
                     then (Inr (), s\<lparr>rt_log := rt_log s @ [Handed topic \<lparr>me_value = v, me_timestamp = ts, me_signal = sid\<rparr>]\<rparr>)
                     else (Inl SendRaised, s)))"

section \<open>What the log says\<close>

text \<open>The samples queued and not drained yet, by timestamp: a later one of the same timestamp replaces the queued one.\<close>

fun after_event :: "output_event \<Rightarrow> (real \<Rightarrow> json option) \<Rightarrow> real \<Rightarrow> json option" where
  "after_event (Queued ts v) m = m(ts \<mapsto> v)"
| "after_event (Drained topic me) m = m(me_timestamp me := None)"
| "after_event _ m = m"

definition outstanding :: "output_event list \<Rightarrow> real \<Rightarrow> json option" where
  "outstanding es = fold after_event es Map.empty"

text \<open>A sample is drained as it was last queued and none older is outstanding; one is handed on directly only when
  nothing is outstanding.\<close>

fun event_ok :: "(real \<Rightarrow> json option) \<Rightarrow> output_event \<Rightarrow> bool" where
  "event_ok m (Handed topic me) = (m = Map.empty)"
| "event_ok m (Drained topic me) = (m (me_timestamp me) = Some (me_value me) \<and> (\<forall>ts \<in> dom m. me_timestamp me \<le> ts))"
| "event_ok m _ = True"

fun events_ok :: "(real \<Rightarrow> json option) \<Rightarrow> output_event list \<Rightarrow> bool" where
  "events_ok m [] = True"
| "events_ok m (e # es) = (event_ok m e \<and> events_ok (after_event e m) es)"

lemma events_ok_append: "events_ok m (xs @ ys) \<longleftrightarrow> events_ok m xs \<and> events_ok (fold after_event xs m) ys"
  by (induction xs arbitrary: m) auto

lemma outstanding_append: "outstanding (xs @ ys) = fold after_event ys (outstanding xs)"
  by (simp add: outstanding_def)

lemma outstanding_snoc [simp]: "outstanding (xs @ [e]) = after_event e (outstanding xs)"
  by (simp add: outstanding_def)

lemma events_ok_snoc [simp]: "events_ok Map.empty (xs @ [e]) \<longleftrightarrow> events_ok Map.empty xs \<and> event_ok (outstanding xs) e"
  by (simp add: events_ok_append outstanding_def)

definition drained_event :: "string \<Rightarrow> json \<Rightarrow> real \<times> json \<Rightarrow> output_event" where
  "drained_event topic sid p = Drained topic \<lparr>me_value = snd p, me_timestamp = fst p, me_signal = sid\<rparr>"

lemma drained_pages:
  assumes "distinct (map fst (xs @ ys))" "sorted (map fst (xs @ ys))"
  shows "events_ok (map_of (xs @ ys)) (map (drained_event topic sid) xs)
     \<and> fold after_event (map (drained_event topic sid) xs) (map_of (xs @ ys)) = map_of ys"
  using assms
proof (induction xs)
  case (Cons x xs)
  obtain t v where x: "x = (t, v)" by force
  define zs where "zs = xs @ ys"
  have zs: "(x # xs) @ ys = (t, v) # zs" by (simp add: zs_def x)
  have p: "t \<notin> set (map fst zs)" "distinct (map fst zs)" "sorted (map fst zs)" "\<forall>u \<in> set (map fst zs). t \<le> u"
    using Cons.prems unfolding zs by (auto simp: image_iff)
  have "map_of zs t = None" using p(1) by (simp add: map_of_eq_None_iff)
  then have del: "(map_of ((t, v) # zs))(t := None) = map_of zs" by (auto simp: fun_eq_iff)
  have "fst ` set zs = dom (map_of zs)" by (simp add: dom_map_of_conv_image_fst)
  then have le: "\<forall>u \<in> dom (map_of ((t, v) # zs)). t \<le> u" using p(4) by auto
  have ih: "events_ok (map_of zs) (map (drained_event topic sid) xs) \<and> fold after_event (map (drained_event topic sid) xs) (map_of zs) = map_of ys"
    using Cons.IH p(2,3) unfolding zs_def by blast
  have "event_ok (map_of ((t, v) # zs)) (drained_event topic sid (t, v))" using le by (simp add: drained_event_def)
  moreover have "after_event (drained_event topic sid (t, v)) (map_of ((t, v) # zs)) = map_of zs" using del by (simp add: drained_event_def)
  ultimately show ?case using ih unfolding zs by (simp add: x del: map_of.simps)
qed simp

section \<open>What every operation keeps\<close>

lemma map_of_outbox:
  assumes "outbox_ok b" shows "map_of (outbox source b) ts = map_of (db_pending (work b)) (source, ts)"
proof -
  have "map_of (outbox source b) ts = Some v \<longleftrightarrow> map_of (db_pending (work b)) (source, ts) = Some v" for v
  proof -
    have "map_of (outbox source b) ts = Some v \<longleftrightarrow> (ts, v) \<in> set (outbox source b)"
      by (rule map_of_eq_Some_iff [OF distinct_outbox [OF assms]])
    also have "\<dots> \<longleftrightarrow> ((source, ts), v) \<in> set (db_pending (work b))" by (auto simp: outbox_def rows_of_def image_iff)
    also have "\<dots> \<longleftrightarrow> map_of (db_pending (work b)) (source, ts) = Some v"
      using map_of_eq_Some_iff [of "db_pending (work b)" "(source, ts)" v] assms by (simp add: outbox_ok_def)
    finally show ?thesis .
  qed
  then show ?thesis by (metis not_Some_eq)
qed

lemma sorted_outbox: "sorted (map fst (outbox source b))"
  by (simp add: outbox_def)

definition queue_inv_at :: "string \<Rightarrow> buffer \<Rightarrow> signal_output \<Rightarrow> bool" where
  "queue_inv_at source b s \<longleftrightarrow> so_source s = Some source \<and> outbox_ok b \<and> dict_ok (db_pending (disk b))
     \<and> rows_of source (db_pending (disk b)) = rows_of source (db_pending (work b))
     \<and> map_of (outbox source b) = outstanding (rt_log s) \<and> events_ok Map.empty (rt_log s)"

definition queue_inv :: "string \<Rightarrow> signal_output \<Rightarrow> bool" where
  "queue_inv source s \<longleftrightarrow> (\<exists>b. rt_buffer s = Some b \<and> queue_inv_at source b s \<and> (\<not> so_maybe_queued s \<longrightarrow> outbox source b = []))"

lemma outbox_cong: "rows_of source (db_pending (work b)) = rows_of source (db_pending (work b')) \<Longrightarrow> outbox source b = outbox source b'"
  by (simp add: outbox_def)

lemma queue_sample_inv:
  assumes "queue_inv source s" "queue_sample ts v s = (r, s')"
  shows "queue_inv source s' \<and> (r = Inr () \<longrightarrow> rt_log s' = rt_log s @ [Queued ts v])"
proof -
  obtain b where b: "rt_buffer s = Some b" and i: "queue_inv_at source b s" and m: "\<not> so_maybe_queued s \<longrightarrow> outbox source b = []"
    using assms(1) unfolding queue_inv_def by blast
  have src: "bound_source s = Inr source" using i by (simp add: queue_inv_at_def bound_source_def)
  obtain q b' where q: "queue_output OUTPUT_LIMIT source ts v b = (q, b')" by force
  consider "q = Inl ValueError" "b' = b" | "q = Inl BufferFull" "b' = rollback b"
    | "q = Inr ()" "b' = commit (edit (\<lambda>d. d\<lparr>db_pending := AList.update (source, ts) v (db_pending d)\<rparr>) b)"
    using q by (auto simp: queue_output_def split: if_splits)
  then show ?thesis
  proof cases
    case 1
    then show ?thesis using assms(2) b src q i m by (auto simp: queue_sample_def queue_inv_def queue_inv_at_def)
  next
    case 2
    have "outbox source b' = outbox source b"
      by (rule outbox_cong) (use i 2 in \<open>simp add: queue_inv_at_def rollback_def\<close>)
    then have "queue_inv_at source b' s" using i 2 by (simp add: queue_inv_at_def outbox_ok_def rollback_def)
    then show ?thesis using assms(2) b src q m 2(1) \<open>outbox source b' = outbox source b\<close>
      by (auto simp: queue_sample_def queue_inv_def queue_inv_at_def)
  next
    case 3
    have ok: "outbox_ok b'" using i by (simp add: 3 queue_inv_at_def outbox_ok_def commit_def edit_def dict_ok_update)
    have "outbox_ok b" using i by (simp add: queue_inv_at_def)
    then have "map_of (outbox source b') t = ((map_of (outbox source b))(ts \<mapsto> v)) t" for t
      by (simp add: map_of_outbox ok) (simp add: 3 commit_def edit_def)
    then have "map_of (outbox source b') = outstanding (rt_log s @ [Queued ts v])"
      using i by (auto simp: queue_inv_at_def)
    then have "queue_inv_at source b' (s\<lparr>rt_buffer := Some b', so_maybe_queued := True, rt_log := rt_log s @ [Queued ts v]\<rparr>)"
      using i ok by (simp add: queue_inv_at_def) (simp add: 3 commit_def edit_def outbox_ok_def)
    then show ?thesis using assms(2) b src q 3(1) by (auto simp: queue_sample_def queue_inv_def)
  qed
qed

lemma drained_page_inv:
  assumes i: "queue_inv_at source b s" and page: "page = pending_outputs n source b"
    and s': "so_source s' = so_source s" "rt_log s' = rt_log s @ map (drained_event topic sid) page"
  shows "queue_inv_at source (outputs_sent source (map fst page) b) s'"
proof -
  let ?b = "outputs_sent source (map fst page) b"
  have ok: "outbox_ok b" using i by (simp add: queue_inv_at_def)
  have split: "outbox source b = page @ outbox source ?b" using outbox.page_and_rest [OF ok] unfolding page .
  have d: "distinct (map fst (page @ outbox source ?b))" "sorted (map fst (page @ outbox source ?b))"
    using distinct_outbox [OF ok, of source] sorted_outbox [of source b] unfolding split [symmetric] by blast+
  have e: "events_ok (map_of (outbox source b)) (map (drained_event topic sid) page)"
    "fold after_event (map (drained_event topic sid) page) (map_of (outbox source b)) = map_of (outbox source ?b)"
    using drained_pages [OF d, of topic sid] unfolding split [symmetric] by blast+
  have "outbox_ok ?b" by (rule outbox.good_sent [OF ok])
  moreover have "map_of (outbox source b) = outstanding (rt_log s)" "events_ok Map.empty (rt_log s)" using i by (simp_all add: queue_inv_at_def)
  ultimately show ?thesis using i e
    by (simp add: queue_inv_at_def s' events_ok_append outstanding_append flip: outstanding_def)
      (simp add: outputs_sent_def commit_def edit_def outbox_ok_def)
qed

lemma drain_queue_inv:
  assumes "queue_inv_at source b s" "drain_queue w topic sid source b s = (r, s')" "so_maybe_queued s"
  shows "queue_inv source s' \<and> (r = Inr () \<longrightarrow> rt_buffer s' \<noteq> None \<and> outbox source (the (rt_buffer s')) = [])
     \<and> so_tag s' = so_tag s \<and> (\<exists>es. rt_log s' = rt_log s @ es)"
  using assms
proof (induction w topic sid source b s rule: drain_queue.induct)
  case (1 w topic sid source b s)
  let ?page = "pending_outputs OUTPUT_PAGE source b"
  have ok: "outbox_ok b" using "1.prems"(1) by (simp add: queue_inv_at_def)
  show ?case
  proof (cases "?page = []")
    case True
    then have "outbox source b = []" using outbox.page_empty_iff [OF ok, of OUTPUT_PAGE source] by (simp add: OUTPUT_PAGE_def)
    then show ?thesis using "1.prems" True by (auto simp: drain_queue.simps [of w topic sid source b s] queue_inv_def queue_inv_at_def)
  next
    case False
    let ?b = "outputs_sent source (map fst ?page) b"
    let ?s = "s\<lparr>rt_calls := rt_calls s + 1,
                   rt_log := rt_log s @ map (\<lambda>(ts, v). Drained topic \<lparr>me_value = v, me_timestamp = ts, me_signal = sid\<rparr>) ?page\<rparr>"
    have log: "rt_log ?s = rt_log s @ map (drained_event topic sid) ?page" by (simp add: drained_event_def case_prod_unfold)
    show ?thesis
    proof (cases "ow_page w (rt_calls s)")
      case True
      have st: "drain_queue w topic sid source ?b ?s = (r, s')"
        using "1.prems"(2) False True by (simp add: drain_queue.simps [of w topic sid source b s] Let_def)
      have "queue_inv_at source ?b ?s" by (rule drained_page_inv [OF "1.prems"(1) refl _ log]) simp
      then have "queue_inv source s' \<and> (r = Inr () \<longrightarrow> rt_buffer s' \<noteq> None \<and> outbox source (the (rt_buffer s')) = [])
         \<and> so_tag s' = so_tag ?s \<and> (\<exists>es. rt_log s' = rt_log ?s @ es)"
        using "1.IH" [OF refl False True _ st] "1.prems"(3) by simp
      then show ?thesis by auto
    next
      case nopage: False
      then show ?thesis using "1.prems" False
        by (auto simp: drain_queue.simps [of w topic sid source b s] queue_inv_def queue_inv_at_def)
    qed
  qed
qed

lemma find_binding_inv:
  assumes "find_binding w s = (r, s')"
  shows "s' = s\<lparr>rt_calls := rt_calls s'\<rparr>"
  using assms by (auto simp: find_binding_def split: option.splits sum.splits)

lemma queue_inv_cong:
  assumes "queue_inv source s" "rt_buffer s' = rt_buffer s" "so_source s' = so_source s" "rt_log s' = rt_log s"
    "so_maybe_queued s' = so_maybe_queued s"
  shows "queue_inv source s'"
  using assms by (simp add: queue_inv_def queue_inv_at_def)

lemma queue_inv_log:
  assumes "queue_inv source s" "event_ok (outstanding (rt_log s)) e" "after_event e (outstanding (rt_log s)) = outstanding (rt_log s)"
  shows "queue_inv source (s\<lparr>rt_log := rt_log s @ [e]\<rparr>)"
  using assms by (auto simp: queue_inv_def queue_inv_at_def)

lemma output_flush_inv:
  assumes "queue_inv source s" "output_flush w s = (r, s')"
  shows "queue_inv source s' \<and> so_tag s' = so_tag s \<and> (so_binding s \<noteq> None \<and> r = Inr () \<longrightarrow> outstanding (rt_log s') = Map.empty)"
proof -
  obtain b where b: "rt_buffer s = Some b" and i: "queue_inv_at source b s" and m: "\<not> so_maybe_queued s \<longrightarrow> outbox source b = []"
    using assms(1) unfolding queue_inv_def by blast
  have src: "bound_source s = Inr source" and ok: "outbox_ok b" using i by (simp_all add: queue_inv_at_def bound_source_def)
  show ?thesis
  proof (cases "pending_outputs OUTPUT_PAGE source b = []")
    case True
    then have "outbox source b = []" using outbox.page_empty_iff [OF ok, of OUTPUT_PAGE source] by (simp add: OUTPUT_PAGE_def)
    moreover have "map_of (outbox source b) = outstanding (rt_log s)" using i by (simp add: queue_inv_at_def)
    ultimately show ?thesis using assms(2) True b i src by (auto simp: output_flush_def queue_inv_def queue_inv_at_def)
  next
    case False
    then have mq: "so_maybe_queued s" using m outbox.page_empty_iff [OF ok, of OUTPUT_PAGE source] by (auto simp: OUTPUT_PAGE_def)
    obtain q s1 where q: "find_binding w s = (q, s1)" by force
    note s1 = find_binding_inv [OF q]
    have i1: "queue_inv source s1" by (rule queue_inv_cong [OF assms(1)]) (subst s1, simp)+
    consider e where "q = Inl e" | "q = Inr None" | topic sid where "q = Inr (Some (topic, sid))"
      by (cases q; cases "projr q") auto
    then show ?thesis
    proof cases
      case 1
      then have "r = Inl e" "s' = s1" using assms(2) False b src q by (auto simp: output_flush_def)
      then show ?thesis using i1 by (simp, subst s1, simp)
    next
      case 2
      then have "so_binding s = None" using q by (auto simp: find_binding_def split: option.splits)
      moreover have "s' = s1" using 2 assms(2) False b src q by (auto simp: output_flush_def)
      ultimately show ?thesis using i1 by (simp, subst s1, simp)
    next
      case 3
      have d: "drain_queue w topic sid source b (s1\<lparr>so_binding := Some (topic, sid)\<rparr>) = (r, s')"
        using 3 assms(2) False b src q by (auto simp: output_flush_def)
      have "queue_inv_at source b (s1\<lparr>so_binding := Some (topic, sid)\<rparr>)" using i by (subst s1) (simp add: queue_inv_at_def)
      moreover have "so_maybe_queued (s1\<lparr>so_binding := Some (topic, sid)\<rparr>)" "so_tag s1 = so_tag s" using mq by (subst s1, simp)+
      ultimately have z: "queue_inv source s'" "r = Inr () \<longrightarrow> rt_buffer s' \<noteq> None \<and> outbox source (the (rt_buffer s')) = []"
        "so_tag s' = so_tag s" using drain_queue_inv [OF _ d] by simp_all
      have "outstanding (rt_log s') = Map.empty" if "r = Inr ()"
      proof -
        obtain b' where "rt_buffer s' = Some b'" "map_of (outbox source b') = outstanding (rt_log s')"
          using z(1) unfolding queue_inv_def queue_inv_at_def by blast
        then show ?thesis using z(2) that by simp
      qed
      then show ?thesis using z by blast
    qed
  qed
qed

lemma queue_inv_empty: "queue_inv source s \<Longrightarrow> \<not> so_maybe_queued s \<Longrightarrow> outstanding (rt_log s) = Map.empty"
  unfolding queue_inv_def queue_inv_at_def by fastforce

lemma output_publish_inv:
  assumes "queue_inv source s" "output_publish w ts v s = (r, s')"
  shows "queue_inv source s' \<and> so_tag s' = so_tag s \<and> (r = Inr () \<longrightarrow>
     (\<exists>es e. rt_log s' = es @ [e] \<and> (e = Queued ts v \<or> e = Disabled ts v
        \<or> (\<exists>topic sid. e = Handed topic \<lparr>me_value = v, me_timestamp = ts, me_signal = sid\<rparr>))))"
proof -
  obtain q s1 where q: "find_binding w s = (q, s1)" by force
  note s1 = find_binding_inv [OF q]
  have i1: "queue_inv source s1" by (rule queue_inv_cong [OF assms(1)]) (subst s1, simp)+
  have t1: "so_tag s1 = so_tag s" by (subst s1) simp
  have tag: "so_tag s'' = so_tag s0" if "queue_sample ts v s0 = (r0, s'')" for r0 s0 s''
    using that by (auto simp: queue_sample_def split: option.splits sum.splits prod.splits)
  consider e where "q = Inl e" | "q = Inr None" | topic sid where "q = Inr (Some (topic, sid))"
    by (cases q; cases "projr q") auto
  then show ?thesis
  proof cases
    case 1
    obtain r2 s2 where z: "queue_sample ts v s1 = (r2, s2)" by force
    have "s' = s1 \<or> s' = s2" "r \<noteq> Inr ()"
      using assms(2) 1 q z by (auto simp: output_publish_def split: sum.splits if_splits)
    then show ?thesis using i1 t1 tag [OF z] queue_sample_inv [OF i1 z] by auto
  next
    case 2
    let ?s = "s1\<lparr>rt_calls := rt_calls s1 + 1\<rparr>"
    have i2: "queue_inv source ?s" by (rule queue_inv_cong [OF i1]) simp_all
    obtain r2 s2 where z: "queue_sample ts v ?s = (r2, s2)" by force
    consider e where "r = Inl e" "s' = s1" | e where "r = Inl e" "s' = ?s" | "r = Inr ()" "s' = ?s\<lparr>rt_log := rt_log ?s @ [Disabled ts v]\<rparr>"
      | "r = r2" "s' = s2"
      using assms(2) 2 q z by (auto simp: output_publish_def Let_def split: sum.splits if_splits)
    then show ?thesis
    proof cases
      case 3
      have "queue_inv source s'" unfolding 3 by (rule queue_inv_log [OF i2]) simp_all
      then show ?thesis using 3 t1 by simp
    next
      case 4
      then show ?thesis using queue_sample_inv [OF i2 z] tag [OF z] t1 by auto
    qed (use i1 i2 t1 in simp_all)
  next
    case 3
    let ?s = "s1\<lparr>so_binding := Some (topic, sid)\<rparr>"
    have i2: "queue_inv source ?s" by (rule queue_inv_cong [OF i1]) simp_all
    obtain r3 s3 where z: "(if so_maybe_queued ?s then output_flush w ?s else (Inr (), ?s)) = (r3, s3)" by force
    have i3: "queue_inv source s3" "so_tag s3 = so_tag s" "r3 = Inr () \<longrightarrow> outstanding (rt_log s3) = Map.empty"
      using z output_flush_inv [OF i2, of w r3 s3] i2 t1 queue_inv_empty [OF i2] by (auto split: if_splits)
    let ?s4 = "s3\<lparr>rt_calls := rt_calls s3 + 1\<rparr>" and ?e = "Handed topic \<lparr>me_value = v, me_timestamp = ts, me_signal = sid\<rparr>"
    have i4: "queue_inv source ?s4" by (rule queue_inv_cong [OF i3(1)]) simp_all
    consider e where "r = Inl e" "s' = s3" | "r = Inl SendRaised" "s' = ?s4" | "r3 = Inr ()" "r = Inr ()" "s' = ?s4\<lparr>rt_log := rt_log ?s4 @ [?e]\<rparr>"
      using assms(2) 3 q z by (auto simp: output_publish_def Let_def split: sum.splits if_splits)
    then show ?thesis
    proof cases
      case 3
      have "queue_inv source s'" unfolding 3(3) by (rule queue_inv_log [OF i4]) (use i3(3) 3(1) in simp_all)
      then show ?thesis using 3 i3(2) by auto
    qed (use i3 i4 in simp_all)
  qed
qed

section \<open>Histories\<close>

text \<open>What happens to an output. \<open>restarted\<close>: the process dies; the new one opens the same file and binds the output
  again. \<open>elsewhere\<close>: others use the buffer and leave the rows of this output.\<close>

inductive output_life :: "output_world \<Rightarrow> string \<Rightarrow> string \<Rightarrow> signal_output \<Rightarrow> bool" for w source tag where
  bound: "rows_of source (db_pending (work b)) = [] \<Longrightarrow> rows_of source (db_pending (disk b)) = []
    \<Longrightarrow> dict_ok (db_pending (work b)) \<Longrightarrow> dict_ok (db_pending (disk b))
    \<Longrightarrow> output_life w source tag (output_bind source tag (mk_signal_output (Some b)))"
| published: "output_life w source tag s \<Longrightarrow> output_publish w ts v s = (r, s') \<Longrightarrow> output_life w source tag s'"
| flushed: "output_life w source tag s \<Longrightarrow> output_flush w s = (r, s') \<Longrightarrow> output_life w source tag s'"
| forgot: "output_life w source tag s \<Longrightarrow> output_life w source tag (output_forget s)"
| elsewhere: "output_life w source tag s \<Longrightarrow> rt_buffer s = Some b \<Longrightarrow>
    dict_ok (db_pending (work b')) \<Longrightarrow> dict_ok (db_pending (disk b')) \<Longrightarrow>
    rows_of source (db_pending (work b')) = rows_of source (db_pending (work b)) \<Longrightarrow>
    rows_of source (db_pending (disk b')) = rows_of source (db_pending (disk b)) \<Longrightarrow>
    output_life w source tag (s\<lparr>rt_buffer := Some b'\<rparr>)"
| restarted: "output_life w source tag s \<Longrightarrow> rt_buffer s = Some b \<Longrightarrow>
    output_life w source tag ((output_bind source tag (mk_signal_output (Some (crash b))))\<lparr>rt_calls := rt_calls s, rt_log := rt_log s\<rparr>)"

lemma output_life_inv: "output_life w source tag s \<Longrightarrow> queue_inv source s"
proof (induction rule: output_life.induct)
  case (bound b)
  then show ?case
    by (simp add: queue_inv_def queue_inv_at_def output_bind_def mk_signal_output_def outbox_ok_def outbox_def outstanding_def)
next
  case (published s ts v r s')
  then show ?case using output_publish_inv by blast
next
  case (flushed s r s')
  then show ?case using output_flush_inv by blast
next
  case (forgot s)
  then show ?case by (simp add: queue_inv_def queue_inv_at_def output_forget_def)
next
  case (elsewhere s b b')
  have "outbox source b' = outbox source b" by (rule outbox_cong) (rule elsewhere)
  then show ?case using elsewhere by (auto simp: queue_inv_def queue_inv_at_def outbox_ok_def)
next
  case (restarted s b)
  then have i: "queue_inv_at source b s" by (auto simp: queue_inv_def)
  have "outbox source (crash b) = outbox source b"
    by (rule outbox_cong) (use i in \<open>simp add: queue_inv_at_def crash_def\<close>)
  then show ?case using i by (auto simp: queue_inv_def queue_inv_at_def output_bind_def mk_signal_output_def crash_def outbox_ok_def)
qed

text \<open>A full queue raises inside the page's transaction and rolls it back: a point appended before in the same page is gone
  when the page ends, although only the records from the failed one on are delivered again.\<close>

lemma full_queue_rolls_page_back:
  assumes "limit \<le> length (rows_of source (db_pending (work b)))" "map_of (db_pending (work b)) (source, ts) = None" "\<not> has_non_finite v"
    and "map_of (db_points (disk b)) (sid, t) = None"
  shows "\<exists>b'. queue_output limit source ts v (append sid t x (enter_one_commit b)) = (Inl BufferFull, b')
     \<and> map_of (db_points (work (append sid t x (enter_one_commit b)))) (sid, t) = Some x
     \<and> map_of (db_points (disk (leave_one_commit b'))) (sid, t) = None"
  using assms by (simp add: queue_output_def append_def enter_one_commit_def leave_one_commit_def settle_def edit_def rollback_def commit_def)

text \<open>C32: An output loses nothing and its queue is never overtaken. Whatever lookups, sends, pages, crashes and
  other uses of the buffer there were: what was queued and not drained is on disk, with the value queued last; every sample
  was drained oldest first, and none was handed on while one was outstanding; an output that believes its queue empty is right.
  A publish that returns has queued its sample, or handed it on, or the operator has disabled the signal.\<close>

theorem output_keeps_its_queue:
  assumes "output_life w source tag s"
  shows "events_ok Map.empty (rt_log s)
     \<and> (\<exists>b. rt_buffer s = Some b \<and> (\<forall>ts. map_of (db_pending (disk b)) (source, ts) = outstanding (rt_log s) ts)
          \<and> (\<not> so_maybe_queued s \<longrightarrow> pending_outputs OUTPUT_PAGE source b = []))
     \<and> (\<forall>ts v s'. output_publish w ts v s = (Inr (), s') \<longrightarrow>
          (\<exists>es e. rt_log s' = es @ [e] \<and> (e = Queued ts v \<or> e = Disabled ts v
             \<or> (\<exists>topic sid. e = Handed topic \<lparr>me_value = v, me_timestamp = ts, me_signal = sid\<rparr>))))"
proof -
  have inv: "queue_inv source s" by (rule output_life_inv [OF assms])
  then obtain b where b: "rt_buffer s = Some b" "queue_inv_at source b s" "\<not> so_maybe_queued s \<longrightarrow> outbox source b = []"
    unfolding queue_inv_def by blast
  let ?c = "crash b"
  have same: "outbox source ?c = outbox source b"
    by (rule outbox_cong) (use b(2) in \<open>simp add: queue_inv_at_def crash_def\<close>)
  have "outbox_ok ?c" using b(2) by (simp add: queue_inv_at_def outbox_ok_def crash_def)
  then have "map_of (db_pending (disk b)) (source, ts) = outstanding (rt_log s) ts" for ts
    using map_of_outbox [of ?c source ts] b(2) unfolding same by (simp add: crash_def queue_inv_at_def)
  moreover have "\<not> so_maybe_queued s \<longrightarrow> pending_outputs OUTPUT_PAGE source b = []"
    using b(3) by (simp add: pending_outputs_def outbox_def)
  ultimately show ?thesis using b output_publish_inv [OF inv] by (auto simp: queue_inv_at_def)
qed

definition example_output_world :: output_world where
  "example_output_world = \<lparr>ow_index = (\<lambda>n. if n = 0 then Inl TooManyRequests else Inr empty_index), ow_send = (\<lambda>n. True), ow_late = (\<lambda>n. False), ow_page = (\<lambda>n. True)\<rparr>"

definition example_output :: signal_output where
  "example_output = output_bind ''p.out'' ''tag'' (mk_signal_output (Some \<lparr>work = empty_db, disk = empty_db, deferred = 0\<rparr>))"

text \<open>A sample published while the node refuses lookups, and one published while no signal is bound.\<close>

theorem output_keeps_its_queue_witness:
  "\<exists>s b. snd (output_publish example_output_world 2 (JInt 6) (snd (output_publish example_output_world 1 (JInt 5) example_output))) = s
     \<and> rt_log s = [Queued 1 (JInt 5), Queued 2 (JInt 6)] \<and> rt_buffer s = Some b
     \<and> map_of (db_pending (disk b)) (''p.out'', 1) = Some (JInt 5) \<and> map_of (db_pending (disk b)) (''p.out'', 2) = Some (JInt 6)"
proof -
  let ?w = example_output_world
  obtain r1 s1 where p1: "output_publish ?w 1 (JInt 5) example_output = (r1, s1)" by force
  obtain r2 s2 where p2: "output_publish ?w 2 (JInt 6) s1 = (r2, s2)" by force
  have "output_life ?w ''p.out'' ''tag'' example_output"
    unfolding example_output_def by (rule output_life.bound) (simp_all add: empty_db_def rows_of_def)
  then have l: "output_life ?w ''p.out'' ''tag'' s2" using p1 p2 output_life.published by blast
  have e1: "rt_log s1 = [Queued 1 (JInt 5)]" "so_tag s1 = Some ''tag''" "so_source s1 = Some ''p.out''" "so_binding s1 = None" "rt_calls s1 = 1"
    "rt_buffer s1 = Some (commit (edit (\<lambda>d. d\<lparr>db_pending := [((''p.out'', 1), JInt 5)]\<rparr>) \<lparr>work = empty_db, disk = empty_db, deferred = 0\<rparr>))"
    using p1 by (simp_all add: example_output_def output_publish_def find_binding_def output_bind_def mk_signal_output_def bound_tag_def
        example_output_world_def queue_sample_def bound_source_def queue_output_def empty_db_def rows_of_def OUTPUT_LIMIT_def)
      auto
  have e2: "rt_log s2 = [Queued 1 (JInt 5), Queued 2 (JInt 6)]"
    using p2 by (simp add: e1 output_publish_def find_binding_def bound_tag_def example_output_world_def queue_sample_def bound_source_def
        queue_output_def empty_db_def rows_of_def OUTPUT_LIMIT_def resolve_output_binding_def output_disabled_def commit_def edit_def) auto
  obtain b where b: "rt_buffer s2 = Some b" "\<forall>ts. map_of (db_pending (disk b)) (''p.out'', ts) = outstanding (rt_log s2) ts"
    using output_keeps_its_queue [OF l] by blast
  have "outstanding (rt_log s2) 1 = Some (JInt 5)" "outstanding (rt_log s2) 2 = Some (JInt 6)" by (simp_all add: e2 outstanding_def)
  then show ?thesis using p1 p2 e2 b by auto
qed

end
