(* ===== verification/Chaski_Annotations.thy ===== *)
theory Chaski_Annotations
  imports Chaski_Outputs
begin

text \<open>
  \<open>AnnotationOutput\<close> of \<open>src/chaski/dataops/outputs.py\<close>, and the identities outputs are bound under: \<open>build_catalogue\<close> and
  \<open>bind_annotation_outputs\<close>. The producers of a service share its buffer and its runtime. \<open>derive_annotation_id\<close> is an
  argument; a topic is its node and its context.
\<close>

section \<open>Annotation outputs\<close>

record annotation =
  an_id :: string
  an_type :: json
  an_start :: real
  an_end :: "real option"
  an_value :: json
  an_signals :: "json list"
  an_source :: string
  an_element :: "json option"
  an_related :: "json list"
  an_deleted :: bool

record annotation_output =
  ao_name :: string
  ao_source :: "string option"
  ao_place :: "(string \<times> string list) option"
  ao_type :: "json option"

type_synonym ann_path = "string \<times> string list"

record ann_runtime =
  ar_buffer :: buffer
  ar_calls :: nat
  ar_sent :: "(ann_path \<times> annotation) list"

datatype ann_error = NotBoundYet | TypeNotFound | NotBelow "json list" | NoneNamed | IndexRaised lookup_error | SendFailed

definition mk_annotation_output :: "string \<Rightarrow> annotation_output" where
  "mk_annotation_output name = \<lparr>ao_name = name, ao_source = None, ao_place = None, ao_type = None\<rparr>"

definition ann_forget :: "annotation_output \<Rightarrow> annotation_output" where
  "ann_forget ao = ao\<lparr>ao_type := None\<rparr>"

definition ann_bind :: "string \<Rightarrow> string \<Rightarrow> string list \<Rightarrow> annotation_output \<Rightarrow> annotation_output" where
  "ann_bind source node prefix ao = ao\<lparr>ao_source := Some source, ao_place := Some (node, prefix)\<rparr>"

definition require_source :: "annotation_output \<Rightarrow> ann_error + string" where
  "require_source ao = (case ao_source ao of None \<Rightarrow> Inl NotBoundYet | Some s \<Rightarrow> Inr s)"

definition ann_index :: "output_world \<Rightarrow> ann_runtime \<Rightarrow> (ann_error + index) \<times> ann_runtime" where
  "ann_index w rt =
     ((case ow_index w (ar_calls rt) of Inl e \<Rightarrow> Inl (IndexRaised e) | Inr ix \<Rightarrow> Inr ix), rt\<lparr>ar_calls := ar_calls rt + 1\<rparr>)"

definition type_id :: "output_world \<Rightarrow> annotation_output \<Rightarrow> ann_runtime \<Rightarrow> (ann_error + json) \<times> annotation_output \<times> ann_runtime" where
  "type_id w ao rt =
     (case ao_type ao of
        Some t \<Rightarrow> (Inr t, ao, rt)
      | None \<Rightarrow>
          (case ann_index w rt of
             (Inl e, rt) \<Rightarrow> (Inl e, ao, rt)
           | (Inr ix, rt) \<Rightarrow>
               (case resolve_annotation_type ix (JStr (ao_name ao)) of
                  None \<Rightarrow> (Inl TypeNotFound, ao, rt)
                | Some t \<Rightarrow> (Inr t, ao\<lparr>ao_type := Some t\<rparr>, rt))))"

definition ann_topic :: "annotation_output \<Rightarrow> string \<Rightarrow> ann_error + ann_path" where
  "ann_topic ao aid = (case ao_place ao of None \<Rightarrow> Inl NotBoundYet | Some (node, prefix) \<Rightarrow> Inr (node, prefix @ [aid]))"

text \<open>\<open>runtime.send(self._topic(id), payload.encode())\<close>: one that raises may have handed the message over. \<open>ar_sent\<close>: what was
  handed over.\<close>

definition ann_send :: "output_world \<Rightarrow> annotation_output \<Rightarrow> annotation \<Rightarrow> ann_runtime \<Rightarrow> (ann_error + unit) \<times> ann_runtime" where
  "ann_send w ao a rt =
     (case ann_topic ao (an_id a) of
        Inl e \<Rightarrow> (Inl e, rt)
      | Inr t \<Rightarrow>
          if ow_send w (ar_calls rt) then (Inr (), rt\<lparr>ar_calls := ar_calls rt + 1, ar_sent := ar_sent rt @ [(t, a)]\<rparr>)
          else (Inl SendFailed, rt\<lparr>ar_calls := ar_calls rt + 1,
                                   ar_sent := ar_sent rt @ (if ow_late w (ar_calls rt) then [(t, a)] else [])\<rparr>))"

type_synonym derive_id = "json \<Rightarrow> string \<Rightarrow> real \<Rightarrow> json list \<Rightarrow> string"

text \<open>\<open>signals_outside_element\<close>, asked only for an element and signals.\<close>

definition outside_of :: "output_world \<Rightarrow> json option \<Rightarrow> json list \<Rightarrow> ann_runtime \<Rightarrow> (ann_error + unit) \<times> ann_runtime" where
  "outside_of w element signals rt =
     (case element of
        None \<Rightarrow> (Inr (), rt)
      | Some e \<Rightarrow>
          if signals = [] then (Inr (), rt)
          else (case ann_index w rt of
                  (Inl err, rt) \<Rightarrow> (Inl err, rt)
                | (Inr ix, rt) \<Rightarrow>
                    let outside = signals_outside_element ix e signals
                    in ((if outside = [] then Inr () else Inl (NotBelow outside)), rt)))"

definition write_interval :: "derive_id \<Rightarrow> output_world \<Rightarrow> real \<Rightarrow> real option \<Rightarrow> json \<Rightarrow> json list \<Rightarrow> string option \<Rightarrow> json option
    \<Rightarrow> json list \<Rightarrow> annotation_output \<Rightarrow> ann_runtime \<Rightarrow> (ann_error + string) \<times> annotation_output \<times> ann_runtime" where
  "write_interval derive w ts_start ts_end v signals aid element related ao rt =
     (case require_source ao of
        Inl e \<Rightarrow> (Inl e, ao, rt)
      | Inr source \<Rightarrow>
          (case type_id w ao rt of
             (Inl e, ao, rt) \<Rightarrow> (Inl e, ao, rt)
           | (Inr t, ao, rt) \<Rightarrow>
               (case outside_of w element signals rt of
                  (Inl e, rt) \<Rightarrow> (Inl e, ao, rt)
                | (Inr _, rt) \<Rightarrow>
                    let i = (case aid of Some i \<Rightarrow> i | None \<Rightarrow> derive t source ts_start signals);
                        a = \<lparr>an_id = i, an_type = t, an_start = ts_start, an_end = ts_end, an_value = v, an_signals = signals,
                             an_source = source, an_element = element, an_related = related, an_deleted = False\<rparr>
                    in (case ann_send w ao a rt of
                          (Inl e, rt) \<Rightarrow> (Inl e, ao, rt)
                        | (Inr _, rt) \<Rightarrow> (Inr i, ao, rt\<lparr>ar_buffer := record_emitted_annotation source i ts_start (ar_buffer rt)\<rparr>)))))"

definition marker :: "json \<Rightarrow> string \<Rightarrow> string \<Rightarrow> real \<Rightarrow> json list \<Rightarrow> annotation" where
  "marker t source i ts_start signals =
     \<lparr>an_id = i, an_type = t, an_start = ts_start, an_end = None, an_value = JNull, an_signals = signals,
      an_source = source, an_element = None, an_related = [], an_deleted = True\<rparr>"


text \<open>The markers of \<open>clear_window\<close>, one by one, up to a send that raises.\<close>

fun send_markers :: "output_world \<Rightarrow> annotation_output \<Rightarrow> annotation list \<Rightarrow> ann_runtime \<Rightarrow> (ann_error + unit) \<times> ann_runtime" where
  "send_markers w ao [] rt = (Inr (), rt)"
| "send_markers w ao (a # as) rt =
     (case ann_send w ao a rt of (Inl e, rt) \<Rightarrow> (Inl e, rt) | (Inr _, rt) \<Rightarrow> send_markers w ao as rt)"

definition clear_window :: "output_world \<Rightarrow> real \<Rightarrow> real \<Rightarrow> annotation_output \<Rightarrow> ann_runtime
    \<Rightarrow> (ann_error + nat) \<times> annotation_output \<times> ann_runtime" where
  "clear_window w start until ao rt =
     (case require_source ao of
        Inl e \<Rightarrow> (Inl e, ao, rt)
      | Inr source \<Rightarrow>
          (case type_id w ao rt of
             (Inl e, ao, rt) \<Rightarrow> (Inl e, ao, rt)
           | (Inr t, ao, rt) \<Rightarrow>
               let pairs = emitted_annotations_in_window source start until (ar_buffer rt)
               in (case send_markers w ao (map (\<lambda>(i, ts). marker t source i ts []) pairs) rt of
                     (Inl e, rt) \<Rightarrow> (Inl e, ao, rt)
                   | (Inr _, rt) \<Rightarrow> (Inr (length pairs), ao, rt))))"

section \<open>Identities\<close>

text \<open>A \<open>SignalOutput\<close> as a class declares it, with the source it is catalogued under.\<close>

record declared_output =
  do_source :: string
  do_name :: string
  do_type :: string
  do_description :: string
  do_element :: "string option"
  do_unit :: "string option"
  do_semantic :: "string option"

definition output_source :: "string \<Rightarrow> string \<Rightarrow> string" where
  "output_source producer attr = producer @ ''.'' @ attr"

definition catalogue_meta :: "declared_output \<Rightarrow> (string, json) dict" where
  "catalogue_meta d = tag_meta (do_element d) (do_unit d) (do_semantic d) (Some (do_description d))"

definition output_tag :: "declared_output \<Rightarrow> data_tag" where
  "output_tag d =
     \<lparr>dt_id = [], dt_name = do_name d, dt_source = do_source d, dt_writable = False, dt_readable = True,
      dt_type = JStr (do_type d), dt_stale = False, dt_meta = catalogue_meta d\<rparr>"

text \<open>\<open>build_catalogue\<close>: the bindings \<open>output_attr.bind(source, tag_id)\<close> in order, and the catalogue.\<close>

fun bind_sources :: "catalogue \<Rightarrow> declared_output list \<Rightarrow> (string \<times> string) list outcome" where
  "bind_sources c [] = Inr []"
| "bind_sources c (d # ds) =
     (case tag_id c (do_source d) of
        None \<Rightarrow> Inl RuntimeError
      | Some i \<Rightarrow> bind_outcome (bind_sources c ds) (\<lambda>bs. Inr ((do_source d, i) # bs)))"

definition build_catalogue :: "(string \<Rightarrow> string) \<Rightarrow> declared_output list \<Rightarrow> catalogue \<Rightarrow> (string \<times> string) list outcome \<times> catalogue" where
  "build_catalogue mint ds c =
     (let c = declare_tags mint (fold (\<lambda>d. AList.update (do_source d) (output_tag d)) ds []) c
      in (bind_sources c ds, c))"

text \<open>\<open>bind_annotation_outputs\<close>: the outputs of each producer by attribute.\<close>

definition mount_parts :: "string \<Rightarrow> string list" where
  "mount_parts mount = filter (\<lambda>p. p \<noteq> []) (split_on (CHR ''/'') mount)"

definition bind_annotation_outputs :: "string \<Rightarrow> string \<Rightarrow> (string \<times> (string \<times> annotation_output) list) list
    \<Rightarrow> (string \<times> (string \<times> annotation_output) list) list" where
  "bind_annotation_outputs node mount instances =
     map (\<lambda>(name, outs). (name, map (\<lambda>(attr, ao). (attr, ann_bind (''dataops/'' @ name) node (mount_parts mount @ [name, attr]) ao)) outs))
       instances"

section \<open>Tags of outputs\<close>

lemma dict_ok_fold_update: "dict_ok d \<Longrightarrow> dict_ok (fold (\<lambda>x. AList.update (f x) (g x)) xs d)"
  by (induction xs arbitrary: d) (simp_all add: dict_ok_update)

lemma map_of_fold_update:
  "map_of (fold (\<lambda>x. AList.update (f x) (g x)) xs d) k =
     (case filter (\<lambda>x. f x = k) xs of [] \<Rightarrow> map_of d k | ys \<Rightarrow> Some (g (last ys)))"
  by (induction xs arbitrary: d) (auto split: list.splits)

lemma bind_sources_all:
  "(\<And>d. d \<in> set ds \<Longrightarrow> tag_id c (do_source d) \<noteq> None) \<Longrightarrow>
   bind_sources c ds = Inr (map (\<lambda>d. (do_source d, the (tag_id c (do_source d)))) ds)"
  by (induction ds) (auto split: option.split)

text \<open>C35: Every declared output is bound to the tag of its source: the one the catalogue had, or a new one; the catalogue
  stays well formed and keeps the id of every source, and a source that is not declared any more is stale.\<close>

theorem outputs_keep_their_tags:
  assumes "catalogue_ok c" "inj_on mint (do_source ` set ds)"
    and "\<forall>d \<in> set ds. do_source d \<noteq> [] \<and> do_type d \<noteq> ''bool'' \<and> mint (do_source d) \<noteq> [] \<and> mint (do_source d) \<notin> ids_of c"
  shows "\<exists>bs c'. build_catalogue mint ds c = (Inr bs, c') \<and> map fst bs = map do_source ds
     \<and> (\<forall>(s, i) \<in> set bs. tag_id c' s = Some i \<and> (if tag_id c s = None then i = mint s else tag_id c s = Some i))
     \<and> catalogue_ok c' \<and> keeps_ids c c' \<and> ca_dirty c'
     \<and> (\<forall>s t. s \<notin> do_source ` set ds \<and> map_of (ca_tags c') s = Some t \<longrightarrow> dt_stale t)
     \<and> (\<forall>d \<in> set ds. (\<forall>e \<in> set ds. do_source e = do_source d \<longrightarrow> e = d) \<longrightarrow>
          (\<exists>t. map_of (ca_tags c') (do_source d) = Some t \<and> \<not> dt_stale t \<and> dt_name t = do_name d
             \<and> dt_type t = JStr (do_type d) \<and> dt_meta t = catalogue_meta d))"
proof -
  let ?tags = "fold (\<lambda>d. AList.update (do_source d) (output_tag d)) ds []"
  let ?c = "declare_tags mint ?tags c"
  have ok: "dict_ok ?tags" by (rule dict_ok_fold_update) simp
  have tag: "map_of ?tags s = (case filter (\<lambda>d. do_source d = s) ds of [] \<Rightarrow> None | ys \<Rightarrow> Some (output_tag (last ys)))" for s
    by (simp add: map_of_fold_update split: list.split)
  have found: "\<exists>e \<in> set ds. do_source e = s \<and> raw = output_tag e" if "map_of ?tags s = Some raw" for s raw
  proof -
    have ne: "filter (\<lambda>d. do_source d = s) ds \<noteq> []" using that by (auto simp: tag)
    then have "raw = output_tag (last (filter (\<lambda>d. do_source d = s) ds))" using that by (auto simp: tag split: list.splits)
    then show ?thesis using last_in_set [OF ne] by auto
  qed
  have there: "map_of ?tags (do_source d) \<noteq> None" if "d \<in> set ds" for d
    using that by (auto simp: tag filter_empty_conv split: list.split)
  have keys: "fst ` set ?tags \<subseteq> do_source ` set ds"
  proof
    fix s assume "s \<in> fst ` set ?tags"
    then have "map_of ?tags s \<noteq> None" by (simp add: map_of_eq_None_iff)
    then obtain raw where "map_of ?tags s = Some raw" by blast
    then show "s \<in> do_source ` set ds" using found by blast
  qed
  have op: "op_ok c (Discovers mint ?tags)"
  proof -
    have "s \<noteq> [] \<and> mint s \<noteq> [] \<and> mint s \<notin> ids_of c \<and> dt_type t \<noteq> JStr ''bool'' \<and> dict_ok (dt_meta t)" if "(s, t) \<in> set ?tags" for s t
    proof -
      have "map_of ?tags s = Some t" using that ok by (simp add: map_of_eq_Some_iff)
      then obtain e where "e \<in> set ds" "do_source e = s" "t = output_tag e" using found by blast
      then show ?thesis using assms(3) by (auto simp: output_tag_def catalogue_meta_def dict_ok_tag_meta)
    qed
    then show ?thesis using ok inj_on_subset [OF assms(2) keys] by auto
  qed
  note c' = declare_tags_ok [OF assms(1) op]
  have id: "tag_id ?c (do_source d) = Some (case tag_id c (do_source d) of Some i \<Rightarrow> i | None \<Rightarrow> mint (do_source d))" if "d \<in> set ds" for d
    using there [OF that] by (auto simp: tag_id_def map_of_declare_tags found_tag_def split: option.split)
  have b: "build_catalogue mint ds c = (Inr (map (\<lambda>d. (do_source d, the (tag_id ?c (do_source d)))) ds), ?c)"
    using bind_sources_all [of ds ?c] id by (simp add: build_catalogue_def Let_def)
  have stale: "dt_stale t" if "s \<notin> do_source ` set ds" "map_of (ca_tags ?c) s = Some t" for s t
  proof -
    have "map_of ?tags s = None"
    proof (rule ccontr)
      assume "map_of ?tags s \<noteq> None"
      then obtain raw where "map_of ?tags s = Some raw" by blast
      then show False using found [of s raw] that(1) by auto
    qed
    then show ?thesis using that(2) by (auto simp: map_of_declare_tags gone_tag_def)
  qed
  have kept: "\<exists>t. map_of (ca_tags ?c) (do_source d) = Some t \<and> \<not> dt_stale t \<and> dt_name t = do_name d
             \<and> dt_type t = JStr (do_type d) \<and> dt_meta t = catalogue_meta d"
    if k: "d \<in> set ds" "\<forall>e \<in> set ds. do_source e = do_source d \<longrightarrow> e = d" for d
  proof -
    obtain raw where raw: "map_of ?tags (do_source d) = Some raw" using there [OF k(1)] by blast
    then have "raw = output_tag d" using found k(2) by blast
    then show ?thesis using raw by (simp add: map_of_declare_tags found_tag_def output_tag_def)
  qed
  let ?bs = "map (\<lambda>d. (do_source d, the (tag_id ?c (do_source d)))) ds"
  have bs: "\<forall>(s, i) \<in> set ?bs. tag_id ?c s = Some i \<and> (if tag_id c s = None then i = mint s else tag_id c s = Some i)"
  proof clarify
    fix s i assume "(s, i) \<in> set ?bs"
    then obtain d where d: "d \<in> set ds" "s = do_source d" "i = the (tag_id ?c (do_source d))" by auto
    then show "tag_id ?c s = Some i \<and> (if tag_id c s = None then i = mint s else tag_id c s = Some i)"
      using id [OF d(1)] by (cases "tag_id c s") simp_all
  qed
  have dirty: "ca_dirty ?c" by (simp add: declare_tags_def)
  have names: "map fst ?bs = map do_source ds" by simp
  show ?thesis
    by (intro exI [of _ ?bs] exI [of _ ?c] conjI b names bs dirty allI impI ballI) (use c' stale kept in blast)+
qed

theorem outputs_keep_their_tags_witness:
  "\<exists>bs c'. build_catalogue (\<lambda>s. ''id-'' @ s)
       [\<lparr>do_source = ''p.speed'', do_name = ''Speed'', do_type = ''float'', do_description = [], do_element = None, do_unit = Some ''m/s'', do_semantic = None\<rparr>]
       (mk_catalogue ''svc'' ''site'') = (Inr bs, c')
     \<and> bs = [(''p.speed'', ''id-p.speed'')] \<and> catalogue_ok c'"
proof -
  let ?d = "\<lparr>do_source = ''p.speed'', do_name = ''Speed'', do_type = ''float'', do_description = [], do_element = None, do_unit = Some ''m/s'', do_semantic = None\<rparr>"
  have e: "catalogue_ok (mk_catalogue ''svc'' ''site'')" "ids_of (mk_catalogue ''svc'' ''site'') = {}" "tag_id (mk_catalogue ''svc'' ''site'') s = None" for s
    by (simp_all add: catalogue_ok_def mk_catalogue_def ids_of_def tag_id_def)
  obtain bs c' where b: "build_catalogue (\<lambda>s. ''id-'' @ s) [?d] (mk_catalogue ''svc'' ''site'') = (Inr bs, c')" "map fst bs = [''p.speed'']"
    "\<forall>(s, i) \<in> set bs. i = ''id-'' @ s" "catalogue_ok c'"
    using outputs_keep_their_tags [of "mk_catalogue ''svc'' ''site''" "\<lambda>s. ''id-'' @ s" "[?d]"] e by (auto simp: case_prod_unfold)
  then have "bs = [(''p.speed'', ''id-p.speed'')]" by (cases bs) auto
  then show ?thesis using b by blast
qed

section \<open>What a write does\<close>










section \<open>What a window holds\<close>











section \<open>Examples\<close>

definition example_ann_world :: output_world where
  "example_ann_world =
     \<lparr>ow_index = (\<lambda>n. Inr (empty_index\<lparr>ix_types := [(JStr ''stop'', JStr ''T1''), (JStr ''run'', JStr ''T2'')]\<rparr>)),
      ow_send = (\<lambda>n. True), ow_late = (\<lambda>n. False), ow_page = (\<lambda>n. True)\<rparr>"

definition example_ids :: derive_id where
  "example_ids t source ts signals = (case t of JStr s \<Rightarrow> s | _ \<Rightarrow> []) @ source"

definition example_ann :: "string \<Rightarrow> annotation_output" where
  "example_ann name = ann_bind ''dataops/p'' ''n1'' [''p'', name] (mk_annotation_output name)"

definition example_ann_runtime :: ann_runtime where
  "example_ann_runtime = \<lparr>ar_buffer = \<lparr>work = empty_db, disk = empty_db, deferred = 0\<rparr>, ar_calls = 0, ar_sent = []\<rparr>"

definition example_written :: "(ann_error + string) \<times> annotation_output \<times> ann_runtime" where
  "example_written = write_interval example_ids example_ann_world 5 None JNull [] None None [] (example_ann ''stop'') example_ann_runtime"


lemma example_written_simps:
  "fst example_written = Inr ''T1dataops/p''"
  "ar_sent (snd (snd example_written)) = [((''n1'', [''p'', ''stop'', ''T1dataops/p'']),
     \<lparr>an_id = ''T1dataops/p'', an_type = JStr ''T1'', an_start = 5, an_end = None, an_value = JNull, an_signals = [],
      an_source = ''dataops/p'', an_element = None, an_related = [], an_deleted = False\<rparr>)]"
  "db_annotations (work (ar_buffer (snd (snd example_written)))) = [((''dataops/p'', ''T1dataops/p''), 5)]"
proof -
  show "fst example_written = Inr ''T1dataops/p''"
    "ar_sent (snd (snd example_written)) = [((''n1'', [''p'', ''stop'', ''T1dataops/p'']),
     \<lparr>an_id = ''T1dataops/p'', an_type = JStr ''T1'', an_start = 5, an_end = None, an_value = JNull, an_signals = [],
      an_source = ''dataops/p'', an_element = None, an_related = [], an_deleted = False\<rparr>)]"
    "db_annotations (work (ar_buffer (snd (snd example_written)))) = [((''dataops/p'', ''T1dataops/p''), 5)]"
    by (simp_all add: example_written_def example_ann_def example_ann_runtime_def example_ann_world_def mk_annotation_output_def ann_bind_def
        write_interval_def require_source_def type_id_def ann_index_def resolve_annotation_type_def outside_of_def example_ids_def ann_send_def ann_topic_def
        record_emitted_annotation_def settle_def commit_def edit_def empty_db_def replace_row_def Let_def)
qed

text \<open>The outputs of a producer are bound under one source, so the window of one clears what another wrote: here \<open>run\<close> marks the
  annotation of \<open>stop\<close>, under its own type and topic.\<close>

lemma clear_window_marks_sibling:
  "\<exists>rt m. clear_window example_ann_world 0 10 (example_ann ''run'') (snd (snd example_written)) = (Inr 1, (example_ann ''run'')\<lparr>ao_type := Some (JStr ''T2'')\<rparr>, rt)
     \<and> ar_sent rt = ar_sent (snd (snd example_written)) @ [((''n1'', [''p'', ''run'', ''T1dataops/p'']), m)]
     \<and> an_deleted m \<and> an_id m = ''T1dataops/p'' \<and> an_type m = JStr ''T2''"
  by (simp add: clear_window_def example_ann_def ann_bind_def mk_annotation_output_def require_source_def type_id_def ann_index_def
        example_ann_world_def resolve_annotation_type_def emitted_annotations_in_window_def rows_of_def example_written_simps(3)
        ann_send_def ann_topic_def Let_def marker_def)



end
