(* ===== verification/Chaski_Journal.thy ===== *)
theory Chaski_Journal
  imports Chaski_Pending Chaski_Failures "HOL-Library.Multiset"
begin

text \<open>
  The samples of a connector: \<open>is_equal\<close>, \<open>round_to_precision\<close>, \<open>refusal_is_final\<close> and the journal of
  \<open>ConnectorService\<close> (\<open>_publish_batch\<close>, \<open>_publish_pages\<close>, \<open>_set_aside\<close>) of \<open>src/chaski/connector.py\<close>, over the store of \<open>Chaski_Pending\<close>.
  What the node answers to a batch and what becomes of a finding are arguments. Numbers are exact; \<open>Decimal\<close> has
  its default precision of 28 digits.
\<close>

section \<open>Values\<close>

fun num_of :: "json \<Rightarrow> fl option" where
  "num_of (JBool b) = Some (Fin (if b then 1 else 0))"
| "num_of (JInt n) = Some (Fin (of_int n))"
| "num_of (JFloat f) = Some f"
| "num_of _ = None"

fun fl_eq :: "fl \<Rightarrow> fl \<Rightarrow> bool" where
  "fl_eq (Fin a) (Fin b) = (a = b)"
| "fl_eq PosInf PosInf = True"
| "fl_eq NegInf NegInf = True"
| "fl_eq _ _ = False"

text \<open>\<open>==\<close> on JSON values: numbers by value whatever their type, the keys of an object in any order.\<close>

fun py_eq :: "json \<Rightarrow> json \<Rightarrow> bool" where
  "py_eq (JList xs) b = (case b of JList ys \<Rightarrow> list_all2 py_eq xs ys | _ \<Rightarrow> False)"
| "py_eq (JObj xs) b =
     (case b of
        JObj ys \<Rightarrow> length xs = length ys \<and> (\<forall>x \<in> set xs. case map_of ys (fst x) of Some v \<Rightarrow> py_eq (snd x) v | None \<Rightarrow> False)
      | _ \<Rightarrow> False)"
| "py_eq (JStr s) b = (b = JStr s)"
| "py_eq JNull b = (b = JNull)"
| "py_eq a b = (case (num_of a, num_of b) of (Some x, Some y) \<Rightarrow> fl_eq x y | _ \<Rightarrow> False)"

definition step_of :: "int \<Rightarrow> real" where
  "step_of precision = 10 powi (- precision)"

definition is_equal :: "json \<Rightarrow> json \<Rightarrow> int option \<Rightarrow> bool" where
  "is_equal a b precision =
     (case (a, b) of
        (JFloat x, JFloat y) \<Rightarrow>
          if x = NaN \<and> y = NaN then True
          else if fl_eq x y \<or> precision = None then fl_eq x y
          else (case (x, y) of (Fin u, Fin v) \<Rightarrow> \<bar>u - v\<bar> < step_of (the precision) / 2 | _ \<Rightarrow> False)
      | _ \<Rightarrow> py_eq a b)"

text \<open>\<open>quantize\<close> raises when the coefficient has more than 28 digits; the value is then passed on as it is.\<close>

definition quantized :: "int \<Rightarrow> real \<Rightarrow> real option" where
  "quantized precision x =
     (let n = \<lfloor>\<bar>x\<bar> / step_of precision + 1 / 2\<rfloor>
      in if 10 ^ 28 \<le> n then None else Some (sgn x * (of_int n * step_of precision)))"

definition round_to_precision :: "int \<Rightarrow> json \<Rightarrow> json" where
  "round_to_precision precision v =
     (case num_of v of
        Some (Fin x) \<Rightarrow> (case quantized precision x of Some y \<Rightarrow> JFloat (Fin y) | None \<Rightarrow> v)
      | _ \<Rightarrow> v)"

section \<open>Refusals\<close>

text \<open>One result of \<open>POST /publish/batch\<close>: \<open>pr_offset = None\<close> when the key is absent.\<close>

record publish_result =
  pr_offset :: "int option option"
  pr_error :: "string option"
  pr_reason :: "string option"

definition FINAL_REFUSAL_REASONS :: "string list" where
  "FINAL_REFUSAL_REASONS = [''validation'', ''grammar'', ''node_id'', ''identity'', ''write_denied'', ''cmd_denied'',
     ''registry_contract'', ''human_write'', ''time_sync'', ''not_producer'', ''too_large'']"

definition given :: "string option \<Rightarrow> bool" where
  "given s = (case s of None \<Rightarrow> False | Some x \<Rightarrow> x \<noteq> [])"

definition refusal_is_final :: "publish_result \<Rightarrow> bool \<Rightarrow> bool" where
  "refusal_is_final r batch_admitted =
     (if (case pr_offset r of Some (Some n) \<Rightarrow> True | _ \<Rightarrow> False) \<or> \<not> given (pr_error r) then False
      else if given (pr_reason r) then the (pr_reason r) \<in> set FINAL_REFUSAL_REASONS
      else batch_admitted)"

definition admitted :: "publish_result \<Rightarrow> bool" where
  "admitted r \<longleftrightarrow> \<not> given (pr_error r) \<and> pr_offset r \<noteq> None"

definition refusal_reason :: "publish_result \<Rightarrow> string" where
  "refusal_reason r = (if given (pr_reason r) then the (pr_reason r) else ''refused'')"

section \<open>The journal\<close>

record spell =
  sp_refused :: nat
  sp_reason :: string

text \<open>\<open>jn_journal = None\<close>: there is no file yet. \<open>jn_findings\<close>: what was recorded in the finding, with key and reason.
  \<open>jn_taken\<close>, \<open>jn_admitted\<close> and \<open>jn_aside\<close> list the samples that entered the journal, that left it as admitted (with the node's
  result), and that left it as refused (with its result and whether another of the batch counted as admitted).\<close>

record journal =
  jn_journal :: "samples option"
  jn_spells :: "(string, spell) dict"
  jn_refused :: nat
  jn_deferred :: bool
  jn_calls :: nat
  jn_findings :: "(string \<times> string \<times> (string, json) dict) list"
  jn_taken :: "sample_row list"
  jn_admitted :: "(sample_row \<times> publish_result) list"
  jn_aside :: "(sample_row \<times> publish_result \<times> bool) list"

text \<open>\<open>FindingRefused\<close>: the node refuses the finding (\<open>PublishRejected\<close>).\<close>

datatype reject_fate = Recorded | LinkLost | FindingRefused | RejectFailed

record journal_world =
  jw_batch :: "nat \<Rightarrow> sample_row list \<Rightarrow> publish_result list option"
  jw_reject :: "nat \<Rightarrow> reject_fate"

definition mk_journal :: "samples option \<Rightarrow> journal" where
  "mk_journal rows = \<lparr>jn_journal = rows, jn_spells = [], jn_refused = 0, jn_deferred = False, jn_calls = 0, jn_findings = [],
     jn_taken = [], jn_admitted = [], jn_aside = []\<rparr>"

datatype publish_end =
    Published bool
  | HttpError
  | ReceiptMismatch
  | Undecided
  | MqttGone
  | RejectRaised
  | NotTaken py_error

definition jn_rows :: "journal \<Rightarrow> samples" where
  "jn_rows j = (case jn_journal j of None \<Rightarrow> [] | Some rows \<Rightarrow> rows)"

text \<open>\<open>_set_aside\<close>: \<open>Some e\<close> when it raises.\<close>

definition set_aside :: "journal_world \<Rightarrow> string \<Rightarrow> string \<Rightarrow> (string, json) dict \<Rightarrow> bool \<Rightarrow> journal \<Rightarrow> publish_end option \<times> journal" where
  "set_aside w key reason subject must_record j =
     (let counted = (\<lambda>n j. j\<lparr>jn_spells := AList.update key \<lparr>sp_refused = n + 1, sp_reason = reason\<rparr> (jn_spells j), jn_refused := jn_refused j + 1\<rparr>);
          fresh = (let n = jn_calls j; j = j\<lparr>jn_calls := n + 1\<rparr>
                   in case jw_reject w n of
                        Recorded \<Rightarrow> (None, counted 0 (j\<lparr>jn_findings := jn_findings j @ [(key, reason, subject)]\<rparr>))
                      | fate \<Rightarrow> if must_record then (Some (case fate of LinkLost \<Rightarrow> MqttGone | FindingRefused \<Rightarrow> Undecided | _ \<Rightarrow> RejectRaised), j)
                                else (None, j\<lparr>jn_refused := jn_refused j + 1\<rparr>))
      in case map_of (jn_spells j) key of
           None \<Rightarrow> fresh
         | Some sp \<Rightarrow> if sp_reason sp \<noteq> reason then fresh else (None, counted (sp_refused sp) j))"

definition spell_ended :: "string \<Rightarrow> journal \<Rightarrow> journal" where
  "spell_ended key j = j\<lparr>jn_spells := AList.delete key (jn_spells j)\<rparr>"

text \<open>\<open>payload.get("signal_id") or ""\<close>, and the key of a sample's spell.\<close>

definition signal_of :: "sample_row \<Rightarrow> string" where
  "signal_of r = (case sr_value r of JObj p \<Rightarrow> (case map_of p ''signal_id'' of Some (JStr s) \<Rightarrow> s | _ \<Rightarrow> []) | _ \<Rightarrow> [])"

definition spell_key :: "sample_row \<Rightarrow> string" where
  "spell_key r = (if signal_of r = [] then sr_source r else signal_of r)"

definition refusal_subject :: "sample_row \<Rightarrow> string \<Rightarrow> (string, json) dict" where
  "refusal_subject r reason =
     [(''signal_id'', JStr (signal_of r)), (''topic'', JStr (sr_source r)), (''timestamp'', JFloat (Fin (sr_ts r))), (''reason'', JStr reason)]"

definition retire :: "sample_row list \<Rightarrow> journal \<Rightarrow> journal" where
  "retire rows j = j\<lparr>jn_journal := map_option (ack_samples (map sr_id rows)) (jn_journal j)\<rparr>"

text \<open>The failed results of a page; \<open>undecided\<close>: whether one so far was no verdict.\<close>

fun retire_failed :: "journal_world \<Rightarrow> bool \<Rightarrow> (sample_row \<times> publish_result) list \<Rightarrow> bool \<Rightarrow> journal \<Rightarrow> publish_end option \<times> journal" where
  "retire_failed w batch_admitted [] undecided j = ((if undecided then Some Undecided else None), j)"
| "retire_failed w batch_admitted ((row, result) # failed) undecided j =
     (if \<not> refusal_is_final result batch_admitted then retire_failed w batch_admitted failed True j
      else let reason = refusal_reason result
           in (case set_aside w (spell_key row) reason (refusal_subject row reason) True j of
                 (Some e, j) \<Rightarrow> (Some e, j)
               | (None, j) \<Rightarrow>
                   retire_failed w batch_admitted failed undecided
                     (retire [row] (j\<lparr>jn_aside := jn_aside j @ [(row, result, batch_admitted)]\<rparr>))))"

definition publish_page :: "journal_world \<Rightarrow> sample_row list \<Rightarrow> journal \<Rightarrow> publish_end option \<times> journal" where
  "publish_page w rows j =
     (let n = jn_calls j; j = j\<lparr>jn_calls := n + 1\<rparr>
      in case jw_batch w n rows of
           None \<Rightarrow> (Some HttpError, j)
         | Some results \<Rightarrow>
             if length results \<noteq> length rows then (Some ReceiptMismatch, j)
             else
               let judged = zip rows results;
                   accepted = map fst (filter (\<lambda>x. admitted (snd x)) judged);
                   failed = filter (\<lambda>x. \<not> admitted (snd x)) judged;
                   j = fold (\<lambda>r. spell_ended (spell_key r)) accepted j;
                   j = retire accepted (j\<lparr>jn_admitted := jn_admitted j @ filter (\<lambda>x. admitted (snd x)) judged\<rparr>)
               in retire_failed w (accepted \<noteq> []) failed False j)"

definition PUBLISH_PAGES :: nat where "PUBLISH_PAGES = 10"

text \<open>The loop with \<open>left\<close> pages to go: what it raises, or the pages left.\<close>

fun page_loop :: "journal_world \<Rightarrow> nat \<Rightarrow> nat \<Rightarrow> journal \<Rightarrow> (publish_end + nat) \<times> journal" where
  "page_loop w max_pending 0 j = (Inr 0, j)"
| "page_loop w max_pending (Suc left) j =
     (let rows = page_all (min max_pending 1000) (jn_rows j)
      in if rows = [] then (Inr (Suc left), j)
         else (case publish_page w rows j of
                 (Some e, j) \<Rightarrow> (Inl e, j)
               | (None, j) \<Rightarrow> page_loop w max_pending left j))"

definition publish_pages :: "journal_world \<Rightarrow> nat \<Rightarrow> (string \<times> json \<times> real \<times> string option) list \<Rightarrow> nat \<Rightarrow> journal \<Rightarrow> publish_end \<times> journal" where
  "publish_pages w max_pending new pages j =
     (if new = [] \<and> jn_journal j = None then (Published False, j)
      else
        case (if new = [] then Inr (jn_rows j) else append_batch new max_pending (jn_rows j)) of
             Inl e \<Rightarrow> (NotTaken e, j\<lparr>jn_journal := Some (jn_rows j)\<rparr>)
           | Inr rows \<Rightarrow>
               (case page_loop w max_pending pages
                       (j\<lparr>jn_journal := Some rows, jn_taken := jn_taken j @ drop (length (jn_rows j)) rows\<rparr>) of
                  (Inl e, j) \<Rightarrow> (e, j)
                | (Inr left, j) \<Rightarrow> (Published (left = 0 \<and> page_all 1 (jn_rows j) \<noteq> []), j\<lparr>jn_deferred := False\<rparr>)))"

definition journal_has_room :: "nat \<Rightarrow> nat \<Rightarrow> journal \<Rightarrow> bool" where
  "journal_has_room max_pending n j \<longleftrightarrow> count_samples (jn_rows j) + n \<le> max_pending"

section \<open>Every sample is accounted for\<close>

definition sample_content :: "sample_row \<Rightarrow> string \<times> json \<times> real \<times> string option" where
  "sample_content r = (sr_source r, sr_value r, sr_ts r, sr_unit r)"

definition contents :: "sample_row list \<Rightarrow> (string \<times> json \<times> real \<times> string option) multiset" where
  "contents rows = mset (map sample_content rows)"

lemma contents_append [simp]: "contents (xs @ ys) = contents xs + contents ys"
  by (simp add: contents_def)

lemma contents_Nil [simp]: "contents [] = {#}"
  by (simp add: contents_def)

definition journal_inv :: "nat \<Rightarrow> journal \<Rightarrow> bool" where
  "journal_inv max_pending j \<longleftrightarrow> samples_ok (jn_rows j) \<and> length (jn_rows j) \<le> max_pending
     \<and> contents (jn_taken j) = contents (jn_rows j) + contents (map fst (jn_admitted j)) + contents (map fst (jn_aside j))
     \<and> (\<forall>(row, result, others) \<in> set (jn_aside j). refusal_is_final result others
          \<and> (\<exists>subject. (spell_key row, refusal_reason result, subject) \<in> set (jn_findings j)))
     \<and> (\<forall>k sp. map_of (jn_spells j) k = Some sp \<longrightarrow> (\<exists>subject. (k, sp_reason sp, subject) \<in> set (jn_findings j)))"

lemma ack_contents:
  assumes "samples_ok rows" "distinct gone" "set gone \<subseteq> set rows"
  shows "contents rows = contents (ack_samples (map sr_id gone) rows) + contents gone"
proof -
  have inj: "inj_on sr_id (set rows)" "distinct rows" using samples_ok_distinct [OF assms(1)] by (simp_all add: distinct_map)
  have "sr_id r \<in> sr_id ` set gone \<longleftrightarrow> r \<in> set gone" if "r \<in> set rows" for r
    using inj_on_image_mem_iff [OF inj(1) that assms(3)] .
  then have k: "ack_samples (map sr_id gone) rows = filter (\<lambda>r. r \<notin> set gone) rows"
    unfolding ack_samples_def by (intro filter_cong) auto
  have "mset (filter (\<lambda>r. r \<in> set gone) rows) = mset gone"
    using inj(2) assms(2,3) by (subst set_eq_iff_mset_eq_distinct [symmetric]) auto
  then have "mset rows = mset (filter (\<lambda>r. r \<notin> set gone) rows) + mset gone"
    using multiset_partition [of "mset rows" "\<lambda>r. r \<in> set gone"] by (simp add: mset_filter add.commute)
  then have "image_mset sample_content (mset rows) = image_mset sample_content (mset (filter (\<lambda>r. r \<notin> set gone) rows) + mset gone)"
    by (rule arg_cong)
  then show ?thesis by (simp only: contents_def k mset_map image_mset_union)
qed

lemma jn_rows_retire [simp]: "jn_rows (retire rows j) = ack_samples (map sr_id rows) (jn_rows j)"
  by (simp add: jn_rows_def retire_def ack_samples_def split: option.split)

lemma retire_simps [simp]:
  "jn_spells (retire rows j) = jn_spells j" "jn_findings (retire rows j) = jn_findings j" "jn_taken (retire rows j) = jn_taken j"
  "jn_admitted (retire rows j) = jn_admitted j" "jn_aside (retire rows j) = jn_aside j"
  by (simp_all add: retire_def)

lemma length_ack: "length (ack_samples ids rows) \<le> length rows"
  by (simp add: ack_samples_def)

lemma set_aside_frame:
  assumes "set_aside w key reason subject must j = (r, j')"
  shows "jn_journal j' = jn_journal j \<and> jn_taken j' = jn_taken j \<and> jn_admitted j' = jn_admitted j \<and> jn_aside j' = jn_aside j
     \<and> set (jn_findings j) \<subseteq> set (jn_findings j')"
  using assms by (auto simp: set_aside_def Let_def split: option.splits reject_fate.splits if_splits)

lemma set_aside_recorded:
  assumes "set_aside w key reason subject must j = (r, j')"
    and "\<forall>k sp. map_of (jn_spells j) k = Some sp \<longrightarrow> (\<exists>subject. (k, sp_reason sp, subject) \<in> set (jn_findings j))"
  shows "(\<forall>k sp. map_of (jn_spells j') k = Some sp \<longrightarrow> (\<exists>subject. (k, sp_reason sp, subject) \<in> set (jn_findings j')))
     \<and> (must \<and> r = None \<longrightarrow> (\<exists>subject. (key, reason, subject) \<in> set (jn_findings j')))"
proof -
  consider "map_of (jn_spells j) key = None \<or> (\<exists>sp. map_of (jn_spells j) key = Some sp \<and> sp_reason sp \<noteq> reason)"
    | sp where "map_of (jn_spells j) key = Some sp" "sp_reason sp = reason"
    by (cases "map_of (jn_spells j) key") auto
  then show ?thesis
  proof cases
    case 1
    consider "jw_reject w (jn_calls j) = Recorded" | "jw_reject w (jn_calls j) \<noteq> Recorded" by blast
    then show ?thesis
    proof cases
      case rec: 1
      have "j' = j\<lparr>jn_calls := jn_calls j + 1, jn_findings := jn_findings j @ [(key, reason, subject)],
          jn_spells := AList.update key \<lparr>sp_refused = 1, sp_reason = reason\<rparr> (jn_spells j), jn_refused := jn_refused j + 1\<rparr>"
        using assms(1) 1 rec by (auto simp: set_aside_def Let_def)
      then show ?thesis using assms(2) by (auto split: if_splits)
    next
      case 2
      then have "jn_spells j' = jn_spells j \<and> jn_findings j' = jn_findings j \<and> (must \<longrightarrow> r \<noteq> None)"
        using assms(1) 1 by (cases "jw_reject w (jn_calls j)") (auto simp: set_aside_def Let_def split: if_splits)
      then show ?thesis using assms(2) by auto
    qed
  next
    case 2
    have "j' = j\<lparr>jn_spells := AList.update key \<lparr>sp_refused = sp_refused sp + 1, sp_reason = reason\<rparr> (jn_spells j), jn_refused := jn_refused j + 1\<rparr>"
      using assms(1) 2 by (simp add: set_aside_def Let_def)
    then show ?thesis using assms(2) 2 by (auto split: if_splits)
  qed
qed

lemma set_aside_inv:
  assumes "journal_inv m j" "set_aside w key reason subject must j = (r, j')"
  shows "journal_inv m j' \<and> (must \<and> r = None \<longrightarrow> (\<exists>subject. (key, reason, subject) \<in> set (jn_findings j')))"
proof -
  note fr = set_aside_frame [OF assms(2)]
  have rows: "jn_rows j' = jn_rows j" using fr by (simp add: jn_rows_def)
  have "(\<forall>k sp. map_of (jn_spells j') k = Some sp \<longrightarrow> (\<exists>subject. (k, sp_reason sp, subject) \<in> set (jn_findings j')))
     \<and> (must \<and> r = None \<longrightarrow> (\<exists>subject. (key, reason, subject) \<in> set (jn_findings j')))"
    by (rule set_aside_recorded [OF assms(2)]) (use assms(1) in \<open>simp add: journal_inv_def\<close>)
  moreover have "\<forall>(row, result, others) \<in> set (jn_aside j'). refusal_is_final result others
      \<and> (\<exists>subject. (spell_key row, refusal_reason result, subject) \<in> set (jn_findings j'))"
    using assms(1) fr unfolding journal_inv_def by fastforce
  moreover have "samples_ok (jn_rows j')" "length (jn_rows j') \<le> m"
    "contents (jn_taken j') = contents (jn_rows j') + contents (map fst (jn_admitted j')) + contents (map fst (jn_aside j'))"
    using assms(1) fr rows unfolding journal_inv_def by simp_all
  ultimately show ?thesis unfolding journal_inv_def by blast
qed

lemma retire_aside_inv:
  assumes "journal_inv m j" "row \<in> set (jn_rows j)" "refusal_is_final result others"
    and "\<exists>subject. (spell_key row, refusal_reason result, subject) \<in> set (jn_findings j)"
  shows "journal_inv m (retire [row] (j\<lparr>jn_aside := jn_aside j @ [(row, result, others)]\<rparr>))"
proof -
  let ?j = "j\<lparr>jn_aside := jn_aside j @ [(row, result, others)]\<rparr>"
  have ok: "samples_ok (jn_rows j)" and len: "length (jn_rows j) \<le> m"
    and all: "contents (jn_taken j) = contents (jn_rows j) + contents (map fst (jn_admitted j)) + contents (map fst (jn_aside j))"
    using assms(1) by (simp_all add: journal_inv_def)
  have rows: "jn_rows ?j = jn_rows j" by (simp add: jn_rows_def)
  have "contents (jn_rows j) = contents (ack_samples (map sr_id [row]) (jn_rows j)) + contents [row]"
    by (rule ack_contents [OF ok]) (use assms(2) in simp_all)
  then have "contents (jn_taken j) = contents (ack_samples [sr_id row] (jn_rows j)) + contents (map fst (jn_admitted j))
      + contents (map fst (jn_aside j) @ [row])"
    using all by (simp add: ac_simps)
  moreover have "length (ack_samples [sr_id row] (jn_rows j)) \<le> m" using length_ack len by (rule order_trans)
  ultimately show ?thesis using assms ok rows unfolding journal_inv_def by auto
qed

lemma retire_failed_inv:
  assumes "retire_failed w others failed undecided j = (r, j')" "journal_inv m j"
    and "distinct (map fst failed)" "set (map fst failed) \<subseteq> set (jn_rows j)"
  shows "journal_inv m j'"
  using assms
proof (induction failed arbitrary: undecided j)
  case (Cons x failed)
  obtain row result where x: "x = (row, result)" by force
  show ?case
  proof (cases "refusal_is_final result others")
    case False
    then show ?thesis using Cons x by auto
  next
    case True
    let ?reason = "refusal_reason result"
    obtain q j1 where q: "set_aside w (spell_key row) ?reason (refusal_subject row ?reason) True j = (q, j1)" by force
    have i1: "journal_inv m j1" "q = None \<longrightarrow> (\<exists>subject. (spell_key row, ?reason, subject) \<in> set (jn_findings j1))"
      using set_aside_inv [OF Cons.prems(2) q] by simp_all
    have rows: "jn_rows j1 = jn_rows j" using set_aside_frame [OF q] by (simp add: jn_rows_def)
    show ?thesis
    proof (cases q)
      case (Some e)
      then show ?thesis using Cons.prems(1) True q i1 by (simp add: x)
    next
      case None
      let ?j2 = "retire [row] (j1\<lparr>jn_aside := jn_aside j1 @ [(row, result, others)]\<rparr>)"
      have st: "retire_failed w others failed undecided ?j2 = (r, j')" using Cons.prems(1) True q None by (simp add: x)
      have mem: "row \<in> set (jn_rows j1)" using Cons.prems(4) rows by (simp add: x)
      have i2: "journal_inv m ?j2" by (rule retire_aside_inv [OF i1(1) mem True]) (use i1(2) None in simp)
      have "inj_on sr_id (set (jn_rows j))" using Cons.prems(2) samples_ok_distinct by (simp add: journal_inv_def distinct_map)
      then have "sr_id y \<noteq> sr_id row" if "y \<in> fst ` set failed" for y
        using that Cons.prems(3,4) inj_onD [of sr_id "set (jn_rows j)" y row] by (auto simp: x)
      moreover have "jn_rows ?j2 = filter (\<lambda>y. sr_id y \<noteq> sr_id row) (jn_rows j)"
        using rows by (simp add: ack_samples_def) (simp add: jn_rows_def)
      ultimately have sub: "set (map fst failed) \<subseteq> set (jn_rows ?j2)" using Cons.prems(4) by (auto simp: x)
      show ?thesis by (rule Cons.IH [OF st i2 _ sub]) (use Cons.prems(3) in simp)
    qed
  qed
qed simp

lemma spell_ended_simps [simp]:
  "jn_rows (fold (\<lambda>r. spell_ended (f r)) rs j) = jn_rows j" "jn_findings (fold (\<lambda>r. spell_ended (f r)) rs j) = jn_findings j"
  "jn_taken (fold (\<lambda>r. spell_ended (f r)) rs j) = jn_taken j" "jn_admitted (fold (\<lambda>r. spell_ended (f r)) rs j) = jn_admitted j"
  "jn_aside (fold (\<lambda>r. spell_ended (f r)) rs j) = jn_aside j"
  by (induction rs arbitrary: j) (simp_all add: spell_ended_def jn_rows_def)

lemma spell_ended_spells:
  "map_of (jn_spells (fold (\<lambda>r. spell_ended (f r)) rs j)) k = Some sp \<Longrightarrow> map_of (jn_spells j) k = Some sp"
proof (induction rs arbitrary: j)
  case (Cons a rs)
  have "map_of (jn_spells (spell_ended (f a) j)) k = Some sp" by (rule Cons.IH) (use Cons.prems in simp)
  then show ?case by (simp add: spell_ended_def split: if_splits)
qed simp

lemma admitted_page_inv:
  assumes "journal_inv m j" "distinct (map fst accepted)" "set (map fst accepted) \<subseteq> set (jn_rows j)"
  shows "journal_inv m (retire (map fst accepted)
    ((fold (\<lambda>r. spell_ended (spell_key r)) (map fst accepted) j)\<lparr>jn_admitted := jn_admitted j @ accepted\<rparr>))"
proof -
  let ?j = "(fold (\<lambda>r. spell_ended (spell_key r)) (map fst accepted) j)\<lparr>jn_admitted := jn_admitted j @ accepted\<rparr>"
  have ok: "samples_ok (jn_rows j)" and len: "length (jn_rows j) \<le> m"
    and all: "contents (jn_taken j) = contents (jn_rows j) + contents (map fst (jn_admitted j)) + contents (map fst (jn_aside j))"
    using assms(1) by (simp_all add: journal_inv_def)
  have rows: "jn_rows ?j = jn_rows j" using spell_ended_simps(1) [of spell_key "map fst accepted" j] by (simp add: jn_rows_def)
  have "contents (jn_rows j) = contents (ack_samples (map sr_id (map fst accepted)) (jn_rows j)) + contents (map fst accepted)"
    by (rule ack_contents [OF ok assms(2,3)])
  then have "contents (jn_taken j) = contents (ack_samples (map sr_id (map fst accepted)) (jn_rows j)) + contents (map fst (jn_admitted j) @ map fst accepted)
      + contents (map fst (jn_aside j))"
    using all by (simp add: ac_simps)
  moreover have "length (ack_samples (map sr_id (map fst accepted)) (jn_rows j)) \<le> m" using length_ack len by (rule order_trans)
  moreover have "\<forall>k sp. map_of (jn_spells ?j) k = Some sp \<longrightarrow> (\<exists>subject. (k, sp_reason sp, subject) \<in> set (jn_findings j))"
  proof (intro allI impI)
    fix k sp assume "map_of (jn_spells ?j) k = Some sp"
    then have "map_of (jn_spells j) k = Some sp" using spell_ended_spells [of spell_key "map fst accepted" j k sp] by simp
    then show "\<exists>subject. (k, sp_reason sp, subject) \<in> set (jn_findings j)" using assms(1) unfolding journal_inv_def by blast
  qed
  ultimately show ?thesis using assms(1) ok rows unfolding journal_inv_def by simp
qed

lemma publish_page_inv:
  assumes "journal_inv m j" "publish_page w rows j = (r, j')" "rows = page_all n (jn_rows j)"
  shows "journal_inv m j'"
proof -
  let ?j1 = "j\<lparr>jn_calls := jn_calls j + 1\<rparr>"
  have i1: "journal_inv m ?j1" using assms(1) by (simp add: journal_inv_def jn_rows_def)
  have ok: "samples_ok (jn_rows j)" using assms(1) by (simp add: journal_inv_def)
  have rows: "rows = take n (jn_rows j)" using assms(3) all_samples.page_take [OF ok] by simp
  have sub: "set rows \<subseteq> set (jn_rows j)" unfolding rows by (rule set_take_subset)
  have dis: "distinct rows" unfolding rows using samples_ok_distinct [OF ok] by (simp add: distinct_map)
  show ?thesis
  proof (cases "jw_batch w (jn_calls j) rows")
    case None
    then show ?thesis using assms(2) i1 by (simp add: publish_page_def Let_def)
  next
    case (Some results)
    show ?thesis
    proof (cases "length results = length rows")
      case False
      then show ?thesis using assms(2) i1 Some by (simp add: publish_page_def Let_def)
    next
      case True
      define judged where "judged = zip rows results"
      define taken where "taken = filter (\<lambda>x. admitted (snd x)) judged"
      define accepted where "accepted = map fst taken"
      define failed where "failed = filter (\<lambda>x. \<not> admitted (snd x)) judged"
      have fst: "map fst judged = rows" using True by (simp add: judged_def)
      have inj: "distinct judged" "inj_on fst (set judged)" using dis unfolding fst [symmetric] by (simp_all add: distinct_map)
      have "inj_on fst (set (filter P judged))" for P by (rule inj_on_subset [OF inj(2)]) auto
      then have d: "distinct accepted" "distinct (map fst failed)"
        using inj(1) by (simp_all add: accepted_def taken_def failed_def distinct_map)
      have "set accepted \<subseteq> set rows" "set (map fst failed) \<subseteq> set rows" unfolding fst [symmetric] by (auto simp: accepted_def taken_def failed_def)
      then have s: "set accepted \<subseteq> set (jn_rows j)" "set (map fst failed) \<subseteq> set (jn_rows j)" using sub by blast+
      have apart: "set accepted \<inter> set (map fst failed) = {}"
        using inj(2) unfolding accepted_def taken_def failed_def inj_on_def by fastforce
      let ?j2 = "retire accepted ((fold (\<lambda>r. spell_ended (spell_key r)) accepted ?j1)\<lparr>jn_admitted := jn_admitted ?j1 @ taken\<rparr>)"
      have i2: "journal_inv m ?j2" 
        using admitted_page_inv [OF i1, of taken] d(1) s(1) unfolding accepted_def by (simp add: jn_rows_def)
      have st: "retire_failed w (accepted \<noteq> []) failed False ?j2 = (r, j')"
        using assms(2) Some True by (simp add: publish_page_def Let_def accepted_def taken_def failed_def judged_def)
      have injs: "inj_on sr_id (set (jn_rows j))" using samples_ok_distinct [OF ok] by (simp add: distinct_map)
      have "sr_id x \<notin> sr_id ` set accepted" if "x \<in> set (map fst failed)" for x
      proof
        assume "sr_id x \<in> sr_id ` set accepted"
        then obtain y where y: "y \<in> set accepted" "sr_id x = sr_id y" by blast
        have "x = y" by (rule inj_onD [OF injs y(2)]) (use that s y(1) in blast)+
        then show False using that y(1) apart by blast
      qed
      moreover have "jn_rows ?j2 = ack_samples (map sr_id accepted) (jn_rows j)"
        by (simp only: jn_rows_retire) (use spell_ended_simps(1) [of spell_key accepted ?j1] in \<open>simp add: jn_rows_def\<close>)
      ultimately have "set (map fst failed) \<subseteq> set (jn_rows ?j2)" using s(2) by (auto simp: ack_samples_def)
      then show ?thesis using retire_failed_inv [OF st i2 d(2)] by blast
    qed
  qed
qed

lemma retire_failed_taken: "retire_failed w others failed undecided j = (r, j') \<Longrightarrow> jn_taken j' = jn_taken j"
proof (induction failed arbitrary: undecided j)
  case (Cons x failed)
  obtain row result where x: "x = (row, result)" by force
  obtain q j1 where q: "set_aside w (spell_key row) (refusal_reason result) (refusal_subject row (refusal_reason result)) True j = (q, j1)" by force
  show ?case
  proof (cases "refusal_is_final result others")
    case False
    then show ?thesis using Cons x by auto
  next
    case True
    then show ?thesis using Cons.prems Cons.IH set_aside_frame [OF q] by (cases q) (fastforce simp: x q)+
  qed
qed simp

lemma publish_page_taken: "publish_page w rows j = (r, j') \<Longrightarrow> jn_taken j' = jn_taken j"
  by (auto simp: publish_page_def Let_def split: option.splits if_splits dest!: retire_failed_taken)

lemma page_loop_inv:
  "journal_inv m j \<Longrightarrow> page_loop w n left j = (r, j') \<Longrightarrow>
   journal_inv m j' \<and> jn_taken j' = jn_taken j \<and> (\<forall>k. r = Inr k \<and> 0 < k \<and> 0 < n \<longrightarrow> jn_rows j' = [])"
proof (induction left arbitrary: j)
  case (Suc left)
  let ?rows = "page_all (min n 1000) (jn_rows j)"
  have ok: "samples_ok (jn_rows j)" using Suc.prems(1) by (simp add: journal_inv_def)
  show ?case
  proof (cases "?rows = []")
    case True
    have "jn_rows j = []" if "0 < n" using True that all_samples.page_empty_iff [OF ok, of "min n 1000"] by simp
    then show ?thesis using Suc.prems True by auto
  next
    case False
    obtain q j1 where q: "publish_page w ?rows j = (q, j1)" by force
    have i1: "journal_inv m j1" "jn_taken j1 = jn_taken j"
      using publish_page_inv [OF Suc.prems(1) q refl] publish_page_taken [OF q] by simp_all
    show ?thesis
    proof (cases q)
      case (Some e)
      then show ?thesis using Suc.prems(2) False q i1 by (auto simp: Let_def)
    next
      case None
      then have "page_loop w n left j1 = (r, j')" using Suc.prems(2) False q by (simp add: Let_def)
      then show ?thesis using Suc.IH [OF i1(1)] i1(2) by simp
    qed
  qed
qed auto

lemma page_loop_ends: "page_loop w m left j = (Inl e, j') \<Longrightarrow> e \<in> {HttpError, ReceiptMismatch, Undecided, MqttGone, RejectRaised}"
proof -
  have rf: "retire_failed w others failed undecided k = (Some x, k') \<Longrightarrow> x = Undecided \<or> x = MqttGone \<or> x = RejectRaised" for others failed undecided k x k'
    by (induction failed arbitrary: undecided k)
      (auto simp: set_aside_def Let_def split: if_splits option.splits reject_fate.splits prod.splits)
  have pp: "publish_page w rs k = (Some x, k') \<Longrightarrow> x \<in> {HttpError, ReceiptMismatch, Undecided, MqttGone, RejectRaised}" for rs k x k'
    by (auto simp: publish_page_def Let_def split: option.splits if_splits dest!: rf)
  show "page_loop w m left j = (Inl e, j') \<Longrightarrow> e \<in> {HttpError, ReceiptMismatch, Undecided, MqttGone, RejectRaised}"
    by (induction left arbitrary: j) (auto simp: Let_def split: if_splits option.splits prod.splits dest: pp)
qed

lemma insert_samples:
  "samples_ok rows \<Longrightarrow> \<exists>xs. fold insert_sample new rows = rows @ xs \<and> map sample_content xs = new \<and> samples_ok (rows @ xs)"
proof (induction new arbitrary: rows)
  case (Cons x new)
  obtain source v ts unit where x: "x = (source, v, ts, unit)" by (cases x)
  let ?r = "\<lparr>sr_id = next_id rows, sr_source = source, sr_value = v, sr_ts = ts, sr_unit = unit\<rparr>"
  have r: "insert_sample x rows = rows @ [?r]" by (simp add: insert_sample_def x)
  have "samples_ok (rows @ [?r])" using samples_ok_insert [OF Cons.prems, of x] by (simp add: r)
  then obtain xs where xs: "fold insert_sample new (rows @ [?r]) = (rows @ [?r]) @ xs" "map sample_content xs = new"
    "samples_ok ((rows @ [?r]) @ xs)" using Cons.IH by blast
  have "sample_content ?r = x" by (simp add: sample_content_def x)
  then show ?case by (intro exI [of _ "?r # xs"]) (use xs r in simp)
qed simp

lemma append_batch_result:
  assumes "samples_ok rows" "append_batch new m rows = Inr rows'"
  shows "\<exists>xs. rows' = rows @ xs \<and> map sample_content xs = new \<and> samples_ok rows' \<and> length rows' \<le> m"
proof -
  have e: "rows' = fold insert_sample new rows" "length rows + length new \<le> m"
    using assms(2) by (auto simp: append_batch_def split: if_splits)
  obtain xs where xs: "fold insert_sample new rows = rows @ xs" "map sample_content xs = new" "samples_ok (rows @ xs)"
    using insert_samples [OF assms(1)] by blast
  have "length xs = length new" using xs(2) by (metis length_map)
  then show ?thesis using e xs by auto
qed

lemma publish_pages_inv:
  assumes "journal_inv m j" "publish_pages w m new pages j = (e, j')"
  shows "journal_inv m j' \<and> (\<exists>xs. jn_taken j' = jn_taken j @ xs \<and> map sample_content xs = (if \<exists>err. e = NotTaken err then [] else new))
     \<and> (e = Published False \<and> 0 < m \<longrightarrow> jn_rows j' = [])"
proof (cases "new = [] \<and> jn_journal j = None")
  case True
  then have "e = Published False" "j' = j" using assms(2) by (simp_all add: publish_pages_def)
  then show ?thesis using True assms(1) by (simp add: jn_rows_def)
next
  case False
  let ?j = "j\<lparr>jn_journal := Some (jn_rows j)\<rparr>"
  have i: "journal_inv m ?j" and rows: "jn_rows ?j = jn_rows j" using assms(1) by (simp_all add: journal_inv_def jn_rows_def)
  have ok: "samples_ok (jn_rows j)" using assms(1) by (simp add: journal_inv_def)
  have eq: "(e, j') = (case (if new = [] then Inr (jn_rows j) else append_batch new m (jn_rows j)) of
             Inl e \<Rightarrow> (NotTaken e, ?j)
           | Inr rows \<Rightarrow>
               (case page_loop w m pages
                       (j\<lparr>jn_journal := Some rows, jn_taken := jn_taken j @ drop (length (jn_rows j)) rows\<rparr>) of
                  (Inl e, j) \<Rightarrow> (e, j)
                | (Inr left, j) \<Rightarrow> (Published (left = 0 \<and> page_all 1 (jn_rows j) \<noteq> []), j\<lparr>jn_deferred := False\<rparr>)))"
    using assms(2) unfolding publish_pages_def if_not_P [OF False] by simp
  consider err where "e = NotTaken err" "j' = ?j" "new \<noteq> []"
    | rows' where "(if new = [] then Inr (jn_rows j) else append_batch new m (jn_rows j)) = Inr rows'"
    using eq by (cases "if new = [] then Inr (jn_rows j) else append_batch new m (jn_rows j)") (auto split: if_splits)
  then show ?thesis
  proof cases
    case 1
    then show ?thesis using i by auto
  next
    case 2
    have "\<exists>xs. rows' = jn_rows j @ xs \<and> map sample_content xs = new \<and> samples_ok rows' \<and> length rows' \<le> m"
      using 2 append_batch_result [OF ok] assms(1) by (cases "new = []") (auto simp: journal_inv_def)
    then obtain xs where xs: "rows' = jn_rows j @ xs" "map sample_content xs = new" "samples_ok rows'" "length rows' \<le> m" by blast
    let ?j1 = "j\<lparr>jn_journal := Some rows', jn_taken := jn_taken j @ xs\<rparr>"
    have i1: "journal_inv m ?j1" using assms(1) xs unfolding journal_inv_def by (simp add: jn_rows_def ac_simps)
    obtain q j2 where q: "page_loop w m pages ?j1 = (q, j2)" by force
    note l = page_loop_inv [OF i1 q]
    have res: "(e, j') = (case q of Inl e \<Rightarrow> (e, j2)
        | Inr left \<Rightarrow> (Published (left = 0 \<and> page_all 1 (jn_rows j2) \<noteq> []), j2\<lparr>jn_deferred := False\<rparr>))"
      using eq unfolding 2 xs(1) using q xs(1) by simp
    have i2: "journal_inv m j2" and taken: "jn_taken j2 = jn_taken j @ xs" using l by simp_all
    show ?thesis
    proof (cases q)
      case (Inl x)
      then have "(\<forall>err. x \<noteq> NotTaken err) \<and> (\<forall>b. x \<noteq> Published b)" using page_loop_ends [of w m pages ?j1 x j2] q Inl by auto
      then show ?thesis using res Inl q i2 taken xs by auto
    next
      case (Inr left)
      have "journal_inv m j'" using res Inr i2 by (simp add: journal_inv_def jn_rows_def)
      moreover have "jn_rows j' = []" if "e = Published False" "0 < m"
      proof -
        have "left \<noteq> 0 \<or> page_all 1 (jn_rows j2) = []" using res Inr that by auto
        moreover have "samples_ok (jn_rows j2)" using i2 by (simp add: journal_inv_def)
        ultimately have "jn_rows j2 = []" using l Inr that(2) all_samples.page_empty_iff [of "jn_rows j2" 1] by auto
        then show ?thesis using res Inr by (simp add: jn_rows_def)
      qed
      ultimately show ?thesis using res Inr taken xs by auto
    qed
  qed
qed

section \<open>Histories of a journal\<close>

text \<open>\<open>taken_aside\<close>: a reading that cannot be journaled is set aside. \<open>restarted\<close>: the process dies and opens the file again; what
  it only kept in memory is gone. (A process that dies between the node's answer and the removal of the samples is a
  request whose answer is lost, then a restart.)\<close>

inductive journal_life :: "journal_world \<Rightarrow> nat \<Rightarrow> journal \<Rightarrow> bool" for w max_pending where
  created: "journal_life w max_pending (mk_journal None)"
| published: "journal_life w max_pending j \<Longrightarrow> publish_pages w max_pending new pages j = (e, j') \<Longrightarrow> journal_life w max_pending j'"
| taken_aside: "journal_life w max_pending j \<Longrightarrow> set_aside w key reason subject False j = (r, j') \<Longrightarrow> journal_life w max_pending j'"
| restarted: "journal_life w max_pending j \<Longrightarrow>
    journal_life w max_pending (j\<lparr>jn_spells := [], jn_refused := 0, jn_deferred := False\<rparr>)"

lemma journal_life_inv: "journal_life w m j \<Longrightarrow> journal_inv m j"
proof (induction rule: journal_life.induct)
  case created
  then show ?case by (simp add: journal_inv_def mk_journal_def jn_rows_def samples_ok_def)
next
  case (published j new pages e j')
  then show ?case using publish_pages_inv by blast
next
  case (taken_aside j key reason subject r j')
  then show ?case using set_aside_inv by blast
next
  case (restarted j)
  then show ?case by (simp add: journal_inv_def jn_rows_def)
qed

section \<open>Every verdict is the node's\<close>

text \<open>\<open>result\<close> is the node's answer for \<open>row\<close>, in an answer to a batch; \<open>others\<close> only when one of that batch has no error and
  an offset.\<close>

definition node_said :: "journal_world \<Rightarrow> sample_row \<Rightarrow> publish_result \<Rightarrow> bool \<Rightarrow> bool" where
  "node_said w row result others \<longleftrightarrow>
     (\<exists>n rows results. jw_batch w n rows = Some results \<and> length results = length rows \<and> (row, result) \<in> set (zip rows results)
        \<and> (others \<longrightarrow> (\<exists>r \<in> set results. \<not> given (pr_error r) \<and> pr_offset r \<noteq> None)))"

definition verdicts_ok :: "journal_world \<Rightarrow> journal \<Rightarrow> bool" where
  "verdicts_ok w j \<longleftrightarrow>
     (\<forall>(row, result) \<in> set (jn_admitted j). node_said w row result True \<and> \<not> given (pr_error result) \<and> pr_offset result \<noteq> None)
     \<and> (\<forall>(row, result, others) \<in> set (jn_aside j). node_said w row result others)"

lemma verdicts_ok_cong: "jn_admitted j' = jn_admitted j \<Longrightarrow> jn_aside j' = jn_aside j \<Longrightarrow> verdicts_ok w j' \<longleftrightarrow> verdicts_ok w j"
  by (simp add: verdicts_ok_def)

lemma retire_failed_verdicts:
  assumes "retire_failed w others failed undecided j = (r, j')" "verdicts_ok w j"
    "\<forall>(row, result) \<in> set failed. node_said w row result others"
  shows "verdicts_ok w j'"
  using assms
proof (induction failed arbitrary: undecided j)
  case (Cons x failed)
  obtain row result where x: "x = (row, result)" by force
  show ?case
  proof (cases "refusal_is_final result others")
    case False
    then show ?thesis using Cons x by auto
  next
    case True
    let ?reason = "refusal_reason result"
    obtain q j1 where q: "set_aside w (spell_key row) ?reason (refusal_subject row ?reason) True j = (q, j1)" by force
    have v1: "verdicts_ok w j1" using verdicts_ok_cong [of j1 j w] set_aside_frame [OF q] Cons.prems(2) by simp
    show ?thesis
    proof (cases q)
      case (Some e)
      then show ?thesis using Cons.prems(1) True q v1 by (simp add: x)
    next
      case None
      let ?j2 = "retire [row] (j1\<lparr>jn_aside := jn_aside j1 @ [(row, result, others)]\<rparr>)"
      have st: "retire_failed w others failed undecided ?j2 = (r, j')" using Cons.prems(1) True q None by (simp add: x)
      have "verdicts_ok w ?j2" using v1 Cons.prems(3) by (auto simp: x verdicts_ok_def)
      from Cons.IH [OF st this] show ?thesis using Cons.prems(3) by simp
    qed
  qed
qed simp

lemma publish_page_verdicts:
  assumes "verdicts_ok w j" "publish_page w rows j = (r, j')"
  shows "verdicts_ok w j'"
proof -
  let ?j1 = "j\<lparr>jn_calls := jn_calls j + 1\<rparr>"
  have v1: "verdicts_ok w ?j1" using assms(1) by (simp add: verdicts_ok_def)
  consider "jw_batch w (jn_calls j) rows = None \<or> (\<exists>rs. jw_batch w (jn_calls j) rows = Some rs \<and> length rs \<noteq> length rows)"
    | results where "jw_batch w (jn_calls j) rows = Some results" "length results = length rows" by (cases "jw_batch w (jn_calls j) rows") auto
  then show ?thesis
  proof cases
    case 1
    then have "j' = ?j1" using assms(2) by (auto simp: publish_page_def Let_def)
    then show ?thesis using v1 by simp
  next
    case 2
    define judged where "judged = zip rows results"
    define taken where "taken = filter (\<lambda>x. admitted (snd x)) judged"
    define failed where "failed = filter (\<lambda>x. \<not> admitted (snd x)) judged"
    let ?j2 = "retire (map fst taken) ((fold (\<lambda>r. spell_ended (spell_key r)) (map fst taken) ?j1)\<lparr>jn_admitted := jn_admitted ?j1 @ taken\<rparr>)"
    have st: "retire_failed w (map fst taken \<noteq> []) failed False ?j2 = (r, j')"
      using assms(2) 2 by (simp add: publish_page_def Let_def taken_def failed_def judged_def)
    have raw: "\<not> given (pr_error (snd x)) \<and> pr_offset (snd x) \<noteq> None" if "x \<in> set taken" for x
      using that by (simp add: taken_def admitted_def)
    have said: "node_said w row result others"
      if "(row, result) \<in> set judged" and "others \<longrightarrow> taken \<noteq> []" for row result others
    proof -
      have "\<exists>r \<in> set results. \<not> given (pr_error r) \<and> pr_offset r \<noteq> None" if ne: "taken \<noteq> []"
      proof -
        obtain x where x: "x \<in> set taken" using ne by (cases taken) auto
        then have "(fst x, snd x) \<in> set (zip rows results)" by (simp add: taken_def judged_def)
        then have "snd x \<in> set results" by (rule set_zip_rightD)
        then show ?thesis using raw [OF x] by blast
      qed
      then show ?thesis unfolding node_said_def using 2 that by (intro exI conjI) (auto simp: judged_def)
    qed
    have sub: "set taken \<subseteq> set judged" "set failed \<subseteq> set judged" by (auto simp: taken_def failed_def)
    have "\<forall>(row, result) \<in> set taken. node_said w row result True \<and> \<not> given (pr_error result) \<and> pr_offset result \<noteq> None"
    proof (intro ballI, clarify)
      fix row result assume x: "(row, result) \<in> set taken"
      then have "taken \<noteq> []" by auto
      then show "node_said w row result True \<and> \<not> given (pr_error result) \<and> pr_offset result \<noteq> None"
        using x raw [OF x] sub(1) said [of row result True] by auto
    qed
    then have "verdicts_ok w ?j2" using v1 by (auto simp: verdicts_ok_def)
    moreover have "\<forall>(row, result) \<in> set failed. node_said w row result (map fst taken \<noteq> [])"
      using sub(2) said by auto
    ultimately show ?thesis using retire_failed_verdicts [OF st] by blast
  qed
qed

lemma page_loop_verdicts: "verdicts_ok w j \<Longrightarrow> page_loop w n left j = (r, j') \<Longrightarrow> verdicts_ok w j'"
  by (induction left arbitrary: j) (auto simp: Let_def split: if_splits option.splits prod.splits dest: publish_page_verdicts)

lemma publish_pages_verdicts:
  assumes "verdicts_ok w j" "publish_pages w m new pages j = (e, j')"
  shows "verdicts_ok w j'"
proof (cases "new = [] \<and> jn_journal j = None")
  case False
  show ?thesis
  proof (cases "if new = [] then Inr (jn_rows j) else append_batch new m (jn_rows j)")
    case (Inl err)
    then have "j' = j\<lparr>jn_journal := Some (jn_rows j)\<rparr>" using assms(2) unfolding publish_pages_def if_not_P [OF False] by simp
    then show ?thesis using assms(1) by (simp add: verdicts_ok_def)
  next
    case (Inr rows)
    let ?j1 = "j\<lparr>jn_journal := Some rows, jn_taken := jn_taken j @ drop (length (jn_rows j)) rows\<rparr>"
    obtain q j2 where q: "page_loop w m pages ?j1 = (q, j2)" by force
    have "verdicts_ok w ?j1" using assms(1) by (simp add: verdicts_ok_def)
    then have "verdicts_ok w j2" using page_loop_verdicts [OF _ q] by blast
    moreover have "j' = j2 \<or> j' = j2\<lparr>jn_deferred := False\<rparr>"
      using assms(2) unfolding publish_pages_def if_not_P [OF False] Inr by (auto simp: q split: sum.splits)
    ultimately show ?thesis by (auto simp: verdicts_ok_def)
  qed
qed (use assms in \<open>simp add: publish_pages_def\<close>)

lemma journal_life_verdicts: "journal_life w m j \<Longrightarrow> verdicts_ok w j"
proof (induction rule: journal_life.induct)
  case created
  then show ?case by (simp add: verdicts_ok_def mk_journal_def)
next
  case (published j new pages e j')
  then show ?case using publish_pages_verdicts by blast
next
  case (taken_aside j key reason subject r j')
  then show ?case using verdicts_ok_cong set_aside_frame by metis
next
  case (restarted j)
  then show ?case by (simp add: verdicts_ok_def)
qed

text \<open>C36: A connector loses no sample. Whatever the node answers, through lost replies, refusals, failed records of
  a refusal and restarts: the samples that entered the journal are those still in it, those that left it as admitted, and those
  that left it as refused, each of them once. One that left as admitted has a result of the node, for that sample in a batch, with no
  error and with an offset key; one that left as refused has a result with an error and without an offset, whose reason is
  a final one, or that gives no reason while the node gave another sample of the batch an offset, and it was recorded in
  the finding before it left. The journal keeps to its bound; a cycle enters it whole or not at all, and a publish that
  reports nothing left has emptied it.\<close>

theorem connector_loses_no_sample:
  assumes "journal_life w max_pending j" "publish_pages w max_pending new pages j = (e, j')"
  shows "contents (jn_taken j') = contents (jn_rows j') + contents (map fst (jn_admitted j')) + contents (map fst (jn_aside j'))
     \<and> (\<forall>(row, result) \<in> set (jn_admitted j'). \<not> given (pr_error result) \<and> pr_offset result \<noteq> None
          \<and> (\<exists>n rows results. jw_batch w n rows = Some results \<and> length results = length rows \<and> (row, result) \<in> set (zip rows results)))
     \<and> (\<forall>(row, result, others) \<in> set (jn_aside j'). given (pr_error result) \<and> (\<forall>n. pr_offset result \<noteq> Some (Some n))
          \<and> (if given (pr_reason result) then the (pr_reason result) \<in> set FINAL_REFUSAL_REASONS else others)
          \<and> (\<exists>n rows results. jw_batch w n rows = Some results \<and> length results = length rows \<and> (row, result) \<in> set (zip rows results)
               \<and> (others \<longrightarrow> (\<exists>r \<in> set results. \<not> given (pr_error r) \<and> pr_offset r \<noteq> None)))
          \<and> (\<exists>subject. (spell_key row, refusal_reason result, subject) \<in> set (jn_findings j')))
     \<and> length (jn_rows j') \<le> max_pending
     \<and> (\<exists>xs. jn_taken j' = jn_taken j @ xs \<and> map sample_content xs = (if \<exists>err. e = NotTaken err then [] else new))
     \<and> (e = Published False \<and> 0 < max_pending \<longrightarrow> jn_rows j' = [])"
proof -
  have "journal_inv max_pending j" by (rule journal_life_inv [OF assms(1)])
  then have r: "journal_inv max_pending j'" "\<exists>xs. jn_taken j' = jn_taken j @ xs \<and> map sample_content xs = (if \<exists>err. e = NotTaken err then [] else new)"
    "e = Published False \<and> 0 < max_pending \<longrightarrow> jn_rows j' = []"
    using publish_pages_inv [OF _ assms(2)] by blast+
  have v: "verdicts_ok w j'" by (rule publish_pages_verdicts [OF journal_life_verdicts [OF assms(1)] assms(2)])
  have "\<forall>(row, result) \<in> set (jn_admitted j'). \<not> given (pr_error result) \<and> pr_offset result \<noteq> None
      \<and> (\<exists>n rows results. jw_batch w n rows = Some results \<and> length results = length rows \<and> (row, result) \<in> set (zip rows results))"
    using v unfolding verdicts_ok_def node_said_def by fast
  moreover have "given (pr_error result) \<and> (\<forall>n. pr_offset result \<noteq> Some (Some n))
      \<and> (if given (pr_reason result) then the (pr_reason result) \<in> set FINAL_REFUSAL_REASONS else others)"
    if "refusal_is_final result others" for result others
    using that by (auto simp: refusal_is_final_def split: if_splits option.splits)
  ultimately show ?thesis using r v unfolding journal_inv_def verdicts_ok_def node_said_def
    by (intro conjI) (elim conjE, (assumption | fast))+
qed

text \<open>Two samples of a cycle: one admitted, one refused with no verdict.\<close>

definition example_sample :: "string \<Rightarrow> string \<times> json \<times> real \<times> string option" where
  "example_sample sid = (sid, JNull, 1, None)"

definition example_journal_world :: journal_world where
  "example_journal_world =
     \<lparr>jw_batch = (\<lambda>n rows. Some [\<lparr>pr_offset = Some (Some 7), pr_error = None, pr_reason = None\<rparr>,
        \<lparr>pr_offset = None, pr_error = Some ''e'', pr_reason = Some ''draining''\<rparr>]),
      jw_reject = (\<lambda>n. Recorded)\<rparr>"

definition example_cycle :: "(string \<times> json \<times> real \<times> string option) list" where
  "example_cycle = [example_sample ''a'', example_sample ''c'']"

lemma example_publish:
  "\<exists>j. publish_pages example_journal_world 10 example_cycle 1 (mk_journal None) = (Undecided, j)
     \<and> map sr_source (jn_rows j) = [''c''] \<and> length (jn_taken j) = 2"
proof -
  let ?r = "\<lambda>i sid. \<lparr>sr_id = i, sr_source = sid, sr_value = JNull, sr_ts = 1, sr_unit = None\<rparr>"
  let ?rows = "[?r 1 ''a'', ?r 2 ''c'']"
  have rows: "append_batch example_cycle 10 (jn_rows (mk_journal None)) = Inr ?rows"
    by (simp add: append_batch_def example_cycle_def example_sample_def insert_sample_def next_id_def jn_rows_def mk_journal_def)
  have ok: "samples_ok ?rows" by (simp add: samples_ok_def)
  let ?j = "(mk_journal None)\<lparr>jn_journal := Some ?rows, jn_taken := ?rows\<rparr>"
  have page: "page_all (min 10 1000) (jn_rows ?j) = ?rows" using all_samples.page_take [OF ok] by (simp add: jn_rows_def)
  have adm: "admitted \<lparr>pr_offset = Some (Some 7), pr_error = None, pr_reason = None\<rparr>"
    "\<not> admitted \<lparr>pr_offset = None, pr_error = Some ''e'', pr_reason = Some ''draining''\<rparr>"
    "\<not> refusal_is_final \<lparr>pr_offset = None, pr_error = Some ''e'', pr_reason = Some ''draining''\<rparr> True"
    by (simp_all add: admitted_def given_def refusal_is_final_def FINAL_REFUSAL_REASONS_def)
  obtain j where p: "publish_page example_journal_world ?rows ?j = (Some Undecided, j)" "jn_rows j = [?r 2 ''c'']" "jn_taken j = ?rows"
    using adm by (auto simp: publish_page_def Let_def example_journal_world_def mk_journal_def spell_ended_def retire_def ack_samples_def jn_rows_def)
  have "page_loop example_journal_world 10 (Suc 0) ?j = (Inl Undecided, j)" using p(1) page by (simp add: Let_def)
  moreover have "example_cycle \<noteq> []" "jn_taken (mk_journal None) = []" "length (jn_rows (mk_journal None)) = 0"
    by (simp_all add: example_cycle_def mk_journal_def jn_rows_def)
  ultimately have "publish_pages example_journal_world 10 example_cycle 1 (mk_journal None) = (Undecided, j)"
    using rows by (simp add: publish_pages_def)
  then show ?thesis using p by simp
qed

theorem connector_loses_no_sample_witness:
  "\<exists>j. publish_pages example_journal_world 10 example_cycle 1 (mk_journal None) = (Undecided, j)
     \<and> contents (jn_taken j) = contents (jn_rows j) + contents (map fst (jn_admitted j)) + contents (map fst (jn_aside j))
     \<and> size (contents (jn_taken j)) = 2 \<and> map sr_source (jn_rows j) = [''c'']"
proof -
  obtain j where j: "publish_pages example_journal_world 10 example_cycle 1 (mk_journal None) = (Undecided, j)
      \<and> map sr_source (jn_rows j) = [''c''] \<and> length (jn_taken j) = 2"
    using example_publish by (rule exE)
  have "contents (jn_taken j) = contents (jn_rows j) + contents (map fst (jn_admitted j)) + contents (map fst (jn_aside j))"
    by (rule conjunct1 [OF connector_loses_no_sample [OF journal_life.created conjunct1 [OF j]]])
  moreover have "size (contents (jn_taken j)) = 2" using j by (simp add: contents_def)
  ultimately show ?thesis using j by (intro exI [of _ j]) simp
qed

end
