(* ===== verification/Chaski_Acquire.thy ===== *)
theory Chaski_Acquire
  imports Chaski_Journal Chaski_SourceClock
begin

text \<open>
  What a poll of a connector makes of its readings (\<open>_poll_iteration\<close> of \<open>src/chaski/connector.py\<close>, from the read to the
  batch): rounding, source timestamps, readings set aside, report by exception. The clocks are read where the code
  reads them; those readings come with each reading of the source.
\<close>

section \<open>Rounding\<close>

lemma step_pos [simp]: "0 < step_of p" "0 \<le> step_of p"
  by (simp_all add: step_of_def)

lemma step_nz [simp]: "step_of p \<noteq> 0"
  using step_pos(1) [of p] by (rule less_imp_neq [symmetric])

definition on_grid :: "int \<Rightarrow> real \<Rightarrow> bool" where
  "on_grid p y \<longleftrightarrow> (\<exists>n :: int. y = of_int n * step_of p)"

lemma grid_apart: "on_grid p x \<Longrightarrow> on_grid p y \<Longrightarrow> \<bar>x - y\<bar> < step_of p \<Longrightarrow> x = y"
proof -
  assume "on_grid p x" "on_grid p y" "\<bar>x - y\<bar> < step_of p"
  then obtain m n :: int where mn: "x = of_int m * step_of p" "y = of_int n * step_of p" by (auto simp: on_grid_def)
  then have "\<bar>x - y\<bar> = of_int \<bar>m - n\<bar> * step_of p" by (simp add: abs_mult abs_of_pos flip: left_diff_distrib)
  then have "of_int \<bar>m - n\<bar> * step_of p < 1 * step_of p" using \<open>\<bar>x - y\<bar> < step_of p\<close> by simp
  then have "(of_int \<bar>m - n\<bar> :: real) < 1" by (simp only: mult_less_cancel_right_pos [OF step_pos(1)])
  then have "m = n" by linarith
  then show ?thesis using mn by simp
qed

lemma quantized_bounds:
  assumes "quantized p x = Some y"
  shows "on_grid p y \<and> \<bar>y - x\<bar> \<le> step_of p / 2 \<and> \<bar>y\<bar> < 10 ^ 28 * step_of p"
proof -
  let ?s = "step_of p" and ?n = "\<lfloor>\<bar>x\<bar> / step_of p + 1 / 2\<rfloor>"
  have y: "y = sgn x * (of_int ?n * ?s)" and n: "?n < 10 ^ 28" using assms by (auto simp: quantized_def Let_def split: if_splits)
  have "0 \<le> \<bar>x\<bar> / ?s" by (intro divide_nonneg_nonneg) simp_all
  then have n0: "0 \<le> ?n" by simp
  have fl: "of_int ?n \<le> \<bar>x\<bar> / ?s + 1 / 2" "\<bar>x\<bar> / ?s + 1 / 2 < of_int ?n + 1" by linarith+
  have "of_int ?n * ?s \<le> (\<bar>x\<bar> / ?s + 1 / 2) * ?s" by (rule mult_right_mono [OF fl(1)]) simp
  moreover have "(\<bar>x\<bar> / ?s + 1 / 2) * ?s < (of_int ?n + 1) * ?s" by (rule mult_strict_right_mono [OF fl(2)]) simp
  moreover have "(\<bar>x\<bar> / ?s + 1 / 2) * ?s = \<bar>x\<bar> + ?s / 2" by (simp add: distrib_right)
  ultimately have near: "\<bar>of_int ?n * ?s - \<bar>x\<bar>\<bar> \<le> ?s / 2" unfolding distrib_right [of "of_int ?n" 1 ?s] by linarith
  have "y - x = sgn x * (of_int ?n * ?s - \<bar>x\<bar>)" unfolding y by (simp add: right_diff_distrib sgn_mult_abs)
  then have "\<bar>y - x\<bar> \<le> \<bar>of_int ?n * ?s - \<bar>x\<bar>\<bar>" by (simp add: abs_mult abs_sgn_eq)
  then have "\<bar>y - x\<bar> \<le> ?s / 2" using near by simp
  moreover have "on_grid p y"
  proof -
    have "y = of_int (sgn \<lfloor>x\<rfloor> * 0 + (if x = 0 then 0 else if 0 < x then ?n else - ?n)) * ?s" by (simp add: y sgn_if)
    then show ?thesis unfolding on_grid_def by blast
  qed
  moreover have "\<bar>y\<bar> < 10 ^ 28 * ?s"
  proof -
    have "\<bar>y\<bar> \<le> of_int ?n * ?s" using n0 by (simp add: y abs_mult abs_sgn_eq)
    moreover have "of_int ?n * ?s < 10 ^ 28 * ?s"
    proof (rule mult_strict_right_mono)
      show "(of_int ?n :: real) < 10 ^ 28" using n by (metis of_int_less_iff of_int_numeral of_int_power)
    qed simp
    ultimately show ?thesis by (rule le_less_trans)
  qed
  ultimately show ?thesis by blast
qed

lemma unquantized_far:
  assumes "quantized p x = None" shows "(10 ^ 28 - 1 / 2) * step_of p \<le> \<bar>x\<bar>"
proof -
  have "10 ^ 28 \<le> \<lfloor>\<bar>x\<bar> / step_of p + 1 / 2\<rfloor>" using assms by (auto simp: quantized_def Let_def split: if_splits)
  then have "(10 ^ 28 :: real) \<le> \<bar>x\<bar> / step_of p + 1 / 2" by (simp add: le_floor_iff)
  then have "(10 ^ 28 - 1 / 2 :: real) \<le> \<bar>x\<bar> / step_of p" by linarith
  then have "(10 ^ 28 - 1 / 2) * step_of p \<le> \<bar>x\<bar> / step_of p * step_of p" by (rule mult_right_mono) simp
  then show ?thesis using step_pos(1) [of p] by simp
qed

text \<open>A rounded value that counts as equal to another rounded one has its value.\<close>

lemma rounded_equal:
  assumes q: "quantized p x = Some y" and e: "is_equal (round_to_precision p u) (JFloat (Fin y)) (Some p)"
  shows "num_of (round_to_precision p u) = Some (Fin y)"
proof -
  have y: "on_grid p y" "\<bar>y\<bar> < 10 ^ 28 * step_of p" using quantized_bounds [OF q] by simp_all
  obtain n :: int where n: "y = of_int n * step_of p" using y(1) by (auto simp: on_grid_def)
  have "of_int \<bar>n\<bar> * step_of p < 10 ^ 28 * step_of p" using y(2) by (simp add: n abs_mult)
  then have "(of_int \<bar>n\<bar> :: real) < of_int (10 ^ 28)" by (simp only: mult_less_cancel_right_pos [OF step_pos(1)] of_int_power of_int_numeral)
  then have "\<bar>n\<bar> \<le> 10 ^ 28 - 1" by (simp only: of_int_less_iff)
  then have "(of_int \<bar>n\<bar> :: real) \<le> of_int (10 ^ 28 - 1)" by (simp only: of_int_le_iff)
  then have "of_int \<bar>n\<bar> * step_of p \<le> (10 ^ 28 - 1) * step_of p" by (intro mult_right_mono) simp_all
  then have small: "\<bar>y\<bar> \<le> (10 ^ 28 - 1) * step_of p" by (simp add: n abs_mult)
  have far: "\<not> \<bar>x' - y\<bar> < step_of p / 2" if "quantized p x' = None" for x'
  proof -
    have "\<bar>x'\<bar> - \<bar>y\<bar> \<le> \<bar>x' - y\<bar>" by simp
    moreover have "(10 ^ 28 - 1 / 2) * step_of p = (10 ^ 28 - 1) * step_of p + step_of p / 2" by (simp add: left_diff_distrib)
    ultimately show ?thesis using small unquantized_far [OF that] by linarith
  qed
  consider x' y' where "num_of u = Some (Fin x')" "quantized p x' = Some y'" "round_to_precision p u = JFloat (Fin y')"
    | x' where "num_of u = Some (Fin x')" "quantized p x' = None" "round_to_precision p u = u"
    | "\<forall>x'. num_of u \<noteq> Some (Fin x')" "round_to_precision p u = u"
    by (cases "num_of u"; cases "the (num_of u)"; cases "quantized p (case the (num_of u) of Fin x \<Rightarrow> x | _ \<Rightarrow> 0)") (auto simp: round_to_precision_def)
  then show ?thesis
  proof cases
    case 1
    have "y' = y \<or> \<bar>y' - y\<bar> < step_of p / 2" using e by (auto simp: 1(3) is_equal_def split: if_splits)
    then have "\<bar>y' - y\<bar> < step_of p" using step_pos(1) [of p] by (elim disjE) (simp, linarith)
    then have "y' = y" using grid_apart [of p y' y] quantized_bounds [OF 1(2)] y(1) by simp
    then show ?thesis by (simp add: 1(3))
  next
    case 2
    show ?thesis
    proof (cases u)
      case (JFloat f)
      then have u: "u = JFloat (Fin x')" using 2(1) by simp
      have "is_equal u (JFloat (Fin y)) (Some p)" using e 2(3) by simp
      then have "x' = y" using far [OF 2(2)] unfolding u by (auto simp: is_equal_def split: if_splits)
      then show ?thesis using 2 by simp
    qed (use e 2 in \<open>auto simp: is_equal_def split: if_splits\<close>)
  next
    case 3
    have False
    proof (cases u)
      case (JFloat f)
      then show ?thesis using e 3 by (cases f) (auto simp: is_equal_def split: if_splits)
    qed (use e 3 in \<open>auto simp: is_equal_def\<close>)
    then show ?thesis ..
  qed
qed

section \<open>Readings\<close>

text \<open>A reading of the source, with the two readings of the loop's clock made while it is handled.\<close>

record reading =
  rd_topic :: string
  rd_value :: json
  rd_signal :: string
  rd_precision :: "int option"
  rd_timestamp :: "fl option"
  rd_checked :: real
  rd_stamped :: real

record acquire_config =
  ac_by_exception :: bool
  ac_integrity :: real
  ac_source_time :: bool

text \<open>\<open>aq_latest\<close> and \<open>aq_published_at\<close> by topic; \<open>aq_batch\<close>: what was put in a batch so far, with the clock at which it was.\<close>

record acquisition =
  aq_latest :: "(string, json) dict"
  aq_published_at :: "(string, real) dict"
  aq_clock :: "source_clock option"
  aq_journal :: journal
  aq_batch :: "(string \<times> json \<times> real \<times> string \<times> real) list"

definition rounded :: "reading \<Rightarrow> json" where
  "rounded r = (case rd_precision r of Some p \<Rightarrow> round_to_precision p (rd_value r) | None \<Rightarrow> rd_value r)"

text \<open>The subject of a finding without the \<open>repr\<close> of the value it carries.\<close>

definition aside_subject :: "reading \<Rightarrow> (string \<times> json) list \<Rightarrow> (string, json) dict" where
  "aside_subject r rest = [(''signal_id'', JStr (rd_signal r)), (''topic'', JStr (rd_topic r))] @ rest"

text \<open>The time of the sample: \<open>None\<close> when its source timestamp is not finite.\<close>

definition sample_time :: "acquire_config \<Rightarrow> real \<Rightarrow> reading \<Rightarrow> real option" where
  "sample_time cf cycle r =
     (if ac_source_time cf
      then (case rd_timestamp r of None \<Rightarrow> Some cycle | Some (Fin t) \<Rightarrow> Some t | _ \<Rightarrow> None)
      else Some cycle)"

text \<open>Whether report by exception leaves the reading out.\<close>

definition unchanged :: "acquire_config \<Rightarrow> reading \<Rightarrow> acquisition \<Rightarrow> bool" where
  "unchanged cf r a =
     (ac_by_exception cf \<and>
      (case (map_of (aq_latest a) (rd_topic r), map_of (aq_published_at a) (rd_topic r)) of
         (Some v, Some sent_at) \<Rightarrow> rd_checked r - sent_at < ac_integrity cf \<and> is_equal v (rounded r) (rd_precision r)
       | _ \<Rightarrow> False))"

definition on_reading :: "journal_world \<Rightarrow> acquire_config \<Rightarrow> real \<Rightarrow> real \<Rightarrow> reading \<Rightarrow> acquisition \<Rightarrow> acquisition" where
  "on_reading w cf cycle received r a =
     (let a = a\<lparr>aq_clock := map_option (observe (rd_topic r) (rd_timestamp r) received) (aq_clock a)\<rparr>;
          aside = (\<lambda>reason rest. a\<lparr>aq_journal := snd (set_aside w (rd_signal r) reason (aside_subject r rest) False (aq_journal a))\<rparr>)
      in case sample_time cf cycle r of
           None \<Rightarrow> aside ''non_finite_timestamp'' []
         | Some t \<Rightarrow>
             if has_non_finite (rounded r) then aside ''non_finite'' [(''timestamp'', JFloat (Fin t))]
             else if unchanged cf r a then a
             else a\<lparr>aq_latest := AList.update (rd_topic r) (rounded r) (aq_latest a),
                    aq_published_at := AList.update (rd_topic r) (rd_stamped r) (aq_published_at a),
                    aq_batch := aq_batch a @ [(rd_topic r, rounded r, t, rd_signal r, rd_stamped r)]\<rparr>)"

definition on_readings :: "journal_world \<Rightarrow> acquire_config \<Rightarrow> real \<Rightarrow> real \<Rightarrow> reading list \<Rightarrow> acquisition \<Rightarrow> acquisition" where
  "on_readings w cf cycle received rs a = fold (on_reading w cf cycle received) rs a"

section \<open>Report by exception\<close>

text \<open>The last value put in a batch for a topic, and when.\<close>

definition last_sent :: "string \<Rightarrow> (string \<times> json \<times> real \<times> string \<times> real) list \<Rightarrow> (json \<times> real) option" where
  "last_sent k batch = map_of (rev (map (\<lambda>(topic, v, t, sid, at_clock). (topic, v, at_clock)) batch)) k"

lemma last_sent_snoc [simp]:
  "last_sent k (batch @ [(topic, v, t, sid, c)]) = (if topic = k then Some (v, c) else last_sent k batch)"
  by (simp add: last_sent_def)

text \<open>Polls with any clocks; the journal goes its own way. \<open>prec\<close>: the precision of the signal at a topic.\<close>

inductive acquire_life :: "journal_world \<Rightarrow> acquire_config \<Rightarrow> (string \<Rightarrow> int option) \<Rightarrow> acquisition \<Rightarrow> bool" for w cf prec where
  fresh: "acquire_life w cf prec \<lparr>aq_latest = [], aq_published_at = [], aq_clock = c, aq_journal = j, aq_batch = []\<rparr>"
| had_read: "acquire_life w cf prec a \<Longrightarrow> rd_precision r = prec (rd_topic r) \<Longrightarrow> acquire_life w cf prec (on_reading w cf cycle received r a)"
| journaled: "acquire_life w cf prec a \<Longrightarrow> acquire_life w cf prec (a\<lparr>aq_journal := j, aq_clock := c\<rparr>)"

definition rounded_at :: "int option \<Rightarrow> json \<Rightarrow> json" where
  "rounded_at precision v = (case precision of Some p \<Rightarrow> round_to_precision p v | None \<Rightarrow> v)"

definition acquire_inv :: "(string \<Rightarrow> int option) \<Rightarrow> acquisition \<Rightarrow> bool" where
  "acquire_inv prec a \<longleftrightarrow> (\<forall>k. last_sent k (aq_batch a) =
       (case (map_of (aq_latest a) k, map_of (aq_published_at a) k) of (Some v, Some c) \<Rightarrow> Some (v, c) | _ \<Rightarrow> None))
     \<and> (\<forall>k v. map_of (aq_latest a) k = Some v \<longrightarrow> (\<exists>raw. v = rounded_at (prec k) raw))"

lemma rounded_alt: "rounded r = rounded_at (rd_precision r) (rd_value r)"
  by (simp add: rounded_def rounded_at_def)

lemma on_reading_cases:
  obtains "sample_time cf cycle r = None \<or> has_non_finite (rounded r)" "aq_latest (on_reading w cf cycle received r a) = aq_latest a"
      "aq_published_at (on_reading w cf cycle received r a) = aq_published_at a" "aq_batch (on_reading w cf cycle received r a) = aq_batch a"
  | "unchanged cf r a" "aq_latest (on_reading w cf cycle received r a) = aq_latest a"
      "aq_published_at (on_reading w cf cycle received r a) = aq_published_at a" "aq_batch (on_reading w cf cycle received r a) = aq_batch a"
  | t where "\<not> unchanged cf r a" "aq_latest (on_reading w cf cycle received r a) = AList.update (rd_topic r) (rounded r) (aq_latest a)"
      "aq_published_at (on_reading w cf cycle received r a) = AList.update (rd_topic r) (rd_stamped r) (aq_published_at a)"
      "aq_batch (on_reading w cf cycle received r a) = aq_batch a @ [(rd_topic r, rounded r, t, rd_signal r, rd_stamped r)]"
proof -
  have u: "unchanged cf r (a\<lparr>aq_clock := c\<rparr>) = unchanged cf r a" for c by (simp add: unchanged_def)
  show thesis
  proof (cases "sample_time cf cycle r")
    case None
    then show thesis by (intro that(1)) (simp_all add: on_reading_def Let_def)
  next
    case (Some t)
    show thesis
    proof (cases "has_non_finite (rounded r)")
      case True
      then show thesis using Some by (intro that(1)) (simp_all add: on_reading_def Let_def)
    next
      case fin: False
      show thesis
      proof (cases "unchanged cf r a")
        case True
        then show thesis using Some fin by (intro that(2)) (simp_all add: on_reading_def Let_def u)
      next
        case False
        then show thesis using Some fin by (intro that(3) [of t]) (simp_all add: on_reading_def Let_def u)
      qed
    qed
  qed
qed

lemma on_reading_inv:
  assumes "acquire_inv prec a" "rd_precision r = prec (rd_topic r)"
  shows "acquire_inv prec (on_reading w cf cycle received r a)"
  using assms
  by (cases rule: on_reading_cases [of cf cycle r w received a])
    (auto simp: acquire_inv_def rounded_alt split: if_splits option.splits)

lemma acquire_life_inv: "acquire_life w cf prec a \<Longrightarrow> acquire_inv prec a"
proof (induction rule: acquire_life.induct)
  case (fresh c j)
  then show ?case by (simp add: acquire_inv_def last_sent_def)
next
  case (had_read a r cycle received)
  then show ?case by (intro on_reading_inv)
next
  case (journaled a j c)
  then show ?case by (simp add: acquire_inv_def)
qed

text \<open>C37: What is published tracks the source. However readings, clocks and publishes went before, once a reading has been
  handled that is not set aside, the value published last for its topic is the reading's or counts as equal to it, and was
  published now or less than the integrity interval ago. A number with a precision that fits in 28 digits is then published
  with its rounded value, at most half a step away.\<close>

theorem published_tracks_source:
  assumes "acquire_life w cf prec a" "rd_precision r = prec (rd_topic r)"
    and "sample_time cf cycle r \<noteq> None" "\<not> has_non_finite (rounded r)"
  shows "\<exists>v c. last_sent (rd_topic r) (aq_batch (on_reading w cf cycle received r a)) = Some (v, c)
     \<and> (v = rounded r \<or> is_equal v (rounded r) (rd_precision r))
     \<and> (c = rd_stamped r \<or> ac_by_exception cf \<and> rd_checked r - c < ac_integrity cf)
     \<and> (\<forall>p x y. rd_precision r = Some p \<and> num_of (rd_value r) = Some (Fin x) \<and> quantized p x = Some y \<longrightarrow>
          num_of v = Some (Fin y) \<and> \<bar>y - x\<bar> \<le> step_of p / 2)"
proof -
  have inv: "acquire_inv prec a" by (rule acquire_life_inv [OF assms(1)])
  have exact: "rounded r = JFloat (Fin y) \<and> \<bar>y - x\<bar> \<le> step_of p / 2"
    if "rd_precision r = Some p" "num_of (rd_value r) = Some (Fin x)" "quantized p x = Some y" for p x y
    using that quantized_bounds [OF that(3)] by (simp add: rounded_def round_to_precision_def)
  show ?thesis
  proof (cases rule: on_reading_cases [of cf cycle r w received a])
    case 1
    then show ?thesis using assms(3,4) by blast
  next
    case 2
    then obtain v c where v: "map_of (aq_latest a) (rd_topic r) = Some v" "map_of (aq_published_at a) (rd_topic r) = Some c"
      "ac_by_exception cf" "rd_checked r - c < ac_integrity cf" "is_equal v (rounded r) (rd_precision r)"
      by (auto simp: unchanged_def split: option.splits)
    obtain raw where raw: "v = rounded_at (prec (rd_topic r)) raw" using inv v(1) unfolding acquire_inv_def by blast
    have "last_sent (rd_topic r) (aq_batch a) = Some (v, c)" using inv v(1,2) unfolding acquire_inv_def by simp
    moreover have "num_of v = Some (Fin y) \<and> \<bar>y - x\<bar> \<le> step_of p / 2"
      if q: "rd_precision r = Some p" "num_of (rd_value r) = Some (Fin x)" "quantized p x = Some y" for p x y
    proof -
      have "v = round_to_precision p raw" using raw assms(2) q(1) by (simp add: rounded_at_def split: option.splits)
      then have "num_of v = Some (Fin y)" using rounded_equal [OF q(3), of raw] v(5) exact [OF q] q(1) by simp
      then show ?thesis using exact [OF q] by simp
    qed
    ultimately show ?thesis using 2 v by auto
  next
    case (3 t)
    then show ?thesis using exact by (auto simp: 3)
  qed
qed

definition example_reading :: "real \<Rightarrow> real \<Rightarrow> reading" where
  "example_reading x now = \<lparr>rd_topic = ''t'', rd_value = JFloat (Fin x), rd_signal = ''s'', rd_precision = Some 0, rd_timestamp = None,
     rd_checked = now, rd_stamped = now\<rparr>"

definition example_acquire :: acquire_config where
  "example_acquire = \<lparr>ac_by_exception = True, ac_integrity = 60, ac_source_time = False\<rparr>"

text \<open>2.6 is published as 3, and 3.4 then counts as unchanged.\<close>

theorem published_tracks_source_witness:
  "\<exists>a v. acquire_life example_journal_world example_acquire (\<lambda>k. Some 0) a
     \<and> last_sent ''t'' (aq_batch (on_reading example_journal_world example_acquire 0 0 (example_reading (17 / 5) 2) a)) = Some (v, 1)
     \<and> num_of v = Some (Fin 3)"
proof -
  let ?w = example_journal_world and ?cf = example_acquire
  let ?a0 = "\<lparr>aq_latest = [], aq_published_at = [], aq_clock = None, aq_journal = mk_journal None, aq_batch = []\<rparr>"
  let ?a = "on_reading ?w ?cf 0 0 (example_reading (13 / 5) 1) ?a0"
  have q: "quantized 0 (13 / 5) = Some 3" "quantized 0 (17 / 5) = Some 3" by (simp_all add: quantized_def step_of_def Let_def)
  have r: "rounded (example_reading (13 / 5) c) = JFloat (Fin 3)" "rounded (example_reading (17 / 5) c) = JFloat (Fin 3)" for c
    by (simp_all add: rounded_def example_reading_def round_to_precision_def q)
  have l: "acquire_life ?w ?cf (\<lambda>k. Some 0) ?a"
    by (rule acquire_life.had_read [OF acquire_life.fresh]) (simp add: example_reading_def)
  have a: "aq_latest ?a = [(''t'', JFloat (Fin 3))]" "aq_published_at ?a = [(''t'', 1)]" "aq_batch ?a = [(''t'', JFloat (Fin 3), 0, ''s'', 1)]"
    by (simp_all add: on_reading_def sample_time_def example_acquire_def unchanged_def Let_def r) (simp_all add: example_reading_def)
  define A where "A = ?a"
  note a = a [folded A_def] and l = l [folded A_def]
  have e: "rd_topic (example_reading x now) = ''t''" "rd_precision (example_reading x now) = Some 0"
    "rd_timestamp (example_reading x now) = None" "rd_checked (example_reading x now) = now"
    "rd_value (example_reading x now) = JFloat (Fin x)" for x now by (simp_all add: example_reading_def)
  have cf: "ac_by_exception ?cf" "ac_integrity ?cf = 60" "\<not> ac_source_time ?cf" by (simp_all add: example_acquire_def)
  have u: "unchanged ?cf (example_reading (17 / 5) 2) A" by (simp add: unchanged_def a e cf r is_equal_def)
  have t: "sample_time ?cf 0 (example_reading (17 / 5) 2) = Some 0" "\<not> has_non_finite (rounded (example_reading (17 / 5) 2))"
    by (simp_all add: sample_time_def cf r)
  have same: "aq_batch (on_reading ?w ?cf 0 0 (example_reading (17 / 5) 2) A) = aq_batch A"
    by (cases rule: on_reading_cases [of ?cf 0 "example_reading (17 / 5) 2" ?w 0 A]) (use u t in simp_all)
  obtain v c where v: "last_sent ''t'' (aq_batch (on_reading ?w ?cf 0 0 (example_reading (17 / 5) 2) A)) = Some (v, c)"
    "\<forall>p x y. Some 0 = Some p \<and> Some (Fin (17 / 5)) = Some (Fin x) \<and> quantized p x = Some y \<longrightarrow> num_of v = Some (Fin y) \<and> \<bar>y - x\<bar> \<le> step_of p / 2"
    using published_tracks_source [OF l, of "example_reading (17 / 5) 2" 0 0] t unfolding e num_of.simps by auto
  have "num_of v = Some (Fin 3)" using v(2) q(2) by blast
  moreover have "c = 1" using v(1) unfolding same a by (simp add: last_sent_def)
  ultimately show ?thesis using l v(1) by blast
qed

end
