(* ===== verification/Chaski_Connector.thy ===== *)
theory Chaski_Connector
  imports Chaski_Acquire Chaski_Executor Chaski_Catalogue_Life
begin

text \<open>
  \<open>ConnectorService\<close> of \<open>src/chaski/connector.py\<close> around its catalogue: discovery, the targets it reads, the signals it writes,
  and one signal write. The driver's answers, \<open>repr\<close> and the precision of a signal are arguments; a handle is an
  opaque JSON value.
\<close>

section \<open>Discovery and targets\<close>

definition HEARTBEAT_TAG_SOURCE :: string where "HEARTBEAT_TAG_SOURCE = ''__heartbeat__''"
definition IS_CONNECTED_TAG_SOURCE :: string where "IS_CONNECTED_TAG_SOURCE = ''__is_connected__''"

record target =
  tg_signal :: signal_record
  tg_handle :: "json option"
  tg_node :: string
  tg_context :: "string list"

record connector =
  cn_catalogue :: catalogue
  cn_bindings :: binding_table
  cn_handles :: "(string, json) dict"
  cn_targets :: "target list"
  cn_writes :: "(string, string) dict"

definition synthetic_tag :: "string \<Rightarrow> string \<Rightarrow> string \<Rightarrow> data_tag" where
  "synthetic_tag source name purpose =
     \<lparr>dt_id = [], dt_name = name, dt_source = source, dt_writable = False, dt_readable = True, dt_type = JStr ''boolean'',
      dt_stale = False, dt_meta = [(''synthetic'', JBool True), (''purpose'', JStr purpose)]\<rparr>"

definition synthetic_tag_ids :: "catalogue \<Rightarrow> string list" where
  "synthetic_tag_ids c = List.map_filter (tag_id c) [HEARTBEAT_TAG_SOURCE, IS_CONNECTED_TAG_SOURCE]"

definition target_of :: "connector \<Rightarrow> binding \<Rightarrow> target option" where
  "target_of n b =
     (let t = (\<lambda>h. \<lparr>tg_signal = bd_signal b, tg_handle = h, tg_node = bd_node b, tg_context = bd_context b\<rparr>)
      in if \<not> sg_published (bd_signal b) then None
         else if bd_tag b \<in> set (synthetic_tag_ids (cn_catalogue n)) then Some (t None)
         else map_option (\<lambda>h. t (Some h)) (map_of (cn_handles n) (bd_tag b)))"

definition update_targets :: "connector \<Rightarrow> connector" where
  "update_targets n = n\<lparr>cn_targets := List.map_filter (target_of n) (map snd (bt_bindings (cn_bindings n)))\<rparr>"

text \<open>\<open>_update_writes\<close>: the tag written at each path, the last binding of a path winning. A path is the rest of the topic.\<close>

definition update_writes :: "connector \<Rightarrow> connector" where
  "update_writes n =
     n\<lparr>cn_writes := fold (\<lambda>b d. if bd_tag b \<in> set (synthetic_tag_ids (cn_catalogue n)) \<or> bd_context b = [] then d
                                else AList.update (join ''/'' (bd_context b)) (bd_tag b) d)
                      (map snd (bt_bindings (cn_bindings n))) []\<rparr>"

definition connector_bindings_changed :: "connector \<Rightarrow> connector" where
  "connector_bindings_changed n = update_writes (update_targets n)"

text \<open>\<open>_declare_discovery\<close>: the tags discovered (none when discovery failed) with the synthetic ones; the handles by tag id.\<close>

definition handles_by_id :: "catalogue \<Rightarrow> (string \<times> json) list \<Rightarrow> (string, json) dict" where
  "handles_by_id c hs = fold (\<lambda>(source, h) d. case tag_id c source of Some i \<Rightarrow> AList.update i h d | None \<Rightarrow> d) hs []"

definition discovered_tags :: "(string, data_tag) dict \<Rightarrow> (string, data_tag) dict" where
  "discovered_tags tags =
     AList.update IS_CONNECTED_TAG_SOURCE (synthetic_tag IS_CONNECTED_TAG_SOURCE ''is_connected'' ''source-connectivity'')
       (AList.update HEARTBEAT_TAG_SOURCE (synthetic_tag HEARTBEAT_TAG_SOURCE ''heartbeat'' ''liveness'') tags)"

definition declare_discovery :: "(string \<Rightarrow> string) \<Rightarrow> (string, data_tag) dict \<Rightarrow> (string \<times> json) list \<Rightarrow> connector \<Rightarrow> connector" where
  "declare_discovery mint tags handles n =
     (let c = declare_tags mint (discovered_tags tags) (cn_catalogue n)
      in update_targets (n\<lparr>cn_catalogue := c, cn_handles := handles_by_id c handles\<rparr>))"

section \<open>Signal writes\<close>

datatype write_fate = Written | Unsupported string | SourceGone string | SourceRefused string
datatype read_fate = Readings "((string \<times> string list) \<times> json) list" | ReadFailed string

text \<open>The calls made to the driver, in order.\<close>

datatype driver_call = WriteCall target json write_fate | ReadCall target read_fate

record driver =
  dv_write :: "target \<Rightarrow> json \<Rightarrow> write_fate"
  dv_read :: "target \<Rightarrow> read_fate"

definition outcome_of :: "string \<Rightarrow> (string, json) dict \<Rightarrow> result" where
  "outcome_of outcome rest = Some ((''outcome'', JStr outcome) # rest)"

definition read_back :: "target \<Rightarrow> ((string \<times> string list) \<times> json) list \<Rightarrow> json option" where
  "read_back t rs = map_option snd (List.find (\<lambda>r. fst r = (tg_node t, tg_context t)) rs)"

text \<open>\<open>_apply_write\<close>; the last component says whether the source was found gone.\<close>

definition apply_write :: "driver \<Rightarrow> (json \<Rightarrow> string) \<Rightarrow> (string \<Rightarrow> int option) \<Rightarrow> string \<Rightarrow> target \<Rightarrow> json
    \<Rightarrow> handler_outcome \<times> driver_call list \<times> bool" where
  "apply_write dv repr precision path t v =
     (let f = dv_write dv t v; call = WriteCall t v f
      in case f of
           Unsupported e \<Rightarrow> (Rejected 501 (''unsupported: '' @ e) (outcome_of ''unsupported'' []), [call], False)
         | SourceGone e \<Rightarrow> (Rejected 503 (''failed: the source is not connected: '' @ e) (outcome_of ''failed'' []), [call], True)
         | SourceRefused e \<Rightarrow> (Rejected 502 (take 300 (''failed: the source refused the write: '' @ e)) (outcome_of ''failed'' []), [call], False)
         | Written \<Rightarrow>
             let calls = [call, ReadCall t (dv_read dv t)]
             in (case dv_read dv t of
                   ReadFailed e \<Rightarrow>
                     (Rejected 504 (take 300 (''unknown: written, but reading it back failed: '' @ e)) (outcome_of ''unknown'' [(''requested'', v)]),
                      calls, False)
                 | Readings rs \<Rightarrow>
                     (case read_back t rs of
                        None \<Rightarrow>
                          (Rejected 504 ''unknown: written, but the source returned no value on read-back'' (outcome_of ''unknown'' [(''requested'', v)]),
                           calls, False)
                      | Some got \<Rightarrow>
                          if \<not> is_equal got v (precision (sg_id (tg_signal t)))
                          then (Rejected 409 (''failed: wrote '' @ repr v @ '', read back '' @ repr got)
                                  (outcome_of ''failed'' [(''requested'', v), (''value'', got)]), calls, False)
                          else (ReturnedResult (''applied: '' @ path @ '' = '' @ repr got) [(''outcome'', JStr ''applied''), (''value'', got)],
                                calls, False))))"

text \<open>\<open>SignalWrite.apply\<close> without a value of its own.\<close>

definition write_apply :: "driver \<Rightarrow> (json \<Rightarrow> string) \<Rightarrow> (string \<Rightarrow> int option) \<Rightarrow> command \<Rightarrow> target \<Rightarrow> handler_outcome \<times> driver_call list \<times> bool" where
  "write_apply dv repr precision c t =
     (case map_of (c_params c) ''value'' of
        None \<Rightarrow> (Rejected 422 ''refused: the command carries no value'' (outcome_of ''refused'' []), [], False)
      | Some v \<Rightarrow> apply_write dv repr precision (c_path c) t v)"

text \<open>\<open>_write_signal\<close>, with the default \<open>handle_signal_write\<close>.\<close>

definition write_signal :: "driver \<Rightarrow> (json \<Rightarrow> string) \<Rightarrow> (string \<Rightarrow> int option) \<Rightarrow> connector \<Rightarrow> string \<Rightarrow> string \<Rightarrow> command
    \<Rightarrow> handler_outcome \<times> driver_call list \<times> bool" where
  "write_signal dv repr precision n i path c =
     (let tag = Option.bind (source_for_tag (cn_catalogue n) i) (map_of (ca_tags (cn_catalogue n)))
      in case (bindings_for i (cn_bindings n), tag) of
           (b # _, Some t) \<Rightarrow>
             if \<not> dt_writable t then (Rejected 422 (''refused: tag '' @ dt_name t @ '' is read-only'') (outcome_of ''refused'' []), [], False)
             else (case map_of (cn_handles n) i of
                     None \<Rightarrow> (Rejected 503 (''failed: tag '' @ dt_name t @ '' is not available at the source'') (outcome_of ''failed'' []), [], False)
                   | Some h \<Rightarrow> write_apply dv repr precision c
                       \<lparr>tg_signal = bd_signal b, tg_handle = Some h, tg_node = bd_node b, tg_context = bd_context b\<rparr>)
         | _ \<Rightarrow> (Rejected 404 (''refused: '' @ path @ '' is no longer bound here'') (outcome_of ''refused'' []), [], False))"

section \<open>What an answer says\<close>

definition is_writable_target :: "connector \<Rightarrow> string \<Rightarrow> target \<Rightarrow> bool" where
  "is_writable_target n i t \<longleftrightarrow>
     (\<exists>b source tag h. b \<in> set (bindings_for i (cn_bindings n)) \<and> source_for_tag (cn_catalogue n) i = Some source
        \<and> map_of (ca_tags (cn_catalogue n)) source = Some tag \<and> dt_writable tag \<and> map_of (cn_handles n) i = Some h
        \<and> t = \<lparr>tg_signal = bd_signal b, tg_handle = Some h, tg_node = bd_node b, tg_context = bd_context b\<rparr>)"

definition answer_truthful :: "(json \<Rightarrow> int option \<Rightarrow> bool) \<Rightarrow> (string \<Rightarrow> int option) \<Rightarrow> target \<Rightarrow> json \<Rightarrow> write_fate \<Rightarrow> driver_call list
    \<Rightarrow> bool \<Rightarrow> int \<Rightarrow> result \<Rightarrow> bool" where
  "answer_truthful same precision t v f reads gone code res \<longleftrightarrow>
     (code = 200 \<longleftrightarrow> (\<exists>rs got. reads = [ReadCall t (Readings rs)] \<and> read_back t rs = Some got \<and> same got (precision (sg_id (tg_signal t)))))
     \<and> (code = 409 \<longleftrightarrow> (\<exists>rs got. reads = [ReadCall t (Readings rs)] \<and> read_back t rs = Some got \<and> \<not> same got (precision (sg_id (tg_signal t)))))
     \<and> (code = 504 \<longleftrightarrow> (\<exists>e. reads = [ReadCall t (ReadFailed e)]) \<or> (\<exists>rs. reads = [ReadCall t (Readings rs)] \<and> read_back t rs = None))
     \<and> (reads \<noteq> [] \<longleftrightarrow> f = Written) \<and> (code = 501 \<longleftrightarrow> (\<exists>e. f = Unsupported e)) \<and> (code = 502 \<longleftrightarrow> (\<exists>e. f = SourceRefused e))
     \<and> (code = 503 \<longleftrightarrow> gone) \<and> (gone \<longleftrightarrow> (\<exists>e. f = SourceGone e))
     \<and> (\<forall>rs got. reads = [ReadCall t (Readings rs)] \<and> read_back t rs = Some got \<longrightarrow> Option.bind res (\<lambda>d. map_of d ''value'') = Some got)"

lemma apply_write_truthful:
  assumes "apply_write dv repr precision path t v = (h, cs, gone)" "run_handler h = (code, msg, res)"
  shows "\<exists>f reads. cs = WriteCall t v f # reads \<and> answer_truthful (\<lambda>got. is_equal got v) precision t v f reads gone code res"
  using assms
  by (auto simp: apply_write_def Let_def run_handler_def answer_truthful_def outcome_of_def ACK_OK_def
        split: write_fate.splits read_fate.splits option.splits if_splits)

text \<open>C38: A signal write says what happened. Nothing but the command's value is written, once, to a signal bound to a writable tag
  the source has, and the answer goes by what the driver did: 200 exactly when the value was read back and counts as equal,
  409 when it reads otherwise, 504 when it was written and not read back, 502 when the source refused it, 503 when the source is
  gone, 501 when the driver does not write; the result carries the value read. An answer without a driver call is 404, 422 or
  503. A write that gives up its target is no longer bound (404), read-only or without value (422) or not available (503).\<close>

theorem write_answer_truthful:
  assumes "write_signal dv repr precision n i path c = (h, cs, gone)" "run_handler h = (code, msg, res)"
  shows "cs = [] \<and> \<not> gone \<and> code \<in> {404, 422, 503}
     \<or> (\<exists>t v f reads. cs = WriteCall t v f # reads \<and> map_of (c_params c) ''value'' = Some v \<and> is_writable_target n i t
          \<and> answer_truthful (\<lambda>got. is_equal got v) precision t v f reads gone code res)"
proof (cases "\<exists>t v. is_writable_target n i t \<and> map_of (c_params c) ''value'' = Some v
     \<and> (h, cs, gone) = apply_write dv repr precision (c_path c) t v")
  case True
  then obtain t v where t: "is_writable_target n i t" "map_of (c_params c) ''value'' = Some v"
    "apply_write dv repr precision (c_path c) t v = (h, cs, gone)" by force
  from apply_write_truthful [OF t(3) assms(2)] t(1,2) show ?thesis by blast
next
  case False
  then have "cs = [] \<and> \<not> gone \<and> (\<exists>m r. h = Rejected 404 m r \<or> h = Rejected 422 m r \<or> h = Rejected 503 m r)"
    using assms(1)
    by (fastforce simp: write_signal_def write_apply_def is_writable_target_def Let_def bind_eq_Some_conv
          split: option.splits list.splits if_splits)
  then show ?thesis using assms(2) by (auto simp: run_handler_def)
qed

definition example_bound_signal :: signal_record where
  "example_bound_signal = \<lparr>sg_tag = Some ''i'', sg_id = ''s'', sg_published = True\<rparr>"

definition example_binding :: binding where
  "example_binding = \<lparr>bd_tag = ''i'', bd_node = ''n'', bd_context = [''p''], bd_signal = example_bound_signal\<rparr>"

definition example_connector :: connector where
  "example_connector = \<lparr>cn_catalogue = (mk_catalogue ''c'' [])\<lparr>ca_tags := [(''reg1'', \<lparr>dt_id = ''i'', dt_name = ''speed'', dt_source = ''reg1'',
       dt_writable = True, dt_readable = True, dt_type = JStr ''int'', dt_stale = False, dt_meta = []\<rparr>)]\<rparr>,
     cn_bindings = \<lparr>bt_bindings = [(''t'', example_binding)], bt_by_tag = [(''i'', [example_binding])]\<rparr>,
     cn_handles = [(''i'', JInt 40001)], cn_targets = [], cn_writes = []\<rparr>"

definition example_write :: command where
  "example_write = \<lparr>c_path = ''p'', c_verb = [], c_contract = ''_Write'', c_params = [(''value'', JInt 5)], c_correlation = ''k'',
     c_expires_at = None, c_actor_id = [], c_actor_label = [], c_actor_kind = [], c_ts = 0, c_offset = 1, c_operation = [], c_on_behalf_of = None\<rparr>"

text \<open>The source takes the 5 and still reads 4.\<close>

definition example_driver :: driver where
  "example_driver = \<lparr>dv_write = (\<lambda>t v. Written), dv_read = (\<lambda>t. Readings [((''n'', [''p'']), JInt 4)])\<rparr>"

theorem write_answer_truthful_witness:
  "\<exists>t reads res. answer_truthful (\<lambda>got. is_equal got (JInt 5)) (\<lambda>_. None) t (JInt 5) Written reads False 409 res
     \<and> is_writable_target example_connector ''i'' t \<and> tg_handle t = Some (JInt 40001)"
proof -
  obtain h cs gone where w: "write_signal example_driver (\<lambda>_. []) (\<lambda>_. None) example_connector ''i'' ''p'' example_write = (h, cs, gone)"
    by (cases "write_signal example_driver (\<lambda>_. []) (\<lambda>_. None) example_connector ''i'' ''p'' example_write") blast
  obtain code msg res where r: "run_handler h = (code, msg, res)" by (cases "run_handler h") blast
  have k: "\<exists>t reads. cs = WriteCall t (JInt 5) Written # reads \<and> tg_handle t = Some (JInt 40001)" "code = 409" "\<not> gone"
    using w r by (auto simp: write_signal_def example_connector_def mk_catalogue_def source_for_tag_def bindings_for_def
        write_apply_def example_write_def apply_write_def example_driver_def Let_def read_back_def example_binding_def
        is_equal_def run_handler_def)
  obtain t reads where t: "cs = WriteCall t (JInt 5) Written # reads" "tg_handle t = Some (JInt 40001)" using k(1) by blast
  show ?thesis using write_answer_truthful [OF w r] k(2,3) t by auto
qed

section \<open>Targets over the life of a connector\<close>

datatype connector_event =
    Discovered "string \<Rightarrow> string" "(string, data_tag) dict" "(string \<times> json) list"
  | SignalMessage string "signal_record option"

fun connector_step :: "connector_event \<Rightarrow> connector \<Rightarrow> connector" where
  "connector_step (Discovered mint tags handles) n = declare_discovery mint tags handles n"
| "connector_step (SignalMessage topic signal) n =
     (case on_signal_record (cn_catalogue n) topic signal (cn_bindings n) of
        (new, t) \<Rightarrow> if new then connector_bindings_changed (n\<lparr>cn_bindings := t\<rparr>) else n\<lparr>cn_bindings := t\<rparr>)"

fun connector_events_ok :: "connector_event list \<Rightarrow> connector \<Rightarrow> bool" where
  "connector_events_ok [] n = True"
| "connector_events_ok (e # es) n =
     ((case e of
         Discovered mint tags handles \<Rightarrow> op_ok (cn_catalogue n) (Discovers mint (discovered_tags tags)) \<and> distinct (map fst handles)
       | SignalMessage topic signal \<Rightarrow> True) \<and> connector_events_ok es (connector_step e n))"

definition mk_connector :: "catalogue \<Rightarrow> connector" where
  "mk_connector c = \<lparr>cn_catalogue = c, cn_bindings = \<lparr>bt_bindings = [], bt_by_tag = []\<rparr>, cn_handles = [], cn_targets = [], cn_writes = []\<rparr>"

text \<open>The handles of the last discovery, by source.\<close>

definition discovered_handles :: "connector_event list \<Rightarrow> (string, json) dict" where
  "discovered_handles es = fold (\<lambda>e hs. case e of Discovered mint tags handles \<Rightarrow> handles | SignalMessage topic signal \<Rightarrow> hs) es []"

definition synthetic_sources :: "string set" where
  "synthetic_sources = {HEARTBEAT_TAG_SOURCE, IS_CONNECTED_TAG_SOURCE}"

text \<open>What to read for a binding, given the handles by source.\<close>

definition wanted_target :: "catalogue \<Rightarrow> (string, json) dict \<Rightarrow> binding \<Rightarrow> target \<Rightarrow> bool" where
  "wanted_target c handles b t \<longleftrightarrow> sg_published (bd_signal b)
     \<and> (\<exists>source. source_for_tag c (bd_tag b) = Some source
          \<and> (if source \<in> synthetic_sources then tg_handle t = None else tg_handle t = map_of handles source \<and> tg_handle t \<noteq> None))
     \<and> tg_signal t = bd_signal b \<and> tg_node t = bd_node b \<and> tg_context t = bd_context b"

definition connector_inv :: "(string, json) dict \<Rightarrow> connector \<Rightarrow> bool" where
  "connector_inv handles n \<longleftrightarrow> catalogue_ok (cn_catalogue n) \<and> bindings_inv (cn_catalogue n) (cn_bindings n)
     \<and> (\<forall>i h. map_of (cn_handles n) i = Some h \<longleftrightarrow> (\<exists>source. tag_id (cn_catalogue n) source = Some i \<and> map_of handles source = Some h))
     \<and> cn_targets n = List.map_filter (target_of n) (map snd (bt_bindings (cn_bindings n)))"

lemma handles_by_id_get:
  assumes "catalogue_ok c" "distinct (map fst hs)"
  shows "map_of (handles_by_id c hs) i = Some h \<longleftrightarrow> (\<exists>source. tag_id c source = Some i \<and> map_of hs source = Some h)"
proof -
  have "map_of (fold (\<lambda>(source, h) d. case tag_id c source of Some i \<Rightarrow> AList.update i h d | None \<Rightarrow> d) hs d) i = Some h \<longleftrightarrow>
      (\<exists>source. tag_id c source = Some i \<and> map_of hs source = Some h)
      \<or> (\<forall>source. tag_id c source = Some i \<longrightarrow> map_of hs source = None) \<and> map_of d i = Some h" for d
    using assms(2)
  proof (induction hs arbitrary: d)
    case (Cons x hs)
    obtain s g where x: "x = (s, g)" by (cases x)
    have new: "map_of hs s = None" using Cons.prems x by (simp add: map_of_eq_None_iff)
    have IH: "map_of (fold (\<lambda>(source, h) d. case tag_id c source of Some i \<Rightarrow> AList.update i h d | None \<Rightarrow> d) hs d) i = Some h \<longleftrightarrow>
      (\<exists>source. tag_id c source = Some i \<and> map_of hs source = Some h)
      \<or> (\<forall>source. tag_id c source = Some i \<longrightarrow> map_of hs source = None) \<and> map_of d i = Some h" for d
      using Cons by simp
    show ?case
    proof (cases "tag_id c s = Some i")
      case True
      have one: "tag_id c s' = Some i \<longleftrightarrow> s' = s" for s' using catalogue_ids.one_source [OF assms(1) True] True by blast
      show ?thesis by (simp add: x one IH new) (simp add: True)
    next
      case False
      then have "map_of ((s, g) # hs) s' = map_of hs s'" if "tag_id c s' = Some i" for s' using that by auto
      then have "(\<exists>source. tag_id c source = Some i \<and> map_of ((s, g) # hs) source = Some h) \<longleftrightarrow> (\<exists>source. tag_id c source = Some i \<and> map_of hs source = Some h)"
        "(\<forall>source. tag_id c source = Some i \<longrightarrow> map_of ((s, g) # hs) source = None) \<longleftrightarrow> (\<forall>source. tag_id c source = Some i \<longrightarrow> map_of hs source = None)"
        by metis+
      then show ?thesis using False unfolding x by (cases "tag_id c s") (simp_all only: fold_simps comp_apply prod.case option.case IH, simp_all)
    qed
  qed simp
  then show ?thesis unfolding handles_by_id_def by simp
qed

lemma synthetic_iff: "i \<in> set (synthetic_tag_ids c) \<longleftrightarrow> (\<exists>s \<in> synthetic_sources. tag_id c s = Some i)"
  by (auto simp: synthetic_tag_ids_def synthetic_sources_def List.map_filter_def split: option.splits)

lemma target_of_wanted:
  assumes "connector_inv handles n" "(k, b) \<in> set (bt_bindings (cn_bindings n))"
  shows "target_of n b = Some t \<longleftrightarrow> wanted_target (cn_catalogue n) handles b t"
proof -
  let ?c = "cn_catalogue n"
  have ok: "catalogue_ok ?c" using assms(1) by (simp add: connector_inv_def)
  obtain s where s: "source_for_tag ?c (bd_tag b) = Some s" using assms unfolding connector_inv_def bindings_inv_def by blast
  then have id: "tag_id ?c s = Some (bd_tag b)" using catalogue_ids.inverse [OF ok] by blast
  have "s = s'" if "tag_id ?c s' = Some (bd_tag b)" for s' using catalogue_ids.one_source [OF ok id that] .
  then have syn: "bd_tag b \<in> set (synthetic_tag_ids ?c) \<longleftrightarrow> s \<in> synthetic_sources" using id unfolding synthetic_iff by blast
  have "map_of (cn_handles n) (bd_tag b) = Some h \<longleftrightarrow> map_of handles s = Some h" for h
    using assms(1) id catalogue_ids.one_source [OF ok id] unfolding connector_inv_def by metis
  then have "map_of (cn_handles n) (bd_tag b) = map_of handles s" by (metis not_None_eq)
  then show ?thesis
    unfolding target_of_def wanted_target_def syn Let_def
    by (cases t; cases "map_of handles s") (auto simp: s)
qed

lemma targets_wanted:
  assumes "connector_inv handles n"
  shows "t \<in> set (cn_targets n) \<longleftrightarrow> (\<exists>(k, b) \<in> set (bt_bindings (cn_bindings n)). wanted_target (cn_catalogue n) handles b t)"
proof -
  have "cn_targets n = List.map_filter (target_of n) (map snd (bt_bindings (cn_bindings n)))" using assms by (simp add: connector_inv_def)
  then have "t \<in> set (cn_targets n) \<longleftrightarrow> (\<exists>(k, b) \<in> set (bt_bindings (cn_bindings n)). target_of n b = Some t)"
    by (force simp: List.map_filter_def)
  then show ?thesis using target_of_wanted [OF assms] by blast
qed

lemma target_of_targets [simp]: "target_of (n\<lparr>cn_targets := ts\<rparr>) = target_of n" "target_of (n\<lparr>cn_bindings := t\<rparr>) = target_of n"
  "target_of (n\<lparr>cn_writes := d\<rparr>) = target_of n"
  by (intro ext, simp add: target_of_def)+

lemma connector_step_inv:
  assumes "connector_inv handles n" "connector_events_ok (e # es) n"
  shows "connector_inv (case e of Discovered mint tags hs \<Rightarrow> hs | SignalMessage topic signal \<Rightarrow> handles) (connector_step e n)"
proof (cases e)
  case (Discovered mint tags hs)
  let ?c = "declare_tags mint (discovered_tags tags) (cn_catalogue n)"
  have op: "op_ok (cn_catalogue n) (Discovers mint (discovered_tags tags))" "distinct (map fst hs)" using assms(2) Discovered by simp_all
  have ok: "catalogue_ok (cn_catalogue n)" "bindings_inv (cn_catalogue n) (cn_bindings n)" using assms(1) by (simp_all add: connector_inv_def)
  have c: "catalogue_ok ?c" using declare_tags_ok [OF ok(1) op(1)] by simp
  have b: "bindings_inv ?c (cn_bindings n)" using bindings_inv_grows [OF ok(1) op(1) ok(2)] by simp
  have "connector_step e n = update_targets (n\<lparr>cn_catalogue := ?c, cn_handles := handles_by_id ?c hs\<rparr>)"
    by (simp add: Discovered declare_discovery_def Let_def)
  then show ?thesis
    using c b handles_by_id_get [OF c op(2)]
    by (simp add: connector_inv_def Discovered update_targets_def)
next
  case (SignalMessage topic signal)
  obtain new t where r: "on_signal_record (cn_catalogue n) topic signal (cn_bindings n) = (new, t)"
    by (cases "on_signal_record (cn_catalogue n) topic signal (cn_bindings n)") blast
  have b: "bindings_inv (cn_catalogue n) t"
    using on_signal_record_inv [of "cn_catalogue n" "cn_bindings n" topic signal] assms(1) r by (simp add: connector_inv_def)
  show ?thesis
  proof (cases new)
    case True
    then have run: "connector_step e n = update_writes (update_targets (n\<lparr>cn_bindings := t\<rparr>))"
      by (simp add: SignalMessage r connector_bindings_changed_def)
    show ?thesis unfolding run using assms(1) b
      by (simp add: connector_inv_def SignalMessage update_targets_def update_writes_def)
  next
    case False
    then have "t = cn_bindings n" using r
      by (auto simp: on_signal_record_def set_binding_def Let_def split: if_splits option.splits)
    then show ?thesis using assms(1) False by (simp add: SignalMessage r)
  qed
qed

lemma connector_run_inv:
  assumes "connector_inv handles n" "connector_events_ok es n"
  shows "connector_inv (fold (\<lambda>e hs. case e of Discovered mint tags handles \<Rightarrow> handles | SignalMessage topic signal \<Rightarrow> hs) es handles) (fold connector_step es n)"
  using assms
proof (induction es arbitrary: handles n)
  case (Cons e es)
  from Cons.IH [OF connector_step_inv [OF Cons.prems]] Cons.prems(2) show ?case by simp
qed simp

text \<open>C39: A connector reads what the node binds, from where the source has it. After any discoveries and signal records, in
  any order, the targets of a poll are exactly the bound and published signals: a signal of a synthetic tag without a handle, any
  other with the handle the last discovery gave the source of its tag, and none for a tag that discovery did not find.\<close>

theorem targets_read_their_source:
  assumes "catalogue_ok c0" "connector_events_ok es (mk_connector c0)" "n = fold connector_step es (mk_connector c0)"
  shows "t \<in> set (cn_targets n) \<longleftrightarrow>
     (\<exists>(k, b) \<in> set (bt_bindings (cn_bindings n)). sg_tag (bd_signal b) = Some (bd_tag b) \<and> wanted_target (cn_catalogue n) (discovered_handles es) b t)"
proof -
  have "connector_inv [] (mk_connector c0)"
    using assms(1) by (simp add: connector_inv_def mk_connector_def bindings_inv_def bindings_for_def List.map_filter_def)
  then have inv: "connector_inv (discovered_handles es) n"
    using connector_run_inv assms(2) unfolding discovered_handles_def assms(3) by blast
  then have "\<forall>(k, b) \<in> set (bt_bindings (cn_bindings n)). sg_tag (bd_signal b) = Some (bd_tag b)"
    unfolding connector_inv_def bindings_inv_def by blast
  then show ?thesis using targets_wanted [OF inv] by blast
qed

text \<open>A register discovered as tag \<open>A\<close> after the node said which signals are bound: the signal of \<open>A\<close> is read from it.\<close>

theorem targets_read_their_source_witness:
  "\<exists>(n :: connector) t. t \<in> set (cn_targets n) \<and> tg_handle t = Some (JInt 40001) \<and> sg_id (tg_signal t) = ''s'' \<and> tg_context t = [''p'']"
proof -
  let ?c0 = "mk_catalogue ''c'' []"
  let ?mint = "\<lambda>s. CHR ''#'' # s"
  let ?tag = "\<lparr>dt_id = [], dt_name = ''speed'', dt_source = ''reg1'', dt_writable = True, dt_readable = True, dt_type = JStr ''int'',
     dt_stale = False, dt_meta = []\<rparr>"
  let ?s = "\<lparr>sg_tag = Some ''#reg1'', sg_id = ''s'', sg_published = True\<rparr>"
  let ?es = "[Discovered ?mint [(''reg1'', ?tag)] [(''reg1'', JInt 40001)], SignalMessage ''a/v1/_Signal/n/p'' (Some ?s)]"
  let ?n = "fold connector_step ?es (mk_connector ?c0)"
  let ?t = "\<lparr>tg_signal = ?s, tg_handle = Some (JInt 40001), tg_node = ''n'', tg_context = [''p'']\<rparr>"
  let ?b = "\<lparr>bd_tag = ''#reg1'', bd_node = ''n'', bd_context = [''p''], bd_signal = ?s\<rparr>"
  have c0: "catalogue_ok ?c0" by (simp add: catalogue_ok_def mk_catalogue_def)
  have ok: "connector_events_ok ?es (mk_connector ?c0)"
    by (simp add: mk_connector_def mk_catalogue_def discovered_tags_def synthetic_tag_def HEARTBEAT_TAG_SOURCE_def
        IS_CONNECTED_TAG_SOURCE_def ids_of_def inj_on_def)
  have b: "(''a/v1/_Signal/n/p'', ?b) \<in> set (bt_bindings (cn_bindings ?n))" "source_for_tag (cn_catalogue ?n) ''#reg1'' = Some ''reg1''"
    by (code_simp)+
  have "wanted_target (cn_catalogue ?n) (discovered_handles ?es) ?b ?t"
    using b(2) by (simp add: wanted_target_def discovered_handles_def synthetic_sources_def HEARTBEAT_TAG_SOURCE_def IS_CONNECTED_TAG_SOURCE_def)
  then have "?t \<in> set (cn_targets ?n)"
    using b(1) by (subst targets_read_their_source [OF c0 ok refl]) (auto intro!: bexI [of _ "(''a/v1/_Signal/n/p'', ?b)"])
  moreover have "tg_handle ?t = Some (JInt 40001) \<and> sg_id (tg_signal ?t) = ''s'' \<and> tg_context ?t = [''p'']" by simp
  ultimately show ?thesis by blast
qed

end
