(* ===== verification/Chaski_Poll.thy ===== *)
theory Chaski_Poll
  imports Chaski_Connector
begin

text \<open>
  The loops of \<open>ConnectorService\<close> in \<open>src/chaski/connector.py\<close>: discovery at the start and later, one poll
  (\<open>_poll_iteration\<close>), the heartbeat and the \<open>is_connected\<close> signals. The source and the clocks are arguments, and so are
  the topic of a target, the encoding of a metric and whether an MQTT publish gets through. Waits and logs are left out.
\<close>

section \<open>State\<close>

text \<open>\<open>pl_beating\<close>: the heartbeat's task runs; \<open>pl_beats\<close>: the heartbeat samples that entered the journal. \<open>pl_shown\<close>: \<open>_is_connected_published\<close>; \<open>pl_sent\<close>: the \<open>is_connected\<close> values the broker took, in order;
  \<open>pl_retry_at\<close>: \<open>_next_discovery_retry\<close>.\<close>

record poller =
  pl_connector :: connector
  pl_acquired :: acquisition
  pl_shown :: "(string, bool) dict"
  pl_sent :: "(string \<times> bool) list"
  pl_healthy :: bool
  pl_discovered :: bool
  pl_retry_at :: real
  pl_beating :: bool
  pl_beats :: "(string \<times> json \<times> real \<times> string option) list"


type_synonym discovery = "(string, data_tag) dict \<times> (string \<times> json) list"

record poll_world =
  pw_journal :: journal_world
  pw_encode :: "json \<Rightarrow> real \<Rightarrow> string \<Rightarrow> json"
  pw_topic :: "target \<Rightarrow> string"
  pw_mint :: "string \<Rightarrow> string"
  pw_acquire :: acquire_config
  pw_max_pending :: nat
  pw_heartbeat :: real


section \<open>The state of the source as a signal\<close>

definition targets_of_source :: "string \<Rightarrow> connector \<Rightarrow> target list" where
  "targets_of_source source n =
     filter (\<lambda>t. sg_tag (tg_signal t) = tag_id (cn_catalogue n) source) (cn_targets n)"

definition show_state :: "(string \<Rightarrow> bool) \<Rightarrow> string \<Rightarrow> poller \<Rightarrow> poller" where
  "show_state takes k p =
     (if map_of (pl_shown p) k = Some (pl_healthy p) \<or> \<not> takes k then p
      else p\<lparr>pl_shown := AList.update k (pl_healthy p) (pl_shown p), pl_sent := pl_sent p @ [(k, pl_healthy p)]\<rparr>)"

definition publish_is_connected :: "poll_world \<Rightarrow> (string \<Rightarrow> bool) \<Rightarrow> poller \<Rightarrow> poller" where
  "publish_is_connected w takes p =
     (let keys = map (pw_topic w) (targets_of_source IS_CONNECTED_TAG_SOURCE (pl_connector p))
      in fold (show_state takes) keys (p\<lparr>pl_shown := filter (\<lambda>kv. fst kv \<in> set keys) (pl_shown p)\<rparr>))"

definition set_source_healthy :: "poll_world \<Rightarrow> (string \<Rightarrow> bool) \<Rightarrow> bool \<Rightarrow> poller \<Rightarrow> poller" where
  "set_source_healthy w takes state p = publish_is_connected w takes (p\<lparr>pl_healthy := state\<rparr>)"

section \<open>Discovery\<close>


definition declared :: "poll_world \<Rightarrow> discovery \<Rightarrow> poller \<Rightarrow> poller" where
  "declared w d p = p\<lparr>pl_connector := declare_discovery (pw_mint w) (fst d) (snd d) (pl_connector p)\<rparr>"

text \<open>\<open>_startup_discovery\<close>; \<open>connects\<close> and \<open>found\<close>: what \<open>connect()\<close> and \<open>discover()\<close> do.\<close>

definition startup_discovery :: "poll_world \<Rightarrow> (string \<Rightarrow> bool) \<Rightarrow> bool \<Rightarrow> bool \<Rightarrow> discovery option \<Rightarrow> poller \<Rightarrow> poller" where
  "startup_discovery w takes requires_connection connects found p =
     (let p = if connects then p else set_source_healthy w takes False p
      in if \<not> connects \<and> requires_connection then declared w ([], []) p
         else (case found of
                 None \<Rightarrow> declared w ([], []) (set_source_healthy w takes False p)
               | Some d \<Rightarrow>
                   let p = p\<lparr>pl_discovered := True\<rparr>
                   in declared w d (if connects then set_source_healthy w takes True p else p)))"


section \<open>The heartbeat\<close>

definition heartbeat_value :: "real \<Rightarrow> real \<Rightarrow> real \<Rightarrow> bool" where
  "heartbeat_value interval start now \<longleftrightarrow> even \<lfloor>(now - start) / interval\<rfloor>"

definition with_journal :: "journal \<Rightarrow> poller \<Rightarrow> poller" where
  "with_journal j p = p\<lparr>pl_acquired := (pl_acquired p)\<lparr>aq_journal := j\<rparr>\<rparr>"

definition journal_of :: "poller \<Rightarrow> journal" where
  "journal_of p = aq_journal (pl_acquired p)"

text \<open>\<open>_publish_batch\<close>, under the journal's lock.\<close>

definition publish_batch :: "poll_world \<Rightarrow> (string \<times> json \<times> real \<times> string option) list \<Rightarrow> poller \<Rightarrow> publish_end \<times> poller" where
  "publish_batch w new p =
     (case publish_pages (pw_journal w) (pw_max_pending w) new PUBLISH_PAGES (journal_of p) of (e, j) \<Rightarrow> (e, with_journal j p))"

text \<open>\<open>_publish_heartbeat\<close>; \<open>Some e\<close>: it raises.\<close>

definition publish_heartbeat :: "poll_world \<Rightarrow> bool \<Rightarrow> real \<Rightarrow> poller \<Rightarrow> publish_end option \<times> poller" where
  "publish_heartbeat w value ts p =
     (let due = filter (\<lambda>t. case map_of (aq_latest (pl_acquired p)) (pw_topic w t) of Some v \<Rightarrow> \<not> py_eq v (JBool value) | None \<Rightarrow> True)
            (targets_of_source HEARTBEAT_TAG_SOURCE (pl_connector p));
          new = map (\<lambda>t. (pw_topic w t, pw_encode w (JBool value) ts (sg_id (tg_signal t)), ts, None)) due
      in if due = [] then (None, p)
         else case publish_batch w new p of
                (NotTaken e, p) \<Rightarrow> (Some (NotTaken e), p)
              | (e, p) \<Rightarrow>
                  let p = p\<lparr>pl_beats := pl_beats p @ new\<rparr>
                  in case e of
                       Published backlog \<Rightarrow>
                         (None, p\<lparr>pl_acquired := (pl_acquired p)\<lparr>aq_latest := fold (\<lambda>t. AList.update (pw_topic w t) (JBool value)) due (aq_latest (pl_acquired p))\<rparr>\<rparr>)
                     | _ \<Rightarrow> if e \<in> {MqttGone, HttpError, Undecided} then (None, p) else (Some e, p))"


section \<open>One poll\<close>



definition journal_entry :: "poll_world \<Rightarrow> string \<times> json \<times> real \<times> string \<times> real \<Rightarrow> string \<times> json \<times> real \<times> string option" where
  "journal_entry w = (\<lambda>(topic, v, t, sid, stamped). (topic, pw_encode w v t sid, t, None))"






section \<open>A poll keeps what it counts as sent\<close>

lemma journal_of_shown [simp]:
  "journal_of (publish_is_connected w takes p) = journal_of p" "pl_acquired (publish_is_connected w takes p) = pl_acquired p"
  "pl_connector (publish_is_connected w takes p) = pl_connector p" "pl_healthy (publish_is_connected w takes p) = pl_healthy p"
  "pl_beats (publish_is_connected w takes p) = pl_beats p"
proof -
  have "pl_acquired (fold (show_state takes) keys p) = pl_acquired p \<and> pl_connector (fold (show_state takes) keys p) = pl_connector p
      \<and> pl_healthy (fold (show_state takes) keys p) = pl_healthy p \<and> pl_beats (fold (show_state takes) keys p) = pl_beats p" for keys p
    by (induction keys arbitrary: p) (simp_all add: show_state_def)
  then show "pl_acquired (publish_is_connected w takes p) = pl_acquired p" "pl_connector (publish_is_connected w takes p) = pl_connector p"
    "journal_of (publish_is_connected w takes p) = journal_of p" "pl_healthy (publish_is_connected w takes p) = pl_healthy p"
    "pl_beats (publish_is_connected w takes p) = pl_beats p"
    by (simp_all add: publish_is_connected_def journal_of_def Let_def)
qed

lemma set_source_healthy_simps [simp]:
  "journal_of (set_source_healthy w takes h p) = journal_of p" "pl_acquired (set_source_healthy w takes h p) = pl_acquired p"
  "pl_connector (set_source_healthy w takes h p) = pl_connector p" "pl_healthy (set_source_healthy w takes h p) = h"
  "pl_beats (set_source_healthy w takes h p) = pl_beats p"
  by (simp_all add: set_source_healthy_def) (simp_all add: journal_of_def)

lemma journal_of_with [simp]:
  "journal_of (with_journal j p) = j" "pl_connector (with_journal j p) = pl_connector p"
  "aq_batch (pl_acquired (with_journal j p)) = aq_batch (pl_acquired p)" "pl_beats (with_journal j p) = pl_beats p"
  by (simp_all add: journal_of_def with_journal_def)



text \<open>What a stretch of an iteration does to the journal: it keeps to its invariant, and of the values added to the batches all
  but \<open>lost\<close> are taken, each once, and besides them only heartbeats.\<close>

definition keeps_samples :: "poll_world \<Rightarrow> (string \<times> json \<times> real \<times> string \<times> real) list \<Rightarrow> poller \<Rightarrow> poller \<Rightarrow> bool" where
  "keeps_samples w lost p p' \<longleftrightarrow> journal_inv (pw_max_pending w) (journal_of p')
     \<and> (\<exists>xs ys. aq_batch (pl_acquired p') = aq_batch (pl_acquired p) @ xs @ lost \<and> pl_beats p' = pl_beats p @ ys
          \<and> contents (jn_taken (journal_of p')) = contents (jn_taken (journal_of p)) + mset (map (journal_entry w) xs) + mset ys
          \<and> (lost \<noteq> [] \<longrightarrow> ys \<noteq> []))"


lemma keeps_samples_same:
  "journal_inv (pw_max_pending w) (journal_of p') \<Longrightarrow> jn_taken (journal_of p') = jn_taken (journal_of p)
    \<Longrightarrow> aq_batch (pl_acquired p') = aq_batch (pl_acquired p) \<Longrightarrow> pl_beats p' = pl_beats p \<Longrightarrow> keeps_samples w [] p p'"
  by (simp add: keeps_samples_def)



























section \<open>A heartbeat meets a full journal\<close>

text \<open>\<open>_publish_heartbeat\<close> lets the \<open>BufferError\<close> of a full journal through, which ends \<open>_heartbeat_forever\<close>.\<close>

lemma heartbeat_ends_at_full_journal:
  assumes "jn_journal (journal_of p) = Some rows" "length rows = pw_max_pending w"
    and "t \<in> set (targets_of_source HEARTBEAT_TAG_SOURCE (pl_connector p))" "map_of (aq_latest (pl_acquired p)) (pw_topic w t) = None"
    and "\<And>v t sid. has_non_finite (pw_encode w v t sid) = has_non_finite v"
  shows "fst (publish_heartbeat w value ts p) = Some (NotTaken BufferFull)"
proof -
  define due where "due = filter (\<lambda>t. case map_of (aq_latest (pl_acquired p)) (pw_topic w t) of Some v \<Rightarrow> \<not> py_eq v (JBool value) | None \<Rightarrow> True)
            (targets_of_source HEARTBEAT_TAG_SOURCE (pl_connector p))"
  have "t \<in> set due" using assms(3,4) by (simp add: due_def)
  then have due: "due \<noteq> []" by auto
  let ?new = "map (\<lambda>t. (pw_topic w t, pw_encode w (JBool value) ts (sg_id (tg_signal t)), ts, None :: string option)) due"
  have "append_batch ?new (pw_max_pending w) (jn_rows (journal_of p)) = Inl BufferFull"
    using assms(1,2,5) due by (auto simp: append_batch_def jn_rows_def)
  then have "fst (publish_batch w ?new p) = NotTaken BufferFull"
    using due by (simp add: publish_batch_def publish_pages_def)
  then show ?thesis
    unfolding publish_heartbeat_def due_def [symmetric] Let_def using due by (cases "publish_batch w ?new p") simp
qed

section \<open>Reconnecting and health\<close>

text \<open>\<open>_reconnect_source\<close>: whether an attempt succeeded, and how many were made; \<open>connects k\<close>: what \<open>connect()\<close> does at the
  \<open>k\<close>-th. Closing first may fail and is only logged.\<close>

fun reconnect_source :: "(nat \<Rightarrow> bool) \<Rightarrow> nat \<Rightarrow> nat \<Rightarrow> bool \<times> nat" where
  "reconnect_source connects 0 made = (False, made)"
| "reconnect_source connects (Suc left) made = (if connects made then (True, made + 1) else reconnect_source connects left (made + 1))"

definition stuck_after :: "real \<Rightarrow> real" where
  "stuck_after interval = max (3 * interval) 30"

text \<open>\<open>health_problem\<close>: \<open>polling_since\<close> is \<open>None\<close> while the loop rests; \<open>stuck\<close> words the last reason.\<close>

definition health_problem :: "(real \<Rightarrow> string) \<Rightarrow> bool \<Rightarrow> string \<Rightarrow> string \<Rightarrow> bool \<Rightarrow> real \<Rightarrow> real option \<Rightarrow> real \<Rightarrow> string" where
  "health_problem stuck ready reason conflict linked interval polling_since now =
     (if \<not> ready then ''not ready: '' @ reason
      else if conflict \<noteq> [] then conflict
      else if \<not> linked then ''the MQTT link to Colca is down; samples are journaled until it returns''
      else (case polling_since of
              Some since \<Rightarrow> if stuck_after interval < now - since then ''the poll loop has not finished a poll for '' @ stuck (now - since) else []
            | None \<Rightarrow> []))"

text \<open>\<open>GET\<close> on the health port: status and body.\<close>

definition health_get :: "string \<Rightarrow> string \<Rightarrow> nat \<times> string" where
  "health_get path problem =
     (if path \<noteq> ''/is_healthy'' then (404, [])
      else if problem = [] then (200, ''ok'')
      else (503, ''unhealthy: '' @ problem))"

lemma reconnect_stops_at_first:
  "reconnect_source connects left made = (ok, n) \<Longrightarrow>
     if ok then made < n \<and> n \<le> made + left \<and> connects (n - 1) \<and> (\<forall>k \<in> {made..<n - 1}. \<not> connects k)
     else n = made + left \<and> (\<forall>k \<in> {made..<n}. \<not> connects k)"
proof (induction left arbitrary: made)
  case (Suc left)
  show ?case
  proof (cases "connects made")
    case False
    have no: "(\<forall>k \<in> {Suc made..<m}. \<not> connects k) \<longrightarrow> (\<forall>k \<in> {made..<m}. \<not> connects k)" for m
    proof (intro impI ballI)
      fix k assume that: "\<forall>k \<in> {Suc made..<m}. \<not> connects k" and k: "k \<in> {made..<m}"
      show "\<not> connects k" using False that k by (cases "k = made") auto
    qed
    have ih: "if ok then Suc made < n \<and> n \<le> Suc made + left \<and> connects (n - 1) \<and> (\<forall>k \<in> {Suc made..<n - 1}. \<not> connects k)
       else n = Suc made + left \<and> (\<forall>k \<in> {Suc made..<n}. \<not> connects k)"
      by (rule Suc.IH) (use Suc.prems False in simp)
    show ?thesis
    proof (cases ok)
      case True
      then have r: "Suc made < n" "n \<le> Suc made + left" "connects (n - 1)" "\<forall>k \<in> {made..<n - 1}. \<not> connects k"
        using ih [unfolded if_P [OF True]] mp [OF no [of "n - 1"]] by blast+
      show ?thesis unfolding if_P [OF True] using r by (intro conjI) (assumption | linarith)+
    next
      case False
      then have r: "n = Suc made + left" "\<forall>k \<in> {made..<n}. \<not> connects k" using ih [unfolded if_not_P [OF False]] mp [OF no [of n]] by blast+
      show ?thesis unfolding if_not_P [OF False] using r by (intro conjI) (assumption | linarith)+
    qed
  qed (use Suc.prems in auto)
qed simp

lemma healthy_iff:
  "fst (health_get ''/is_healthy'' (health_problem stuck ready reason conflict linked interval polling_since now)) = 200 \<longleftrightarrow>
     ready \<and> conflict = [] \<and> linked \<and> (\<forall>since. polling_since = Some since \<longrightarrow> now - since \<le> stuck_after interval)"
  by (auto simp: health_get_def health_problem_def split: option.split)

section \<open>The shown state is the one the broker has\<close>

definition last_shown :: "string \<Rightarrow> (string \<times> bool) list \<Rightarrow> bool option" where
  "last_shown k sent = map_of (rev sent) k"

definition shown_inv :: "poller \<Rightarrow> bool" where
  "shown_inv p \<longleftrightarrow> (\<forall>k v. map_of (pl_shown p) k = Some v \<longrightarrow> last_shown k (pl_sent p) = Some v)"

lemma show_state_inv:
  assumes "shown_inv p"
  shows "shown_inv (show_state takes k p) \<and> (takes k \<longrightarrow> map_of (pl_shown (show_state takes k p)) k = Some (pl_healthy p))"
  using assms by (auto simp: shown_inv_def show_state_def last_shown_def)

lemma show_states_inv:
  assumes "shown_inv p"
  shows "shown_inv (fold (show_state takes) keys p)
     \<and> (\<forall>k \<in> set keys. takes k \<longrightarrow> map_of (pl_shown (fold (show_state takes) keys p)) k = Some (pl_healthy p))"
proof -
  have keep: "map_of (pl_shown p) k = Some (pl_healthy p) \<Longrightarrow> map_of (pl_shown (fold (show_state takes) keys p)) k = Some (pl_healthy p)" for keys p k
    by (induction keys arbitrary: p) (auto simp: show_state_def)
  have h: "pl_healthy (show_state takes k p) = pl_healthy p" for k p by (simp add: show_state_def)
  show ?thesis using assms
  proof (induction keys arbitrary: p)
    case (Cons k keys)
    note one = show_state_inv [OF Cons.prems, of takes k]
    show ?case using Cons.IH [OF conjunct1 [OF one]] one keep [of "show_state takes k p" k keys] by (auto simp: h)
  qed simp
qed

lemma is_connected_shown:
  assumes "shown_inv p"
  shows "shown_inv (publish_is_connected w takes p)
     \<and> (\<forall>t \<in> set (targets_of_source IS_CONNECTED_TAG_SOURCE (pl_connector p)). takes (pw_topic w t) \<longrightarrow>
          last_shown (pw_topic w t) (pl_sent (publish_is_connected w takes p)) = Some (pl_healthy p))"
proof -
  let ?keys = "map (pw_topic w) (targets_of_source IS_CONNECTED_TAG_SOURCE (pl_connector p))"
  let ?p = "p\<lparr>pl_shown := filter (\<lambda>kv. fst kv \<in> set ?keys) (pl_shown p)\<rparr>"
  have "map_of (filter (\<lambda>kv. fst kv \<in> set ?keys) (pl_shown p)) k = (if k \<in> set ?keys then map_of (pl_shown p) k else None)" for k
    by (rule map_of_filter_key)
  then have "shown_inv ?p" using assms by (simp add: shown_inv_def)
  from show_states_inv [OF this, of takes ?keys] show ?thesis
    unfolding publish_is_connected_def Let_def shown_inv_def by auto
qed

end
